(* ===== verification/Prelude.thy ===== *)
theory Prelude
  imports Main "HOL-Library.Word"
begin

text \<open>
  Shared vocabulary of the development: the result type of a Rust function
  (\<open>outcome\<close>: it returns, it panics, or it never returns), the \<open>?\<close> operator
  and \<open>expect\<close> on \<open>Result\<close>, 64-bit arithmetic in both build profiles (a build
  with overflow checks panics, one without wraps around).
\<close>

section \<open>Collections and type names\<close>

named_theorems outcome_simps \<open>evaluation of outcomes, results and checked arithmetic\<close>

type_synonym u64 = "64 word"
type_synonym usize = "64 word"
type_synonym bytes = "char list"

section \<open>Outcomes of a Rust call\<close>

datatype 'a outcome = Ret 'a | Panic string | Diverge

definition obind :: "'a outcome \<Rightarrow> ('a \<Rightarrow> 'b outcome) \<Rightarrow> 'b outcome" where
  "obind m f = (case m of Ret x \<Rightarrow> f x | Panic p \<Rightarrow> Panic p | Diverge \<Rightarrow> Diverge)"

lemma obind_Ret [simp, outcome_simps]: "obind (Ret x) f = f x"
  by (simp add: obind_def)

lemma obind_Panic [simp, outcome_simps]: "obind (Panic p) f = Panic p"
  by (simp add: obind_def)

lemma obind_Diverge [simp, outcome_simps]: "obind Diverge f = Diverge"
  by (simp add: obind_def)

lemma obind_cong [fundef_cong]:
  "m = m' \<Longrightarrow> (\<And>x. m' = Ret x \<Longrightarrow> f x = g x) \<Longrightarrow> obind m f = obind m' g"
  by (cases m') auto

lemma obind_Ret_iff: "obind m f = Ret y \<longleftrightarrow> (\<exists>x. m = Ret x \<and> f x = Ret y)"
  by (cases m) auto

lemma obind_Panic_iff:
  "obind m f = Panic p \<longleftrightarrow> m = Panic p \<or> (\<exists>x. m = Ret x \<and> f x = Panic p)"
  by (cases m) auto

lemma obind_Diverge_iff:
  "obind m f = Diverge \<longleftrightarrow> m = Diverge \<or> (\<exists>x. m = Ret x \<and> f x = Diverge)"
  by (cases m) auto

lemma obind_RetE [elim]:
  assumes "obind m f = Ret y"
  obtains x where "m = Ret x" and "f x = Ret y"
  using assms by (auto simp: obind_Ret_iff)

lemma obind_assoc: "obind (obind m f) g = obind m (\<lambda>x. obind (f x) g)"
  by (cases m) auto

text \<open>The \<open>?\<close> operator on \<open>Result\<close> values, and \<open>expect\<close>/\<open>unwrap\<close>.\<close>

definition sbind :: "'e + 'a \<Rightarrow> ('a \<Rightarrow> 'e + 'b) \<Rightarrow> 'e + 'b" where
  "sbind m f = (case m of Inl e \<Rightarrow> Inl e | Inr x \<Rightarrow> f x)"

lemma sbind_Inl [simp, outcome_simps]: "sbind (Inl e) f = Inl e"
  by (simp add: sbind_def)

lemma sbind_Inr [simp, outcome_simps]: "sbind (Inr x) f = f x"
  by (simp add: sbind_def)

lemma sbind_Inr_iff: "sbind m f = Inr y \<longleftrightarrow> (\<exists>x. m = Inr x \<and> f x = Inr y)"
  by (cases m) auto

lemma sbind_InrE [elim]:
  assumes "sbind m f = Inr y"
  obtains x where "m = Inr x" and "f x = Inr y"
  using assms by (auto simp: sbind_Inr_iff)

definition expect :: "string \<Rightarrow> 'e + 'a \<Rightarrow> 'a outcome" where
  "expect msg r = (case r of Inl e \<Rightarrow> Panic msg | Inr x \<Rightarrow> Ret x)"

definition expect_some :: "string \<Rightarrow> 'a option \<Rightarrow> 'a outcome" where
  "expect_some msg r = (case r of None \<Rightarrow> Panic msg | Some x \<Rightarrow> Ret x)"

lemma expect_simps [simp, outcome_simps]:
  "expect msg (Inl e) = Panic msg" "expect msg (Inr x) = Ret x"
  by (simp_all add: expect_def)

lemma expect_some_simps [simp, outcome_simps]:
  "expect_some msg None = Panic msg" "expect_some msg (Some x) = Ret x"
  by (simp_all add: expect_some_def)

lemma expect_Ret_iff: "expect msg r = Ret x \<longleftrightarrow> r = Inr x"
  by (cases r) auto

lemma expect_some_Ret_iff: "expect_some msg r = Ret x \<longleftrightarrow> r = Some x"
  by (cases r) auto

abbreviation unwrap :: "'e + 'a \<Rightarrow> 'a outcome" where
  "unwrap \<equiv> expect ''called `Result::unwrap()` on an `Err` value''"

text \<open>\<open>unwrap_err\<close>.\<close>

definition unwrap_err :: "'e + 'a \<Rightarrow> 'e outcome" where
  "unwrap_err r = (case r of Inl e \<Rightarrow> Ret e
     | Inr _ \<Rightarrow> Panic ''called `Result::unwrap_err()` on an `Ok` value'')"

lemma unwrap_err_Inl [simp, outcome_simps]: "unwrap_err (Inl e) = Ret e"
  by (simp add: unwrap_err_def)

text \<open>The macros \<open>assert!\<close> and \<open>assert_eq!\<close>.\<close>

definition assert_that :: "bool \<Rightarrow> unit outcome" where
  "assert_that b = (if b then Ret () else Panic ''assertion failed'')"

lemma assert_that_simps [simp, outcome_simps]:
  "assert_that True = Ret ()" "assert_that False = Panic ''assertion failed''"
  by (simp_all add: assert_that_def)

text \<open>An unsigned number as \<open>to_string\<close> and \<open>format!\<close> print it.\<close>

fun decimal :: "nat \<Rightarrow> string" where
  "decimal n = (if n < 10 then [char_of (48 + n)] else decimal (n div 10) @ [char_of (48 + n mod 10)])"

declare decimal.simps [simp del]

section \<open>Checked 64-bit arithmetic\<close>

text \<open>
  The first argument says whether the crate is built with overflow checks (Cargo's
  \<open>dev\<close> and \<open>test\<close> profiles) or without (\<open>release\<close>).
\<close>

definition u64_add :: "bool \<Rightarrow> u64 \<Rightarrow> u64 \<Rightarrow> u64 outcome" where
  "u64_add checks a b =
     (if checks \<and> a + b < a then Panic ''attempt to add with overflow'' else Ret (a + b))"

definition u64_sub :: "bool \<Rightarrow> u64 \<Rightarrow> u64 \<Rightarrow> u64 outcome" where
  "u64_sub checks a b =
     (if checks \<and> a < b then Panic ''attempt to subtract with overflow'' else Ret (a - b))"

lemma u64_add_unchecked [simp]: "u64_add False a b = Ret (a + b)"
  by (simp add: u64_add_def)

lemma u64_sub_unchecked [simp]: "u64_sub False a b = Ret (a - b)"
  by (simp add: u64_sub_def)

lemma u64_sub_ok: "b \<le> a \<Longrightarrow> u64_sub checks a b = Ret (a - b)"
  by (auto simp: u64_sub_def)

lemma u64_succ_le: "(a::u64) < b \<Longrightarrow> a \<le> a + 1 \<and> a + 1 \<le> b"
  by unat_arith

lemma u64_succ_ok: "(a::u64) < b \<Longrightarrow> u64_add checks a 1 = Ret (a + 1)"
  using u64_succ_le [of a b] by (auto simp: u64_add_def)

lemma u64_succ_unat:
  assumes "(a::u64) < b"
  shows "unat (a + 1) = unat a + 1"
proof -
  have "unat a + 1 \<le> unat b" using assms by (simp add: word_less_nat_alt)
  also have "unat b < 2 ^ 64" using unsigned_less [of b] by simp
  finally show ?thesis by (simp add: unat_word_ariths)
qed

lemma u64_add_diff_ok:
  assumes "(a::u64) \<le> b" and "d \<le> b - a"
  shows "u64_add checks a d = Ret (a + d)" and "a \<le> a + d" and "a + d \<le> b"
proof -
  have le: "unat a + unat d \<le> unat b"
    using assms by (simp add: word_le_nat_alt unat_sub)
  also have "unat b < 2 ^ 64"
    using unsigned_less [of b] by simp
  finally have u: "unat (a + d) = unat a + unat d"
    by (simp add: unat_word_ariths)
  show "a \<le> a + d"
    by (simp add: word_le_nat_alt u)
  then show "u64_add checks a d = Ret (a + d)"
    by (auto simp: u64_add_def)
  show "a + d \<le> b"
    using le by (simp add: word_le_nat_alt u)
qed

lemma u64_pred_le: "(n::u64) \<noteq> 0 \<Longrightarrow> n - 1 < n"
  by unat_arith

lemma u64_le_pred: "(k::u64) \<le> n \<Longrightarrow> k \<noteq> n \<Longrightarrow> k \<le> n - 1"
  by unat_arith

end
