(* ===== verification/Interface.thy ===== *)
theory Interface
  imports Prelude
begin

text \<open>
  The data types of \<^verbatim>\<open>src/src/interface.rs\<close>: headers, transactions, blocks, the
  request records, the errors of the network layer, and the provider traits. A trait is a
  record of its operations, passed to the definitions that are generic in it; the methods
  take and return the world \<open>'w\<close> they act on (the channels to the network task), and a
  future is a handle \<open>'fut\<close> that is polled in a world.
\<close>

section \<open>Data\<close>

record header =
  number :: u64
  parent_hash :: string
  state_root :: string
  timestamp :: u64
  nonce :: u64
  hash :: string

definition header_default :: header where
  "header_default = \<lparr>number = 0, parent_hash = '''', state_root = '''', timestamp = 0,
     nonce = 0, hash = ''''\<rparr>"

record transaction =
  tx_hash :: string
  tx_from :: string
  tx_to :: string
  tx_value :: u64
  tx_nonce :: u64

record block =
  block_header :: header
  block_transactions :: "transaction list"

record headers_request =
  limit :: u64
  start_block :: u64

text \<open>Peers are identified by the bytes of their multihash.\<close>

type_synonym peer_id = string

text \<open>
  Errors of libp2p and tokio are carried by their text; the variants are those of
  \<open>RequestError\<close>.
\<close>

datatype request_error =
    ChannelClosed string
  | Timeout
  | OutboundFailure string
  | DialError string
  | TransportError string
  | PublishError string

type_synonym 'a request_response = "request_error + 'a"
type_synonym headers_response = "header list"

definition from_send_error :: "string \<Rightarrow> request_error" where
  "from_send_error e = ChannelClosed e"

definition from_recv_error :: "string \<Rightarrow> request_error" where
  "from_recv_error e = ChannelClosed e"

section \<open>Provider traits\<close>

datatype 'a poll = Ready 'a | Pending

text \<open>
  \<open>HeadersProvider\<close>: requesting headers yields a future; \<open>hp_poll_next\<close> is the
  \<open>poll_next\<close> of the \<open>FuturesUnordered\<close> the futures are kept in, which yields the
  position of some completed future with its value, in an order of its own. \<open>hp_drop\<close> is
  the destructor of the futures that are dropped before they complete.
\<close>

record ('w, 'fut) headers_provider =
  hp_get_headers :: "'w \<Rightarrow> peer_id \<Rightarrow> headers_request \<Rightarrow> 'fut \<times> 'w"
  hp_poll_next :: "'w \<Rightarrow> 'fut list \<Rightarrow> (nat \<times> headers_response request_response) option \<times> 'w"
  hp_drop :: "'w \<Rightarrow> 'fut list \<Rightarrow> 'w"

text \<open>
  The bounds \<open>PeerProvider + HeadersProvider + BroadcastProvider\<close> of the chain network
  manager. Broadcasting may panic, since the methods expect the command channel to be open,
  and so may polling a broadcast, since the future expects an answer.
\<close>

record ('w, 'fut) provider = "('w, 'fut) headers_provider" +
  pp_get_closest_peers :: "'w \<Rightarrow> 'fut \<times> 'w"
  pp_poll :: "'w \<Rightarrow> 'fut \<Rightarrow> peer_id list request_response poll \<times> 'w"
  bp_broadcast_block_header :: "'w \<Rightarrow> header \<Rightarrow> ('fut \<times> 'w) outcome"
  bp_broadcast_transactions :: "'w \<Rightarrow> transaction list \<Rightarrow> ('fut \<times> 'w) outcome"
  bp_poll_next :: "'w \<Rightarrow> 'fut list \<Rightarrow>
    ((nat \<times> unit request_response) option \<times> 'w) outcome"

end
