(* ===== verification/BTree_Map.thy ===== *)
theory BTree_Map
  imports Prelude "HOL-Library.Char_ord" "HOL-Library.List_Lexorder"
begin

text \<open>
  The standard library's \<open>BTreeMap\<close>, which the transaction pool and the test double of
  the chain keep their data in: the operations the sources call, and the interface
  \<open>ordered_map\<close> their proofs rely on. String keys compare bytewise, as Rust's \<open>str\<close>
  does (the orders of \<open>Char_ord\<close> and \<open>List_Lexorder\<close>).
\<close>

named_theorems btm_simps \<open>facts on the BTreeMap model\<close>

text \<open>
  A \<open>BTreeMap\<close> is the list of its entries in ascending key order. \<open>insert\<close> returns
  the value the key had before, as the library's does.
\<close>

type_synonym ('k, 'v) btree_map = "('k \<times> 'v) list"

definition btm_wf :: "('k::linorder, 'v) btree_map \<Rightarrow> bool" where
  "btm_wf m \<longleftrightarrow> sorted_wrt (<) (map fst m)"

fun btm_put :: "'k::linorder \<Rightarrow> 'v \<Rightarrow> ('k, 'v) btree_map \<Rightarrow> ('k, 'v) btree_map" where
  "btm_put k v [] = [(k, v)]"
| "btm_put k v (e # m) =
     (if k = fst e then (k, v) # m
      else if fst e < k then e # btm_put k v m
      else (k, v) # e # m)"

definition btm_insert ::
  "'k::linorder \<Rightarrow> 'v \<Rightarrow> ('k, 'v) btree_map \<Rightarrow> 'v option \<times> ('k, 'v) btree_map" where
  "btm_insert k v m = (map_of m k, btm_put k v m)"

definition btm_last :: "('k, 'v) btree_map \<Rightarrow> ('k \<times> 'v) option" where
  "btm_last m = (if m = [] then None else Some (last m))"

fun btm_pop_first :: "('k, 'v) btree_map \<Rightarrow> ('k \<times> 'v) option \<times> ('k, 'v) btree_map" where
  "btm_pop_first [] = (None, [])"
| "btm_pop_first (e # m) = (Some e, m)"

definition btm_values :: "('k, 'v) btree_map \<Rightarrow> 'v list" where
  "btm_values m = map snd m"

lemma btm_wf_Nil [simp]: "btm_wf []"
  by (simp add: btm_wf_def)

lemma btm_wf_Cons: "btm_wf (e # m) \<longleftrightarrow> (\<forall>x \<in> set m. fst e < fst x) \<and> btm_wf m"
  by (auto simp: btm_wf_def)

lemma btm_keys_put: "fst ` set (btm_put k v m) = insert k (fst ` set m)"
  by (induction m) auto

lemma btm_wf_put [btm_simps]: "btm_wf m \<Longrightarrow> btm_wf (btm_put k v m)"
proof (induction m)
  case Nil
  then show ?case by (simp add: btm_wf_def)
next
  case (Cons e m)
  have "\<forall>x \<in> set (btm_put k v m). fst x = k \<or> fst x \<in> fst ` set m"
    using btm_keys_put [of k v m] by blast
  with Cons show ?case
    by (fastforce simp: btm_wf_Cons not_less_iff_gr_or_eq)
qed

lemma btm_get_put [btm_simps]: "btm_wf m \<Longrightarrow> map_of (btm_put k v m) = (map_of m)(k \<mapsto> v)"
  by (induction m) (auto simp: btm_wf_Cons fun_eq_iff)

lemma btm_put_not_Nil [simp]: "btm_put k v m \<noteq> []"
  by (cases m) auto

lemma btm_wf_distinct: "btm_wf m \<Longrightarrow> distinct (map fst m)"
  by (simp add: btm_wf_def strict_sorted_iff)

text \<open>A map is determined by its entries.\<close>

lemma btm_eqI:
  assumes "btm_wf a" and "btm_wf b" and "map_of a = map_of b"
  shows "a = b"
proof -
  have keys: "map fst a = map fst b"
  proof (rule strict_sorted_equal)
    show "set (map fst a) = set (map fst b)"
      using arg_cong [where f = dom, OF assms(3)] by (simp add: dom_map_of_conv_image_fst)
  qed (use assms(1,2) in \<open>simp_all add: btm_wf_def\<close>)
  have entries: "map (\<lambda>k. (k, the (map_of m k))) (map fst m) = m" if "btm_wf m"
    for m :: "('a, 'b) btree_map"
    unfolding map_map by (rule map_idI) (use btm_wf_distinct [OF that] in auto)
  show ?thesis using entries [OF assms(1)] entries [OF assms(2)] keys assms(3) by metis
qed

lemma btm_last_max:
  assumes "btm_wf m" and "btm_last m = Some (k, v)"
  shows "map_of m k = Some v" and "\<And>k' v'. map_of m k' = Some v' \<Longrightarrow> k' \<le> k"
proof -
  obtain m' where m: "m = m' @ [(k, v)]"
    using assms(2) by (cases m rule: rev_cases) (auto simp: btm_last_def)
  have lt: "\<forall>x \<in> set m'. fst x < k"
    using assms(1) by (auto simp: m btm_wf_def sorted_wrt_append)
  then have "map_of m' k = None"
    by (metis map_of_eq_None_iff imageE less_irrefl)
  then show "map_of m k = Some v"
    by (simp add: m map_add_def)
  show "k' \<le> k" if "map_of m k' = Some v'" for k' v'
    using map_of_SomeD [OF that] lt by (auto simp: m)
qed

lemma btm_last_None_iff: "btm_last m = None \<longleftrightarrow> (\<forall>k. map_of m k = None)"
  by (cases m) (auto simp: btm_last_def)

lemma btm_first_min:
  "btm_wf ((k, v) # m) \<Longrightarrow> map_of m k' = Some v' \<Longrightarrow> k < k'"
  using map_of_SomeD [of m k' v'] by (auto simp: btm_wf_Cons)

section \<open>The interface\<close>

locale ordered_map =
  fixes wf :: "'m \<Rightarrow> bool"
    and lookup :: "'m \<Rightarrow> 'k::linorder \<Rightarrow> 'v option"
    and put :: "'k \<Rightarrow> 'v \<Rightarrow> 'm \<Rightarrow> 'v option \<times> 'm"
    and pop :: "'m \<Rightarrow> ('k \<times> 'v) option \<times> 'm"
    and greatest :: "'m \<Rightarrow> ('k \<times> 'v) option"
  assumes put_wf: "wf m \<Longrightarrow> wf (snd (put k v m))"
    and put_old: "wf m \<Longrightarrow> fst (put k v m) = lookup m k"
    and put_lookup: "wf m \<Longrightarrow> lookup (snd (put k v m)) = (lookup m)(k \<mapsto> v)"
    and pop_None: "wf m \<Longrightarrow> fst (pop m) = None \<longleftrightarrow> lookup m = Map.empty"
    and pop_None_same: "wf m \<Longrightarrow> fst (pop m) = None \<Longrightarrow> snd (pop m) = m"
    and pop_Some: "wf m \<Longrightarrow> fst (pop m) = Some (k, v) \<Longrightarrow>
      lookup m k = Some v \<and> (\<forall>k' \<in> dom (lookup m). k \<le> k') \<and>
      lookup (snd (pop m)) = (lookup m)(k := None)"
    and pop_wf: "wf m \<Longrightarrow> wf (snd (pop m))"
    and greatest_None: "wf m \<Longrightarrow> greatest m = None \<longleftrightarrow> lookup m = Map.empty"
    and greatest_Some: "wf m \<Longrightarrow> greatest m = Some (k, v) \<Longrightarrow>
      lookup m k = Some v \<and> (\<forall>k' \<in> dom (lookup m). k' \<le> k)"
begin

lemma put_dom: "wf m \<Longrightarrow> dom (lookup (snd (put k v m))) = insert k (dom (lookup m))"
  by (simp add: put_lookup)

lemma greatest_of_nonempty:
  assumes "wf m" and "lookup m k = Some v"
  obtains k' v' where "greatest m = Some (k', v')" and "k \<le> k'"
proof (cases "greatest m")
  case None
  with assms show ?thesis by (simp add: greatest_None)
next
  case (Some e)
  then obtain k' v' where "greatest m = Some (k', v')" by (cases e) auto
  with assms show ?thesis by (intro that) (auto dest: greatest_Some)
qed

lemma greatest_unique:
  assumes "wf m" and "lookup m k = Some v" and "\<And>k'. k' \<in> dom (lookup m) \<Longrightarrow> k' \<le> k"
  shows "greatest m = Some (k, v)"
proof -
  obtain k' v' where g: "greatest m = Some (k', v')" and le: "k \<le> k'"
    using greatest_of_nonempty [OF assms(1,2)] by blast
  from greatest_Some [OF assms(1) g] have v': "lookup m k' = Some v'" by simp
  with assms(3) [of k'] le have "k' = k" by (auto intro: order.antisym)
  with g v' assms(2) show ?thesis by simp
qed

text \<open>Inserting a list of entries one by one: what is stored afterwards.\<close>

lemma fold_put:
  "wf m \<Longrightarrow> wf (fold (\<lambda>(k, v) m. snd (put k v m)) es m) \<and>
     lookup (fold (\<lambda>(k, v) m. snd (put k v m)) es m) = lookup m ++ map_of (rev es)"
  by (induction es arbitrary: m) (auto simp: put_wf put_lookup map_add_def fun_eq_iff
      split: option.splits)

end

interpretation btm: ordered_map btm_wf map_of btm_insert btm_pop_first btm_last
proof
  fix m :: "('a, 'b) btree_map" and k v
  assume wf: "btm_wf m"
  show "btm_wf (snd (btm_insert k v m))" "fst (btm_insert k v m) = map_of m k"
    "map_of (snd (btm_insert k v m)) = (map_of m)(k \<mapsto> v)"
    using wf by (simp_all add: btm_insert_def btm_simps)
  show "(fst (btm_pop_first m) = None) = (map_of m = Map.empty)"
    by (cases m) (auto simp: fun_eq_iff)
  show "btm_wf (snd (btm_pop_first m))"
    using wf by (cases m) (auto simp: btm_wf_Cons)
  show "(btm_last m = None) = (map_of m = Map.empty)"
    by (auto simp: btm_last_None_iff fun_eq_iff)
  show "snd (btm_pop_first m) = m" if "fst (btm_pop_first m) = None"
    using that by (cases m) auto
  show "map_of m k = Some v \<and> (\<forall>k' \<in> dom (map_of m). k' \<le> k)"
    if "btm_last m = Some (k, v)"
    using btm_last_max [OF wf that] by blast
  show "map_of m k = Some v \<and> (\<forall>k' \<in> dom (map_of m). k \<le> k') \<and>
      map_of (snd (btm_pop_first m)) = (map_of m)(k := None)"
    if "fst (btm_pop_first m) = Some (k, v)"
    using that wf btm_first_min [of k v "tl m"]
    by (cases m) (force simp: fun_eq_iff dest: order.strict_implies_order)+
qed

end
