(* ===== verification/External.thy ===== *)
theory External
  imports Interface BTree_Map
begin

text \<open>
  Code the crate calls and does not contain, as parameters of the model: the redb
  database (record \<open>redb\<close>), and the RLP codec, SHA-256, hex and JSON text
  (record \<open>ext\<close>, which also says how the crate was built). What the crate relies on is
  stated as the assumptions of two locales, each of which is redb's or the codec's
  documented behaviour: a redb call may fail, and if it succeeds it acts on the tables as
  on maps; decoding the encoding of a header yields the header. Instances that keep the
  tables in \<open>BTreeMap\<close>s close the development.
\<close>

section \<open>Codecs and hashing\<close>

datatype json =
    JString string
  | JNumber u64
  | JArray "json list"
  | JObject "(string \<times> json) list"

record ext =
  overflow_checks :: bool
  header_encode :: "header \<Rightarrow> bytes"
  header_decode :: "bytes \<Rightarrow> string + header"
  sha256 :: "bytes \<Rightarrow> bytes"
  hex_encode :: "bytes \<Rightarrow> string"
  json_to_string :: "json \<Rightarrow> string"

locale header_codec =
  fixes X :: ext
  assumes decode_encode: "header_decode X (header_encode X h) = Inr h"

section \<open>The redb database\<close>

text \<open>
  A database file with the two tables of the crate, \<open>HEADER\<close> (block number to encoded
  header) and \<open>HASH\<close> (block hash to block number). Every call can fail with an error,
  here its text. Reads and writes go through a transaction; a write transaction that is
  not committed leaves the database as it was.
\<close>

datatype table_name = HEADER | HASH

type_synonym tables = "(u64 \<rightharpoonup> bytes) \<times> (string \<rightharpoonup> u64)"

record ('db, 'txn) redb =
  redb_create :: "string \<Rightarrow> string + 'db"
  redb_begin_read :: "'db \<Rightarrow> string + 'txn"
  redb_begin_write :: "'db \<Rightarrow> string + 'txn"
  redb_open_table :: "'txn \<Rightarrow> table_name \<Rightarrow> string + 'txn"
  redb_get_header :: "'txn \<Rightarrow> u64 \<Rightarrow> string + bytes option"
  redb_last_header :: "'txn \<Rightarrow> string + (u64 \<times> bytes) option"
  redb_get_hash :: "'txn \<Rightarrow> string \<Rightarrow> string + u64 option"
  redb_insert_header :: "'txn \<Rightarrow> u64 \<Rightarrow> bytes \<Rightarrow> string + 'txn"
  redb_insert_hash :: "'txn \<Rightarrow> string \<Rightarrow> u64 \<Rightarrow> string + 'txn"
  redb_commit :: "'db \<Rightarrow> 'txn \<Rightarrow> string + 'db"

text \<open>The greatest entry of a table, what \<open>last()\<close> returns.\<close>

definition last_entry :: "('k::linorder \<rightharpoonup> 'v) \<Rightarrow> ('k \<times> 'v) option" where
  "last_entry m = (if dom m = {} then None else Some (Max (dom m), the (m (Max (dom m)))))"

locale redb_store =
  fixes R :: "('db, 'txn) redb"
    and db_ok :: "'db \<Rightarrow> bool"
    and txn_ok :: "'txn \<Rightarrow> bool"
    and stored :: "'db \<Rightarrow> tables"
    and view :: "'txn \<Rightarrow> tables"
  assumes create: "redb_create R path = Inr db \<Longrightarrow> db_ok db"
    and begin_read: "db_ok db \<Longrightarrow> redb_begin_read R db = Inr t \<Longrightarrow>
      txn_ok t \<and> view t = stored db"
    and begin_write: "db_ok db \<Longrightarrow> redb_begin_write R db = Inr t \<Longrightarrow>
      txn_ok t \<and> view t = stored db"
    and open_table: "txn_ok t \<Longrightarrow> redb_open_table R t name = Inr t' \<Longrightarrow>
      txn_ok t' \<and> view t' = view t"
    and get_header: "txn_ok t \<Longrightarrow> redb_get_header R t n = Inr r \<Longrightarrow> r = fst (view t) n"
    and last_header: "txn_ok t \<Longrightarrow> redb_last_header R t = Inr e \<Longrightarrow>
      e = last_entry (fst (view t))"
    and get_hash: "txn_ok t \<Longrightarrow> redb_get_hash R t k = Inr q \<Longrightarrow> q = snd (view t) k"
    and insert_header: "txn_ok t \<Longrightarrow> redb_insert_header R t n b = Inr t' \<Longrightarrow>
      txn_ok t' \<and> view t' = ((fst (view t))(n \<mapsto> b), snd (view t))"
    and insert_hash: "txn_ok t \<Longrightarrow> redb_insert_hash R t k n = Inr t' \<Longrightarrow>
      txn_ok t' \<and> view t' = (fst (view t), (snd (view t))(k \<mapsto> n))"
    and commit: "db_ok db \<Longrightarrow> txn_ok t \<Longrightarrow> redb_commit R db t = Inr db' \<Longrightarrow>
      db_ok db' \<and> stored db' = view t"

text \<open>A database on which no call fails.\<close>

locale reliable_redb_store = redb_store +
  assumes begin_read_total: "db_ok db \<Longrightarrow> \<exists>t. redb_begin_read R db = Inr t"
    and begin_write_total: "db_ok db \<Longrightarrow> \<exists>t. redb_begin_write R db = Inr t"
    and open_table_total: "txn_ok t \<Longrightarrow> \<exists>t'. redb_open_table R t name = Inr t'"
    and get_header_total: "txn_ok t \<Longrightarrow> \<exists>r. redb_get_header R t n = Inr r"
    and last_header_total: "txn_ok t \<Longrightarrow> \<exists>e. redb_last_header R t = Inr e"
    and get_hash_total: "txn_ok t \<Longrightarrow> \<exists>q. redb_get_hash R t k = Inr q"
    and insert_header_total: "txn_ok t \<Longrightarrow> \<exists>t'. redb_insert_header R t n b = Inr t'"
    and insert_hash_total: "txn_ok t \<Longrightarrow> \<exists>t'. redb_insert_hash R t k n = Inr t'"
    and commit_total: "db_ok db \<Longrightarrow> txn_ok t \<Longrightarrow> \<exists>db'. redb_commit R db t = Inr db'"

section \<open>Instances\<close>

text \<open>
  Tables in memory. The \<open>fault\<close> field names the call that fails, so that the error paths
  can be run too; \<open>None\<close> is a database on which every call succeeds.
\<close>

datatype redb_call = BeginRead | BeginWrite | OpenTable | ReadTable | WriteTable | Commit

record mem_db =
  header_table :: "(u64, bytes) btree_map"
  hash_table :: "(string, u64) btree_map"
  fault :: "redb_call option"

definition mem_call :: "redb_call \<Rightarrow> mem_db \<Rightarrow> 'a \<Rightarrow> string + 'a" where
  "mem_call c d x = (if fault d = Some c then Inl ''I/O error'' else Inr x)"

definition mem_redb :: "mem_db \<Rightarrow> (mem_db, mem_db) redb" where
  "mem_redb initial = \<lparr>
     redb_create = (\<lambda>path. Inr initial),
     redb_begin_read = (\<lambda>d. mem_call BeginRead d d),
     redb_begin_write = (\<lambda>d. mem_call BeginWrite d d),
     redb_open_table = (\<lambda>t name. mem_call OpenTable t t),
     redb_get_header = (\<lambda>t n. mem_call ReadTable t (map_of (header_table t) n)),
     redb_last_header = (\<lambda>t. mem_call ReadTable t (btm_last (header_table t))),
     redb_get_hash = (\<lambda>t k. mem_call ReadTable t (map_of (hash_table t) k)),
     redb_insert_header = (\<lambda>t n b. mem_call WriteTable t
        (t\<lparr>header_table := snd (btm_insert n b (header_table t))\<rparr>)),
     redb_insert_hash = (\<lambda>t k n. mem_call WriteTable t
        (t\<lparr>hash_table := snd (btm_insert k n (hash_table t))\<rparr>)),
     redb_commit = (\<lambda>d t. mem_call Commit d t)\<rparr>"

definition mem_ok :: "mem_db \<Rightarrow> bool" where
  "mem_ok d \<longleftrightarrow> btm_wf (header_table d) \<and> btm_wf (hash_table d)"

definition mem_view :: "mem_db \<Rightarrow> tables" where
  "mem_view d = (map_of (header_table d), map_of (hash_table d))"

definition mem_empty :: mem_db where
  "mem_empty = \<lparr>header_table = [], hash_table = [], fault = None\<rparr>"

lemma mem_call_Inr [simp]: "mem_call c d x = Inr y \<longleftrightarrow> fault d \<noteq> Some c \<and> y = x"
  by (auto simp: mem_call_def)

lemma btm_last_entry: "btm_wf m \<Longrightarrow> btm_last m = last_entry (map_of m)"
proof (cases "btm_last m")
  case None
  then show ?thesis by (auto simp: btm_last_None_iff last_entry_def dom_def)
next
  case (Some e)
  then obtain k v where e: "btm_last m = Some (k, v)" by (cases e) auto
  assume wf: "btm_wf m"
  note g = btm.greatest_Some [OF wf e]
  then have "Max (dom (map_of m)) = k"
    by (intro Max_eqI) (auto simp: finite_dom_map_of)
  with g e show ?thesis by (auto simp: last_entry_def)
qed

lemma mem_redb_store: "mem_ok d \<Longrightarrow> redb_store (mem_redb d) mem_ok mem_ok mem_view mem_view"
  by unfold_locales
    (auto simp: mem_redb_def mem_ok_def mem_view_def btm_last_entry btm.put_wf btm.put_lookup
      split: if_splits)

interpretation mem: redb_store "mem_redb mem_empty" mem_ok mem_ok mem_view mem_view
  by (rule mem_redb_store) (simp add: mem_ok_def mem_empty_def)

text \<open>
  With no fault injected no call fails, and none of them injects one.
\<close>

definition mem_good :: "mem_db \<Rightarrow> bool" where
  "mem_good d \<longleftrightarrow> mem_ok d \<and> fault d = None"

interpretation mem_good: reliable_redb_store "mem_redb mem_empty" mem_good mem_good mem_view mem_view
  by unfold_locales
    (auto simp: mem_redb_def mem_good_def mem_ok_def mem_view_def mem_empty_def
      btm_last_entry btm.put_wf btm.put_lookup mem_call_def split: if_splits)

text \<open>
  A codec: the eight bytes of each number, least significant first, and each string with
  a mark before every byte and another mark at its end.
\<close>

fun nat_bytes :: "nat \<Rightarrow> nat \<Rightarrow> bytes" where
  "nat_bytes 0 n = []"
| "nat_bytes (Suc k) n = char_of (n mod 256) # nat_bytes k (n div 256)"

fun bytes_nat :: "bytes \<Rightarrow> nat" where
  "bytes_nat [] = 0"
| "bytes_nat (c # cs) = of_char c + 256 * bytes_nat cs"

definition put_u64 :: "u64 \<Rightarrow> bytes" where
  "put_u64 n = nat_bytes 8 (unat n)"

definition take_u64 :: "bytes \<Rightarrow> (u64 \<times> bytes) option" where
  "take_u64 bs = (if length bs < 8 then None
     else Some (of_nat (bytes_nat (take 8 bs)), drop 8 bs))"

fun put_string :: "string \<Rightarrow> bytes" where
  "put_string [] = [CHR 0x00]"
| "put_string (c # cs) = CHR 0x01 # c # put_string cs"

fun take_string :: "bytes \<Rightarrow> (string \<times> bytes) option" where
  "take_string (m # bs) =
     (if m = CHR 0x00 then Some ([], bs)
      else case bs of [] \<Rightarrow> None
        | c # bs' \<Rightarrow> map_option (\<lambda>(cs, r). (c # cs, r)) (take_string bs'))"
| "take_string [] = None"

definition put_header :: "header \<Rightarrow> bytes" where
  "put_header h = put_u64 (number h) @ put_string (parent_hash h) @ put_string (state_root h)
     @ put_u64 (timestamp h) @ put_u64 (nonce h) @ put_string (hash h)"

definition take_header :: "bytes \<Rightarrow> string + header" where
  "take_header bs =
     (case take_u64 bs of None \<Rightarrow> Inl ''number'' | Some (n, bs) \<Rightarrow>
      case take_string bs of None \<Rightarrow> Inl ''parent_hash'' | Some (p, bs) \<Rightarrow>
      case take_string bs of None \<Rightarrow> Inl ''state_root'' | Some (s, bs) \<Rightarrow>
      case take_u64 bs of None \<Rightarrow> Inl ''timestamp'' | Some (t, bs) \<Rightarrow>
      case take_u64 bs of None \<Rightarrow> Inl ''nonce'' | Some (k, bs) \<Rightarrow>
      case take_string bs of None \<Rightarrow> Inl ''hash'' | Some (h, bs) \<Rightarrow>
      Inr \<lparr>number = n, parent_hash = p, state_root = s, timestamp = t, nonce = k, hash = h\<rparr>)"

fun json_text :: "json \<Rightarrow> string" where
  "json_text (JString s) = s"
| "json_text (JNumber n) = put_u64 n"
| "json_text (JArray js) = concat (map json_text js)"
| "json_text (JObject fs) = concat (map (\<lambda>(k, j). json_text j) fs)"

text \<open>
  The instance of \<open>ext\<close> the examples run with. Nothing is assumed of the hash functions
  and of the JSON text, so stand-ins do: the first eight bytes for SHA-256, and hex as the
  identity.
\<close>

definition demo_ext :: "bool \<Rightarrow> ext" where
  "demo_ext checks = \<lparr>overflow_checks = checks, header_encode = put_header,
     header_decode = take_header, sha256 = take 8, hex_encode = (\<lambda>b. b),
     json_to_string = json_text\<rparr>"

lemma demo_ext_simps [simp]:
  "overflow_checks (demo_ext c) = c" "header_encode (demo_ext c) = put_header"
  "header_decode (demo_ext c) = take_header"
  by (simp_all add: demo_ext_def)

lemma bytes_nat_bytes: "bytes_nat (nat_bytes k n) = n mod 256 ^ k"
proof (induction k arbitrary: n)
  case 0
  then show ?case by simp
next
  case (Suc k)
  then show ?case by (simp add: mod_mult2_eq)
qed

lemma length_nat_bytes [simp]: "length (nat_bytes k n) = k"
  by (induction k arbitrary: n) auto

lemma take_put_u64 [simp]: "take_u64 (put_u64 n @ bs) = Some (n, bs)"
proof -
  have "unat n < 256 ^ 8" using unsigned_less [of n] by simp
  then show ?thesis by (simp add: take_u64_def put_u64_def bytes_nat_bytes)
qed

lemma take_put_string [simp]: "take_string (put_string s @ bs) = Some (s, bs)"
  by (induction s) auto

lemma take_put_header: "take_header (put_header h) = Inr h"
  using take_put_string [of "hash h" "[]"] by (simp add: take_header_def put_header_def)

interpretation demo: header_codec "demo_ext checks" for checks
  by unfold_locales (simp add: demo_ext_def take_put_header)

end
