(* ===== verification/Pool.thy ===== *)
theory Pool
  imports External
begin

text \<open>
  The pool of pending transactions (\<^verbatim>\<open>src/src/pool.rs\<close>): a \<open>BTreeMap\<close> from
  transaction hash to transaction, shared behind a lock. The state is the map; the
  operation that also broadcasts takes the provider's method and the runtime's \<open>await\<close>.
  Its proofs rest on the \<open>ordered_map\<close> interface of the map.
\<close>

section \<open>Operations\<close>

type_synonym pool_tx = "(string, transaction) btree_map"

definition pool_new :: pool_tx where
  "pool_new = []"

fun add_loop :: "transaction list \<Rightarrow> string list \<Rightarrow> pool_tx \<Rightarrow> string list \<times> pool_tx" where
  "add_loop [] added pool = (added, pool)"
| "add_loop (tx # txs) added pool =
     (let h = tx_hash tx; (old, pool') = btm_insert h tx pool
      in add_loop txs (if old = None then added @ [h] else added) pool')"

definition add_transactions :: "pool_tx \<Rightarrow> transaction list \<Rightarrow> string list \<times> pool_tx" where
  "add_transactions pool txs = add_loop txs [] pool"

definition add_transaction :: "pool_tx \<Rightarrow> transaction \<Rightarrow> string option \<times> pool_tx" where
  "add_transaction pool tx =
     (let h = tx_hash tx; (old, pool') = btm_insert h tx pool
      in (if old = None then Some h else None, pool'))"

text \<open>
  The pool is shared with tasks that run while the broadcast is awaited, so it is a part of
  the state \<open>'w\<close>, read with \<open>pool_of\<close> and written with \<open>set_pool\<close>.
\<close>

definition add_transactions_and_broadcast ::
  "('w \<Rightarrow> pool_tx) \<Rightarrow> (pool_tx \<Rightarrow> 'w \<Rightarrow> 'w) \<Rightarrow>
   ('w \<Rightarrow> transaction list \<Rightarrow> ('fut \<times> 'w) outcome) \<Rightarrow>
   ('w \<Rightarrow> 'fut \<Rightarrow> (unit request_response \<times> 'w) outcome) \<Rightarrow>
   'w \<Rightarrow> transaction list \<Rightarrow> (string list request_response \<times> 'w) outcome" where
  "add_transactions_and_broadcast pool_of set_pool broadcast await w txs =
     (let (added_hashes, pool) = add_transactions (pool_of w) txs;
          w = set_pool pool w;
          new_txs = filter (\<lambda>tx. tx_hash tx \<in> set added_hashes) txs
      in obind (broadcast w new_txs) (\<lambda>(fut, w).
         obind (await w fut) (\<lambda>(r, w).
         case r of Inl e \<Rightarrow> Ret (Inl e, w)
           | Inr _ \<Rightarrow> Ret (Inr added_hashes, w))))"

definition get_all :: "pool_tx \<Rightarrow> transaction list" where
  "get_all pool = btm_values pool"

text \<open>\<open>tx_rng\<close>, with the random draws as arguments.\<close>

definition tx_rng :: "string \<Rightarrow> string \<Rightarrow> string \<Rightarrow> u64 \<Rightarrow> transaction" where
  "tx_rng random_hash random_from random_to random_value =
     \<lparr>tx_hash = random_hash, tx_from = random_from, tx_to = random_to,
      tx_value = random_value, tx_nonce = 0\<rparr>"

text \<open>The \<open>Iterator\<close> instance: every \<open>next\<close> takes the first entry out of the pool.\<close>

definition pool_next :: "pool_tx \<Rightarrow> transaction option \<times> pool_tx" where
  "pool_next pool = (let (e, pool') = btm_pop_first pool in (map_option snd e, pool'))"

text \<open>Iterating to the end.\<close>

function pool_drain :: "pool_tx \<Rightarrow> transaction list \<times> pool_tx" where
  "pool_drain pool =
     (case pool_next pool of
        (None, pool') \<Rightarrow> ([], pool')
      | (Some tx, pool') \<Rightarrow> (let (txs, p) = pool_drain pool' in (tx # txs, p)))"
  by pat_completeness auto
termination
proof (relation "measure length", goal_cases)
  case (2 pool x1 x2 tx)
  then show ?case by (cases pool) (auto simp: pool_next_def)
qed simp

declare pool_drain.simps [simp del]

section \<open>Invariant and behaviour\<close>

text \<open>The map is well formed and every transaction is stored under its own hash.\<close>

definition pool_inv :: "pool_tx \<Rightarrow> bool" where
  "pool_inv pool \<longleftrightarrow> btm_wf pool \<and> (\<forall>h tx. map_of pool h = Some tx \<longrightarrow> tx_hash tx = h)"

lemma pool_inv_new: "pool_inv pool_new"
  by (simp add: pool_inv_def pool_new_def)

lemma pool_inv_insert:
  "pool_inv pool \<Longrightarrow> pool_inv (snd (btm_insert (tx_hash tx) tx pool))"
  by (auto simp: pool_inv_def btm.put_wf btm.put_lookup)

lemma add_loop_pool: "snd (add_loop txs added pool) =
    fold (\<lambda>(k, v) m. snd (btm_insert k v m)) (map (\<lambda>tx. (tx_hash tx, tx)) txs) pool"
  by (induction txs added pool rule: add_loop.induct) (simp_all add: Let_def split: prod.splits)

lemma add_loop_inv: "pool_inv pool \<Longrightarrow> pool_inv (snd (add_loop txs added pool))"
proof (induction txs added pool rule: add_loop.induct)
  case (2 tx txs added pool)
  then show ?case
    using pool_inv_insert [of pool tx] by (auto simp: Let_def split: prod.splits)
qed simp

text \<open>The hashes reported as added: the new ones, each once, in the order of the batch.\<close>

fun fresh_hashes :: "string set \<Rightarrow> transaction list \<Rightarrow> string list" where
  "fresh_hashes K [] = []"
| "fresh_hashes K (tx # txs) =
     (if tx_hash tx \<in> K then fresh_hashes K txs
      else tx_hash tx # fresh_hashes (insert (tx_hash tx) K) txs)"

lemma add_loop_added: "btm_wf pool \<Longrightarrow>
    fst (add_loop txs added pool) = added @ fresh_hashes (dom (map_of pool)) txs"
proof (induction txs added pool rule: add_loop.induct)
  case (2 tx txs added pool)
  obtain old pool' where ins: "btm_insert (tx_hash tx) tx pool = (old, pool')"
    by (cases "btm_insert (tx_hash tx) tx pool") auto
  from ins btm.put_old [OF "2.prems", of "tx_hash tx" tx] btm.put_wf [OF "2.prems"]
    btm.put_dom [OF "2.prems", of "tx_hash tx" tx]
  have "old = map_of pool (tx_hash tx)" "btm_wf pool'"
    "dom (map_of pool') = insert (tx_hash tx) (dom (map_of pool))"
    by (metis fst_conv, metis snd_conv, metis snd_conv)
  with "2.IH" ins show ?case
    by (auto simp: Let_def domIff insert_absorb simp del: dom_eq_empty_conv)
qed simp

lemma fresh_hashes_set: "set (fresh_hashes K txs) = tx_hash ` set txs - K"
  by (induction K txs rule: fresh_hashes.induct) auto

lemma fresh_hashes_distinct: "distinct (fresh_hashes K txs)"
  by (induction K txs rule: fresh_hashes.induct) (auto simp: fresh_hashes_set)

lemma pool_drain_all: "pool_drain pool = (get_all pool, [])"
proof (induction pool)
  case Nil
  then show ?case by (simp add: pool_drain.simps pool_next_def get_all_def btm_values_def)
next
  case (Cons e pool)
  then show ?case
    by (simp add: pool_drain.simps [of "e # pool"] pool_next_def get_all_def btm_values_def)
qed

lemma get_all_hashes: "pool_inv pool \<Longrightarrow> map tx_hash (get_all pool) = map fst pool"
proof -
  assume inv: "pool_inv pool"
  have "tx_hash (snd e) = fst e" if "e \<in> set pool" for e
  proof -
    have "map_of pool (fst e) = Some (snd e)"
      using that inv btm_wf_distinct [of pool] map_of_eq_Some_iff [of pool "fst e" "snd e"]
      by (simp add: pool_inv_def)
    with inv show ?thesis by (auto simp: pool_inv_def)
  qed
  then show ?thesis by (simp add: get_all_def btm_values_def)
qed

text \<open>The size of a pool.\<close>

lemma btm_length: "btm_wf m \<Longrightarrow> length m = card (dom (map_of m))"
  using btm_wf_distinct [of m] by (metis distinct_card dom_map_of_conv_image_fst length_map set_map)

lemma add_transactions_inv:
  assumes "pool_inv pool"
  shows "pool_inv (snd (add_transactions pool txs))"
    and "dom (map_of (snd (add_transactions pool txs))) = dom (map_of pool) \<union> tx_hash ` set txs"
proof -
  have wf: "btm_wf pool" using assms by (simp add: pool_inv_def)
  have "map_of (snd (add_transactions pool txs)) =
      map_of pool ++ map_of (rev (map (\<lambda>tx. (tx_hash tx, tx)) txs))"
    unfolding add_transactions_def add_loop_pool using btm.fold_put [OF wf] by blast
  then show "dom (map_of (snd (add_transactions pool txs))) = dom (map_of pool) \<union> tx_hash ` set txs"
    by (auto simp: dom_map_of_conv_image_fst image_image)
  show "pool_inv (snd (add_transactions pool txs))"
    using add_loop_inv [OF assms, of txs "[]"] by (simp add: add_transactions_def)
qed

lemma add_transactions_size:
  assumes "pool_inv pool"
  shows "length (snd (add_transactions pool txs)) = card (dom (map_of pool) \<union> tx_hash ` set txs)"
  using add_transactions_inv [OF assms, of txs] by (simp add: btm_length pool_inv_def)

text \<open>
  Adding only the new transactions of a batch has the same effect on a pool as adding all of
  them, when the known ones are those that are stored.
\<close>

lemma add_new_only:
  assumes inv: "pool_inv pool"
    and same: "\<And>tx old. tx \<in> set txs \<Longrightarrow> map_of pool (tx_hash tx) = Some old \<Longrightarrow> old = tx"
  shows "snd (add_transactions pool (filter (\<lambda>tx. map_of pool (tx_hash tx) = None) txs)) =
    snd (add_transactions pool txs)"
proof -
  let ?m = "map_of pool" and ?e = "\<lambda>tx. (tx_hash tx, tx)" and ?new = "\<lambda>tx. map_of pool (tx_hash tx) = None"
  have wf: "btm_wf pool" using inv by (simp add: pool_inv_def)
  note put = btm.fold_put [OF wf]
  have step: "?m ++ map_of (rev (map ?e (ys @ [x]))) = (?m ++ map_of (rev (map ?e ys)))(tx_hash x \<mapsto> x)"
    for ys x by (auto simp: fun_eq_iff map_add_def)
  have eq: "?m ++ map_of (rev (map ?e (filter ?new xs))) = ?m ++ map_of (rev (map ?e xs))"
    if "set xs \<subseteq> set txs" for xs
    using that
  proof (induction xs rule: rev_induct)
    case (snoc x xs)
    show ?case
    proof (cases "?new x")
      case True
      then have "filter ?new (xs @ [x]) = filter ?new xs @ [x]" by simp
      with snoc show ?thesis unfolding step by (simp only: step) simp
    next
      case False
      then obtain old where old: "?m (tx_hash x) = Some old" by blast
      with same [of x old] snoc.prems have x: "?m (tx_hash x) = Some x" by simp
      have "(?m ++ map_of (rev (map ?e (filter ?new xs)))) (tx_hash x) = Some x"
      proof (rule map_add_Some_iff [THEN iffD2], rule disjI2)
        have "tx_hash x \<notin> tx_hash ` set (filter ?new xs)" using False by auto
        then show "map_of (rev (map ?e (filter ?new xs))) (tx_hash x) = None \<and> ?m (tx_hash x) = Some x"
          using x by (auto simp: map_of_eq_None_iff image_image)
      qed
      moreover have "filter ?new (xs @ [x]) = filter ?new xs" using False by simp
      ultimately show ?thesis using snoc unfolding step by (simp add: fun_upd_idem)
    qed
  qed simp
  show ?thesis
    unfolding add_transactions_def add_loop_pool
    by (rule btm_eqI) (use put eq [of txs] in auto)
qed

section \<open>Properties\<close>

text \<open>
  C24: Adding a batch keeps the pool's invariant, stores for every hash of the batch the
  batch's last transaction with that hash and nothing else, and reports exactly the hashes
  that were new to the pool, each once.
\<close>

theorem pool_add_transactions:
  assumes "pool_inv pool" and "add_transactions pool txs = (added, pool')"
  shows "pool_inv pool' \<and>
    map_of pool' = map_of pool ++ map_of (rev (map (\<lambda>tx. (tx_hash tx, tx)) txs)) \<and>
    set added = tx_hash ` set txs - dom (map_of pool) \<and> distinct added"
proof -
  have wf: "btm_wf pool" using assms(1) by (simp add: pool_inv_def)
  from assms(2) have p: "pool' = snd (add_loop txs [] pool)" and a: "added = fst (add_loop txs [] pool)"
    by (simp_all add: add_transactions_def)
  have "map_of pool' = map_of pool ++ map_of (rev (map (\<lambda>tx. (tx_hash tx, tx)) txs))"
    unfolding p add_loop_pool using btm.fold_put [OF wf] by blast
  moreover have "added = fresh_hashes (dom (map_of pool)) txs"
    unfolding a add_loop_added [OF wf] by simp
  ultimately show ?thesis
    using add_loop_inv [OF assms(1)] by (simp add: p fresh_hashes_set fresh_hashes_distinct)
qed

definition demo_tx :: "string \<Rightarrow> u64 \<Rightarrow> transaction" where
  "demo_tx h v = tx_rng h ''from'' ''to'' v"

lemma demo_tx_hash [simp]: "tx_hash (demo_tx h v) = h"
  by (simp add: demo_tx_def tx_rng_def)

theorem pool_add_transactions_witness:
  "let (added, pool) = add_transactions pool_new [demo_tx ''b'' 1, demo_tx ''a'' 2, demo_tx ''b'' 3]
   in added = [''b'', ''a''] \<and> pool_inv pool \<and> map_of pool ''b'' = Some (demo_tx ''b'' 3)"
proof -
  have a: "add_transactions pool_new [demo_tx ''b'' 1, demo_tx ''a'' 2, demo_tx ''b'' 3] =
      ([''b'', ''a''], [(''a'', demo_tx ''a'' 2), (''b'', demo_tx ''b'' 3)])"
    by (simp add: add_transactions_def pool_new_def demo_tx_def tx_rng_def btm_insert_def Let_def)
  from pool_add_transactions [OF pool_inv_new a] show ?thesis
    unfolding a Let_def by simp
qed

text \<open>
  C25: Taking transactions out until the pool answers \<open>None\<close> terminates, empties the pool and
  yields each pending transaction exactly once, in ascending order of the hashes.
\<close>

theorem pool_drain_sorted:
  assumes "pool_inv pool" and "pool_drain pool = (txs, rest)"
  shows "rest = [] \<and> sorted_wrt (<) (map tx_hash txs) \<and>
    (\<forall>tx. tx \<in> set txs \<longleftrightarrow> map_of pool (tx_hash tx) = Some tx)"
proof -
  have txs: "txs = get_all pool" and r: "rest = []"
    using assms(2) by (simp_all add: pool_drain_all)
  have wf: "btm_wf pool" using assms(1) by (simp add: pool_inv_def)
  have sorted: "sorted_wrt (<) (map tx_hash txs)"
    using wf by (simp add: txs get_all_hashes [OF assms(1)] btm_wf_def)
  have "tx \<in> set txs \<longleftrightarrow> map_of pool (tx_hash tx) = Some tx" for tx
  proof
    assume "tx \<in> set txs"
    then obtain h where e: "(h, tx) \<in> set pool"
      by (auto simp: txs get_all_def btm_values_def)
    then have "map_of pool h = Some tx" using btm_wf_distinct [OF wf] by simp
    moreover from this have "tx_hash tx = h" using assms(1) by (auto simp: pool_inv_def)
    ultimately show "map_of pool (tx_hash tx) = Some tx" by simp
  next
    assume "map_of pool (tx_hash tx) = Some tx"
    then show "tx \<in> set txs"
      using map_of_SomeD by (force simp: txs get_all_def btm_values_def)
  qed
  with sorted r show ?thesis by blast
qed

theorem pool_drain_sorted_witness:
  "let pool = snd (add_transactions pool_new [demo_tx ''b'' 1, demo_tx ''a'' 2])
   in pool_drain pool = ([demo_tx ''a'' 2, demo_tx ''b'' 1], []) \<and>
     sorted_wrt (<) (map tx_hash (fst (pool_drain pool)))"
proof -
  let ?pool = "[(''a'', demo_tx ''a'' 2), (''b'', demo_tx ''b'' 1)]"
  have a: "add_transactions pool_new [demo_tx ''b'' 1, demo_tx ''a'' 2] = ([''b'', ''a''], ?pool)"
    by (simp add: add_transactions_def pool_new_def demo_tx_def tx_rng_def btm_insert_def Let_def)
  have inv: "pool_inv ?pool"
    using add_loop_inv [OF pool_inv_new] a by (metis add_transactions_def snd_conv)
  have d: "pool_drain ?pool = ([demo_tx ''a'' 2, demo_tx ''b'' 1], [])"
    by (simp add: pool_drain_all get_all_def btm_values_def)
  from pool_drain_sorted [OF inv d] show ?thesis by (simp add: a d Let_def)
qed

text \<open>
  Submitting a batch hands the network exactly the transactions of the batch whose hash
  was new to the pool, and answers with the new hashes. When the broadcast fails the error is
  returned, although the transactions stay in the pool.
\<close>

lemma pool_submit:
  assumes "pool_of w = pool" and "pool_inv pool"
    and "broadcast (set_pool (snd (add_transactions pool txs)) w)
      (filter (\<lambda>tx. map_of pool (tx_hash tx) = None) txs) = Ret (fut, w1)"
    and "await w1 fut = Ret (r, w2)"
  shows "\<exists>added. add_transactions_and_broadcast pool_of set_pool broadcast await w txs =
      Ret (map_sum id (\<lambda>_. added) r, w2) \<and> fst (add_transactions pool txs) = added \<and>
    set added = {h \<in> tx_hash ` set txs. map_of pool h = None}"
proof -
  obtain added pool' where a: "add_transactions pool txs = (added, pool')"
    by (cases "add_transactions pool txs") auto
  have wf: "btm_wf pool" using assms(2) by (simp add: pool_inv_def)
  have s: "set added = {h \<in> tx_hash ` set txs. map_of pool h = None}"
    using a add_loop_added [OF wf, of txs "[]"] fresh_hashes_set [of "dom (map_of pool)" txs]
    by (auto simp: add_transactions_def dom_def)
  have "filter (\<lambda>tx. tx_hash tx \<in> set added) txs =
      filter (\<lambda>tx. map_of pool (tx_hash tx) = None) txs"
    by (rule filter_cong) (auto simp: s)
  with assms a s show ?thesis
    by (cases r) (auto simp: add_transactions_and_broadcast_def)
qed

end
