(* ===== verification/Block_Tree.thy ===== *)
theory Block_Tree
  imports External
begin

text \<open>
  The \<open>BlockTree\<close> trait of \<^verbatim>\<open>src/src/blocktree.rs\<close>: its errors and results, its
  operations as a record (so that generic code takes the implementation as an argument),
  its default methods, and the hashing and mining helpers they call. The contract that the
  generic code relies on is the locale \<open>block_tree_contract\<close>: an implementation keeps a
  map from block numbers to headers, without gaps, and adding a header acts on it as
  \<open>add_spec\<close> says, unless the database fails.
\<close>

section \<open>Errors, results and the trait\<close>

datatype error = Invalid | BlockHeaderNotFound | DatabaseError string

datatype added_block_result = ExtendTip | AlreadyInChain

datatype mine_block_result = Mined header | BlockFallingBehind

record 'b block_tree =
  bt_try_add_block_header :: "'b \<Rightarrow> header \<Rightarrow> ((error + added_block_result) \<times> 'b) outcome"
  bt_get_header_by_block_number :: "'b \<Rightarrow> u64 \<Rightarrow> (error + header) outcome"
  bt_get_header_by_hash :: "'b \<Rightarrow> string \<Rightarrow> (error + header) outcome"
  bt_tip :: "'b \<Rightarrow> (error + header) outcome"
  bt_genesis :: header

section \<open>Default methods and helpers\<close>

text \<open>The mock balance: a fixed value for one address, a random one (the argument) else.\<close>

definition get_balance :: "u64 \<Rightarrow> string \<Rightarrow> error + u64" where
  "get_balance random address =
     (if address = ''0x000000000000000000000000000000000000dead'' then Inr 57005
      else Inr random)"

definition calculate_hash ::
  "ext \<Rightarrow> u64 \<Rightarrow> u64 \<Rightarrow> string \<Rightarrow> string \<Rightarrow> string \<Rightarrow> u64 \<Rightarrow> bytes" where
  "calculate_hash X block_number time parent root dat nce =
     sha256 X (json_to_string X (JObject
       [(''block_number'', JNumber block_number), (''parent_hash'', JString parent),
        (''data'', JString dat), (''state_root'', JString root),
        (''timestamp'', JNumber time), (''nonce'', JNumber nce)]))"

definition mine_block ::
  "ext \<Rightarrow> u64 \<Rightarrow> u64 \<Rightarrow> u64 \<Rightarrow> string \<Rightarrow> string \<Rightarrow> string \<Rightarrow> u64 \<times> string" where
  "mine_block X random_nonce block_number time previous_hash root dat =
     (let h = calculate_hash X block_number time previous_hash root dat random_nonce
      in (random_nonce, hex_encode X h))"

text \<open>What \<open>mine_block\<close> draws from the clock and the random number generator.\<close>

record mining_inputs =
  now :: u64
  random_bytes :: bytes
  random_nonce :: u64

definition mined_header :: "ext \<Rightarrow> mining_inputs \<Rightarrow> header \<Rightarrow> u64 \<Rightarrow> header" where
  "mined_header X inp prev n =
     (let root = hex_encode X (sha256 X (random_bytes inp));
          (nce, h) = mine_block X (random_nonce inp) n (now inp) (hash prev) root ''a block data''
      in \<lparr>number = n, parent_hash = hash prev, state_root = '''', timestamp = 0,
          nonce = nce, hash = h\<rparr>)"

definition bt_mine_block ::
  "ext \<Rightarrow> 'b block_tree \<Rightarrow> 'b \<Rightarrow> mining_inputs \<Rightarrow> (mine_block_result \<times> 'b) outcome" where
  "bt_mine_block X B b inp =
     obind (bt_tip B b) (\<lambda>r.
     obind (expect ''called `Result::unwrap()` on an `Err` value'' r) (\<lambda>prev_block_header.
     obind (u64_add (overflow_checks X) (number prev_block_header) 1) (\<lambda>n.
     let h = mined_header X inp prev_block_header n in
     obind (bt_try_add_block_header B b h) (\<lambda>(res, b').
     case res of
       Inl e \<Rightarrow> Panic ''block mining logic failed''
     | Inr AlreadyInChain \<Rightarrow> Ret (BlockFallingBehind, b')
     | Inr ExtendTip \<Rightarrow> Ret (Mined h, b')))))"

section \<open>The specification: chains of headers\<close>

type_synonym header_map = "u64 \<rightharpoonup> header"

definition wf_headers :: "header_map \<Rightarrow> bool" where
  "wf_headers m \<longleftrightarrow> m 0 \<noteq> None \<and> (\<forall>n h. m n = Some h \<longrightarrow> number h = n) \<and>
     (\<forall>n k. m n \<noteq> None \<longrightarrow> k \<le> n \<longrightarrow> m k \<noteq> None)"

definition linked :: "header_map \<Rightarrow> bool" where
  "linked m \<longleftrightarrow> (\<forall>n p h. n \<noteq> 0 \<longrightarrow> m (n - 1) = Some p \<longrightarrow> m n = Some h \<longrightarrow>
     parent_hash h = hash p)"

definition tip_number :: "header_map \<Rightarrow> u64" where
  "tip_number m = Max (dom m)"

definition tip_header :: "header_map \<Rightarrow> header" where
  "tip_header m = the (m (tip_number m))"

definition found :: "header option \<Rightarrow> error + header" where
  "found r = (case r of None \<Rightarrow> Inl BlockHeaderNotFound | Some h \<Rightarrow> Inr h)"

definition parent_spec :: "bool \<Rightarrow> header \<Rightarrow> header_map \<Rightarrow> header \<Rightarrow> (error + unit) outcome" where
  "parent_spec checks g m h =
     (if h = g then Ret (Inr ())
      else if checks \<and> number h = 0 then Panic ''attempt to subtract with overflow''
      else case m (number h - 1) of
          None \<Rightarrow> Ret (Inl BlockHeaderNotFound)
        | Some p \<Rightarrow> if hash p \<noteq> parent_hash h then Ret (Inl Invalid)
                   else Ret (Inr ()))"

definition add_spec ::
  "bool \<Rightarrow> header \<Rightarrow> header_map \<Rightarrow> header \<Rightarrow>
     ((error + added_block_result) \<times> header_map) outcome" where
  "add_spec checks g m h =
     obind (parent_spec checks g m h) (\<lambda>r. case r of
       Inl e \<Rightarrow> Ret (Inl e, m)
     | Inr _ \<Rightarrow> Ret (Inr (if tip_number m < number h then ExtendTip else AlreadyInChain),
                    m(number h \<mapsto> h)))"

fun db_fault :: "error + 'a \<Rightarrow> bool" where
  "db_fault (Inl (DatabaseError e)) = True"
| "db_fault _ = False"

lemma db_fault_found [simp]: "\<not> db_fault (found r)"
  by (cases r) (auto simp: found_def)

lemma db_fault_iff: "db_fault r \<longleftrightarrow> (\<exists>e. r = Inl (DatabaseError e))"
  by (cases r rule: db_fault.cases) auto

lemma wf_headersD:
  assumes "wf_headers m"
  shows "m 0 \<noteq> None" and "m n = Some h \<Longrightarrow> number h = n"
    and "m n \<noteq> None \<Longrightarrow> k \<le> n \<Longrightarrow> m k \<noteq> None"
  using assms unfolding wf_headers_def by blast+

lemma tip_number_ge: "m n \<noteq> None \<Longrightarrow> n \<le> tip_number m"
  unfolding tip_number_def by (intro Max_ge) (auto simp: dom_def)

lemma above_tip: "tip_number m < n \<Longrightarrow> m n = None"
  using tip_number_ge [of m n] by (meson leD)

lemma tip_number_in: "wf_headers m \<Longrightarrow> m (tip_number m) \<noteq> None"
  unfolding tip_number_def using Max_in [of "dom m"] wf_headersD(1) [of m]
  by (auto simp: dom_def)

lemma wf_headers_iff_le: "wf_headers m \<Longrightarrow> m n \<noteq> None \<longleftrightarrow> n \<le> tip_number m"
  using tip_number_ge tip_number_in wf_headersD(3) by blast

lemma tip_header_lookup: "wf_headers m \<Longrightarrow> m (tip_number m) = Some (tip_header m)"
  using tip_number_in [of m] by (auto simp: tip_header_def)

lemma tip_header_number [simp]: "wf_headers m \<Longrightarrow> number (tip_header m) = tip_number m"
  using tip_header_lookup wf_headersD(2) by blast

lemma tip_number_unique:
  assumes "m n \<noteq> None" and "\<And>k. m k \<noteq> None \<Longrightarrow> k \<le> n"
  shows "tip_number m = n"
  unfolding tip_number_def using assms by (intro Max_eqI) (auto simp: dom_def)

lemma tip_number_upd:
  assumes "wf_headers m"
  shows "tip_number (m(n \<mapsto> h)) = max (tip_number m) n"
proof (rule tip_number_unique)
  show "(m(n \<mapsto> h)) (max (tip_number m) n) \<noteq> None"
    using tip_number_in [OF assms] by (simp add: max_def)
  show "k \<le> max (tip_number m) n" if "(m(n \<mapsto> h)) k \<noteq> None" for k
    using that tip_number_ge [of m k] by (auto simp: le_max_iff_disj split: if_splits)
qed

text \<open>The outcomes of adding a header.\<close>

lemma parent_spec_cases:
  obtains (genesis) "h = g" "parent_spec checks g m h = Ret (Inr ())"
  | (panic) "h \<noteq> g" "checks" "number h = 0"
      "parent_spec checks g m h = Panic ''attempt to subtract with overflow''"
  | (missing) "h \<noteq> g" "m (number h - 1) = None"
      "parent_spec checks g m h = Ret (Inl BlockHeaderNotFound)"
  | (invalid) p where "h \<noteq> g" "m (number h - 1) = Some p" "hash p \<noteq> parent_hash h"
      "parent_spec checks g m h = Ret (Inl Invalid)"
  | (child) p where "h \<noteq> g" "\<not> (checks \<and> number h = 0)" "m (number h - 1) = Some p"
      "hash p = parent_hash h" "parent_spec checks g m h = Ret (Inr ())"
proof (cases "h = g")
  case True
  then show ?thesis by (intro genesis) (simp_all add: parent_spec_def)
next
  case ne: False
  show ?thesis
  proof (cases "checks \<and> number h = 0")
    case True
    with ne show ?thesis by (intro panic) (simp_all add: parent_spec_def)
  next
    case False
    with ne show ?thesis
      by (cases "m (number h - 1)"; cases "hash (the (m (number h - 1))) = parent_hash h")
        (auto simp: parent_spec_def intro: missing invalid child)
  qed
qed

lemma add_spec_Inl: "add_spec checks g m h = Ret (Inl e, m') \<Longrightarrow>
    m' = m \<and> (e = Invalid \<or> e = BlockHeaderNotFound)"
  by (cases rule: parent_spec_cases [of h g checks m]) (auto simp: add_spec_def)

lemma add_spec_Inr: "add_spec checks g m h = Ret (Inr r, m') \<Longrightarrow>
    m' = m(number h \<mapsto> h) \<and> (r = ExtendTip \<longleftrightarrow> tip_number m < number h) \<and>
    (h = g \<or> (\<exists>p. m (number h - 1) = Some p \<and> hash p = parent_hash h))"
  by (cases rule: parent_spec_cases [of h g checks m]) (auto simp: add_spec_def split: if_splits)

lemma add_spec_no_fault: "add_spec checks g m h = Ret (r, m') \<Longrightarrow> \<not> db_fault r"
  by (cases rule: parent_spec_cases [of h g checks m]) (auto simp: add_spec_def)

lemma add_spec_not_Diverge [simp]: "add_spec checks g m h \<noteq> Diverge"
  by (cases rule: parent_spec_cases [of h g checks m]) (auto simp: add_spec_def)

lemma wf_headers_upd:
  assumes wf: "wf_headers m" and n: "number h = 0 \<or> m (number h - 1) \<noteq> None"
  shows "wf_headers (m(number h \<mapsto> h))"
  unfolding wf_headers_def
proof (intro conjI allI impI)
  show "(m(number h \<mapsto> h)) 0 \<noteq> None"
    using wf_headersD(1) [OF wf] by simp
  show "number h' = n" if "(m(number h \<mapsto> h)) n = Some h'" for n h'
    using that wf_headersD(2) [OF wf, of n h'] by (auto split: if_splits)
  fix n k
  assume "(m(number h \<mapsto> h)) n \<noteq> None" "k \<le> n"
  then show "(m(number h \<mapsto> h)) k \<noteq> None"
    using n wf_headersD(3) [OF wf, of n k] wf_headersD(3) [OF wf, of "number h - 1" k]
      u64_le_pred [of k "number h"] by (auto split: if_splits)
qed

lemma parent_spec_wf:
  assumes "wf_headers m" and "number g = 0" and "parent_spec checks g m h = Ret (Inr u)"
  shows "wf_headers (m(number h \<mapsto> h))"
proof (rule wf_headers_upd [OF assms(1)])
  show "number h = 0 \<or> m (number h - 1) \<noteq> None"
    using assms by (cases rule: parent_spec_cases [of h g checks m]) auto
qed

lemma add_spec_wf:
  assumes "wf_headers m" and "number g = 0" and "add_spec checks g m h = Ret (r, m')"
  shows "wf_headers m'"
proof (cases r)
  case (Inl e)
  with assms show ?thesis using add_spec_Inl by blast
next
  case (Inr q)
  with add_spec_Inr [of checks g m h q m'] assms show ?thesis
    by (auto intro: wf_headers_upd)
qed

lemma add_spec_tip_mono:
  assumes "wf_headers m" and "add_spec checks g m h = Ret (r, m')"
  shows "tip_number m \<le> tip_number m'"
  using assms by (cases r) (auto dest!: add_spec_Inl add_spec_Inr simp: tip_number_upd)

text \<open>A header that extends the tip is the direct successor of the old tip.\<close>

lemma add_spec_ExtendTip:
  assumes wf: "wf_headers m" and g: "number g = 0"
    and add: "add_spec checks g m h = Ret (Inr ExtendTip, m')"
  shows "m' = m(number h \<mapsto> h)" and "number h = tip_number m + 1"
    and "parent_hash h = hash (tip_header m)" and "tip_header m' = h"
    and "tip_number m' = number h" and "tip_number m < number h"
proof -
  from add_spec_Inr [OF add] g have m': "m' = m(number h \<mapsto> h)"
    and lt: "tip_number m < number h"
    and p: "\<exists>p. m (number h - 1) = Some p \<and> hash p = parent_hash h"
    by auto
  then have "number h - 1 \<le> tip_number m"
    using tip_number_ge [of m "number h - 1"] by auto
  with lt have eq: "number h = tip_number m + 1"
    by unat_arith
  show "m' = m(number h \<mapsto> h)" "number h = tip_number m + 1" "tip_number m < number h"
    by fact+
  show "parent_hash h = hash (tip_header m)"
    using p tip_header_lookup [OF wf] by (auto simp: eq)
  show t: "tip_number m' = number h"
    using lt by (simp add: m' tip_number_upd [OF wf])
  then show "tip_header m' = h"
    by (simp add: tip_header_def m')
qed

text \<open>
  Storing a header whose parent link is right keeps the links exactly when the header that
  is stored after it, if any, names it as its parent.
\<close>

lemma linked_upd_iff:
  assumes l: "linked m"
    and p: "number h = 0 \<or> (\<exists>p. m (number h - 1) = Some p \<and> hash p = parent_hash h)"
  shows "linked (m(number h \<mapsto> h)) \<longleftrightarrow>
    (\<forall>c. number h + 1 \<noteq> 0 \<longrightarrow> m (number h + 1) = Some c \<longrightarrow> parent_hash c = hash h)"
    (is "?L \<longleftrightarrow> ?R")
proof
  assume ?L
  show ?R
  proof (intro allI impI)
    fix c
    assume ne: "number h + 1 \<noteq> 0" and c: "m (number h + 1) = Some c"
    then have "(m(number h \<mapsto> h)) (number h + 1) = Some c" by simp
    with ne \<open>?L\<close> show "parent_hash c = hash h"
      unfolding linked_def by (metis add_diff_cancel_right' fun_upd_same)
  qed
next
  assume R: ?R
  show ?L
    unfolding linked_def
  proof (intro allI impI)
    fix n q c
    assume n: "n \<noteq> 0" and q: "(m(number h \<mapsto> h)) (n - 1) = Some q"
      and c: "(m(number h \<mapsto> h)) n = Some c"
    have ne: "n - 1 \<noteq> n" using u64_pred_le [OF n] by auto
    consider "n = number h" | "n \<noteq> number h" "n - 1 = number h"
      | "n \<noteq> number h" "n - 1 \<noteq> number h" by blast
    then show "parent_hash c = hash q"
    proof cases
      case 1
      with q c ne p n show ?thesis by auto
    next
      case 2
      then have "number h + 1 = n" by (metis diff_add_cancel)
      with 2 q c R n show ?thesis by simp
    next
      case 3
      with q c have "m (n - 1) = Some q" "m n = Some c" by simp_all
      with l n show ?thesis unfolding linked_def by blast
    qed
  qed
qed

text \<open>The block that is mined on top of the tip, when there is a number left for it, extends it.\<close>

lemma add_mined:
  assumes wf: "wf_headers m" and room: "tip_number m < n" and g: "number g = 0"
    and h_def: "h = mined_header X inp (tip_header m) (tip_number m + 1)"
  shows "add_spec checks g m h = Ret (Inr ExtendTip, m(number h \<mapsto> h))"
proof -
  have le: "tip_number m < tip_number m + 1"
    using u64_succ_le [OF room] room by unat_arith
  have nr: "number h = tip_number m + 1" and ph: "parent_hash h = hash (tip_header m)"
    by (simp_all add: h_def mined_header_def mine_block_def Let_def)
  then have "number h \<noteq> 0" and "h \<noteq> g" using le g by auto
  then show ?thesis
    using le tip_header_lookup [OF wf] by (simp add: add_spec_def parent_spec_def nr ph)
qed

section \<open>The contract\<close>

locale block_tree_contract =
  fixes B :: "'b block_tree"
    and checks :: bool
    and inv :: "'b \<Rightarrow> bool"
    and hdrs :: "'b \<Rightarrow> header_map"
  assumes inv_wf: "inv b \<Longrightarrow> wf_headers (hdrs b)"
    and genesis_number: "number (bt_genesis B) = 0"
    and lookup_result: "inv b \<Longrightarrow> \<exists>r. bt_get_header_by_block_number B b n = Ret r \<and>
      (db_fault r \<or> r = found (hdrs b n))"
    and tip_result: "inv b \<Longrightarrow> \<exists>r. bt_tip B b = Ret r \<and>
      (db_fault r \<or> r = Inr (tip_header (hdrs b)))"
    and add_Ret: "inv b \<Longrightarrow> bt_try_add_block_header B b h = Ret (r, b') \<Longrightarrow>
      inv b' \<and> (if db_fault r
        then hdrs b' = hdrs b \<or>
          (\<exists>q. add_spec checks (bt_genesis B) (hdrs b) h = Ret (Inr q, hdrs b'))
        else add_spec checks (bt_genesis B) (hdrs b) h = Ret (r, hdrs b'))"
    and add_Panic: "inv b \<Longrightarrow> bt_try_add_block_header B b h = Panic s \<Longrightarrow>
      add_spec checks (bt_genesis B) (hdrs b) h = Panic s"
    and add_returns: "inv b \<Longrightarrow> bt_try_add_block_header B b h \<noteq> Diverge"
begin

lemma add_inv: "inv b \<Longrightarrow> bt_try_add_block_header B b h = Ret (r, b') \<Longrightarrow> inv b'"
  using add_Ret by blast

lemma add_tip_mono:
  assumes "inv b" and "bt_try_add_block_header B b h = Ret (r, b')"
  shows "tip_number (hdrs b) \<le> tip_number (hdrs b')"
  using add_Ret [OF assms] add_spec_tip_mono [OF inv_wf [OF assms(1)]]
  by (auto split: if_splits)

text \<open>No header that is stored is ever removed.\<close>

lemma add_keeps:
  assumes "inv b" and "bt_try_add_block_header B b h = Ret (r, b')" and "hdrs b n \<noteq> None"
  shows "hdrs b' n \<noteq> None"
proof -
  have "hdrs b' = hdrs b \<or> hdrs b' = (hdrs b)(number h \<mapsto> h)"
    using add_Ret [OF assms(1,2)] add_spec_Inl add_spec_Inr
    by (cases r) (fastforce split: if_splits)+
  with assms(3) show ?thesis by auto
qed

text \<open>What a successful mining step did to the chain.\<close>

lemma mine_Mined:
  assumes inv: "inv b" and mine: "bt_mine_block X B b inp = Ret (Mined h, b')"
  shows "inv b'" and "hdrs b' = (hdrs b)(number h \<mapsto> h)" and "tip_header (hdrs b') = h"
    and "number h = tip_number (hdrs b) + 1"
    and "parent_hash h = hash (tip_header (hdrs b))"
    and "tip_number (hdrs b) < tip_number (hdrs b')"
proof -
  from mine obtain prev n res where
    tip: "bt_tip B b = Ret (Inr prev)" and h: "h = mined_header X inp prev n"
    and add: "bt_try_add_block_header B b h = Ret (Inr ExtendTip, b')"
    by (auto simp: bt_mine_block_def Let_def expect_Ret_iff elim!: obind_RetE
        split: prod.splits sum.splits added_block_result.splits)
  from add_Ret [OF inv add] have spec:
    "add_spec checks (bt_genesis B) (hdrs b) h = Ret (Inr ExtendTip, hdrs b')" and "inv b'"
    by auto
  note ext = add_spec_ExtendTip [OF inv_wf [OF inv] genesis_number spec]
  from \<open>inv b'\<close> show "inv b'" .
  show "hdrs b' = (hdrs b)(number h \<mapsto> h)" "tip_header (hdrs b') = h"
    "number h = tip_number (hdrs b) + 1" "parent_hash h = hash (tip_header (hdrs b))"
    "tip_number (hdrs b) < tip_number (hdrs b')"
    using ext by simp_all
qed

end

text \<open>An implementation whose storage does not fail.\<close>

locale reliable_block_tree = block_tree_contract +
  assumes lookup_no_fault: "inv b \<Longrightarrow> bt_get_header_by_block_number B b n = Ret r \<Longrightarrow>
      \<not> db_fault r"
    and tip_no_fault: "inv b \<Longrightarrow> bt_tip B b = Ret t \<Longrightarrow> \<not> db_fault t"
    and add_no_fault: "inv b \<Longrightarrow> bt_try_add_block_header B b h = Ret (a, b') \<Longrightarrow>
      \<not> db_fault a"
begin

lemma lookup_eq: "inv b \<Longrightarrow> bt_get_header_by_block_number B b n = Ret (found (hdrs b n))"
  using lookup_result lookup_no_fault by blast

lemma tip_eq: "inv b \<Longrightarrow> bt_tip B b = Ret (Inr (tip_header (hdrs b)))"
  using tip_result tip_no_fault by blast

lemma add_eq:
  assumes "inv b" and "add_spec checks (bt_genesis B) (hdrs b) h = Ret (r, m)"
  shows "\<exists>b'. bt_try_add_block_header B b h = Ret (r, b') \<and> inv b' \<and> hdrs b' = m"
proof (cases "bt_try_add_block_header B b h")
  case (Ret p)
  then obtain a b' where add: "bt_try_add_block_header B b h = Ret (a, b')"
    by (cases p) auto
  from add_Ret [OF assms(1) add] add_no_fault [OF assms(1) add] assms(2) add
  show ?thesis by auto
next
  case (Panic s)
  with add_Panic [OF assms(1)] assms(2) show ?thesis by auto
next
  case Diverge
  with add_returns [OF assms(1)] show ?thesis by auto
qed

text \<open>Mining on a chain that has room for another block always succeeds.\<close>

lemma mine_succeeds:
  assumes inv: "inv b" and room: "tip_number (hdrs b) < n"
  shows "\<exists>b'. bt_mine_block X B b inp =
    Ret (Mined (mined_header X inp (tip_header (hdrs b)) (tip_number (hdrs b) + 1)), b')"
proof -
  note wf = inv_wf [OF inv]
  from add_eq [OF inv add_mined [OF wf room genesis_number refl, of checks X inp]] tip_eq [OF inv]
  show ?thesis by (auto simp: bt_mine_block_def Let_def wf u64_succ_ok [OF room])
qed

end

end
