(* ===== verification/Sync_Header.thy ===== *)
theory Sync_Header
  imports Interface "HOL-Library.Multiset"
begin

text \<open>
  The header synchroniser (\<^verbatim>\<open>src/src/tasks/sync_header.rs\<close>): a future that requests the
  headers after the local head up to a target from one peer, in batches, with a bounded
  number of requests in flight. \<open>poll\<close> is the function \<open>sync_poll\<close> on the future's
  state and the world of its provider. Its inner loops always end; the outer one can run
  forever when the batch size is 0, so it is a \<open>partial_function\<close> and not returning is
  the outcome \<open>Diverge\<close>.
\<close>

section \<open>State and builder\<close>

datatype sync_header_error = HeaderInvalid | EmptyResponse | RequestFailed request_error

type_synonym sync_header_output = "sync_header_error + header list"

record 'fut sync_header =
  in_progress_queue :: "'fut list"
  queued_headers :: "header list"
  max_concurrent_limit :: usize
  local_head_block :: u64
  request_limit :: u64
  target_head :: u64
  sync_peer_id :: peer_id

record 'p sync_header_builder =
  b_provider :: "'p option"
  b_peer_id :: "peer_id option"
  b_local_head_block :: u64
  b_target_head :: u64
  b_request_limit :: u64
  b_max_concurrent_limit :: usize

definition builder_default :: "'p sync_header_builder" where
  "builder_default = \<lparr>b_provider = None, b_peer_id = None, b_local_head_block = 0,
     b_target_head = 0, b_request_limit = 1000, b_max_concurrent_limit = 10\<rparr>"

definition with_provider :: "'p \<Rightarrow> 'p sync_header_builder \<Rightarrow> 'p sync_header_builder" where
  "with_provider p b = b\<lparr>b_provider := Some p\<rparr>"

definition with_local_head_block :: "u64 \<Rightarrow> 'p sync_header_builder \<Rightarrow> 'p sync_header_builder" where
  "with_local_head_block n b = b\<lparr>b_local_head_block := n\<rparr>"

definition with_target_head :: "u64 \<Rightarrow> 'p sync_header_builder \<Rightarrow> 'p sync_header_builder" where
  "with_target_head n b = b\<lparr>b_target_head := n\<rparr>"

definition with_peer_id :: "peer_id \<Rightarrow> 'p sync_header_builder \<Rightarrow> 'p sync_header_builder" where
  "with_peer_id p b = b\<lparr>b_peer_id := Some p\<rparr>"

definition with_request_limit :: "u64 \<Rightarrow> 'p sync_header_builder \<Rightarrow> 'p sync_header_builder" where
  "with_request_limit n b = b\<lparr>b_request_limit := n\<rparr>"

definition with_max_concurrent_limit ::
  "usize \<Rightarrow> 'p sync_header_builder \<Rightarrow> 'p sync_header_builder" where
  "with_max_concurrent_limit n b = b\<lparr>b_max_concurrent_limit := n\<rparr>"

definition sync_build :: "'p sync_header_builder \<Rightarrow> ('p \<times> 'fut sync_header) outcome" where
  "sync_build b =
     obind (expect_some ''Provider is required'' (b_provider b)) (\<lambda>p.
     obind (expect_some ''Peer id is required'' (b_peer_id b)) (\<lambda>peer.
     Ret (p, \<lparr>in_progress_queue = [], queued_headers = [],
       max_concurrent_limit = b_max_concurrent_limit b,
       local_head_block = b_local_head_block b, request_limit = b_request_limit b,
       target_head = b_target_head b, sync_peer_id = peer\<rparr>)))"

section \<open>Polling\<close>

definition on_header_response ::
  "'fut sync_header \<Rightarrow> header list \<Rightarrow> sync_header_error + 'fut sync_header" where
  "on_header_response s headers =
     (if headers = [] then Inl EmptyResponse
      else Inr (s\<lparr>queued_headers := queued_headers s @ headers\<rparr>))"

definition remove_nth :: "nat \<Rightarrow> 'a list \<Rightarrow> 'a list" where
  "remove_nth i xs = take i xs @ drop (Suc i) xs"

lemma length_remove_nth: "i < length xs \<Longrightarrow> length (remove_nth i xs) < length xs"
  by (simp add: remove_nth_def)

lemma mset_remove_nth: "i < length xs \<Longrightarrow> mset xs = add_mset (xs ! i) (mset (remove_nth i xs))"
  by (metis id_take_nth_drop mset.simps(2) mset_append remove_nth_def union_mset_add_mset_right)

text \<open>
  The first loop: take in the responses that are ready. A position that is none of the
  queue's counts as nothing ready; \<open>FuturesUnordered\<close> yields no such position.
\<close>

function drain_responses ::
  "('w, 'fut, 'z) headers_provider_scheme \<Rightarrow> 'w \<Rightarrow> 'fut sync_header \<Rightarrow>
     (sync_header_error + unit) \<times> 'fut sync_header \<times> 'w" where
  "drain_responses P w s =
     (case hp_poll_next P w (in_progress_queue s) of
        (None, w') \<Rightarrow> (Inr (), s, w')
      | (Some (i, r), w') \<Rightarrow>
          if i < length (in_progress_queue s) then
            (let s' = s\<lparr>in_progress_queue := remove_nth i (in_progress_queue s)\<rparr> in
             case r of
               Inl e \<Rightarrow> (Inl (RequestFailed e), s', w')
             | Inr headers \<Rightarrow>
                 (case on_header_response s' headers of
                    Inl e \<Rightarrow> (Inl e, s', w')
                  | Inr s'' \<Rightarrow> drain_responses P w' s''))
          else (Inr (), s, w'))"
  by pat_completeness auto
termination
  by (relation "measure (\<lambda>(P, w, s). length (in_progress_queue s))")
    (auto simp: length_remove_nth on_header_response_def split: if_splits)

declare drain_responses.simps [simp del]

text \<open>The next request and the local head after it, with the arithmetic of the source.\<close>

definition next_request :: "bool \<Rightarrow> 'fut sync_header \<Rightarrow> (headers_request \<times> u64) outcome" where
  "next_request checks s =
     obind (u64_sub checks (target_head s) (local_head_block s)) (\<lambda>diff.
     let lim = min diff (request_limit s) in
     obind (u64_add checks (local_head_block s) 1) (\<lambda>start.
     obind (u64_add checks (local_head_block s) lim) (\<lambda>head.
     Ret (\<lparr>limit = lim, start_block = start\<rparr>, head))))"

text \<open>The second loop: fill the queue with requests.\<close>

function issue_requests ::
  "bool \<Rightarrow> ('w, 'fut, 'z) headers_provider_scheme \<Rightarrow> 'w \<Rightarrow> 'fut sync_header \<Rightarrow> bool \<Rightarrow>
     (bool \<times> 'fut sync_header \<times> 'w) outcome" where
  "issue_requests checks P w s progress =
     (if length (in_progress_queue s) < unat (max_concurrent_limit s) then
        if target_head s > local_head_block s then
          (case next_request checks s of
             Ret (request, head) \<Rightarrow>
               (let (fut, w') = hp_get_headers P w (sync_peer_id s) request in
                issue_requests checks P w'
                  (s\<lparr>local_head_block := head,
                     in_progress_queue := in_progress_queue s @ [fut]\<rparr>) True)
           | Panic p \<Rightarrow> Panic p
           | Diverge \<Rightarrow> Diverge)
        else Ret (progress, s, w)
      else Ret (progress, s, w))"
  by pat_completeness auto
termination
  by (relation "measure (\<lambda>(checks, P, w, s, progress).
      unat (max_concurrent_limit s) - length (in_progress_queue s))") auto

declare issue_requests.simps [simp del]

partial_function (option) sync_loop ::
  "bool \<Rightarrow> ('w, 'fut, 'z) headers_provider_scheme \<Rightarrow> 'fut sync_header \<Rightarrow> 'w \<Rightarrow>
     (sync_header_output poll \<times> 'fut sync_header \<times> 'w) outcome option" where
  "sync_loop checks P s w =
     (case drain_responses P w s of (res, s1, w1) \<Rightarrow>
      case res of
        Inl e \<Rightarrow> Some (Ret (Ready (Inl e), s1, w1))
      | Inr _ \<Rightarrow>
         (case issue_requests checks P w1 s1 False of
            Ret r \<Rightarrow> (case r of (progress, s2, w2) \<Rightarrow>
              if progress then sync_loop checks P s2 w2
              else Some (Ret (if in_progress_queue s2 = [] then Ready (Inr (queued_headers s2))
                              else Pending, s2, w2)))
          | Panic p \<Rightarrow> Some (Panic p)
          | Diverge \<Rightarrow> Some Diverge))"

definition sync_poll ::
  "bool \<Rightarrow> ('w, 'fut, 'z) headers_provider_scheme \<Rightarrow> 'fut sync_header \<Rightarrow> 'w \<Rightarrow>
     (sync_header_output poll \<times> 'fut sync_header \<times> 'w) outcome" where
  "sync_poll checks P s w = (case sync_loop checks P s w of None \<Rightarrow> Diverge | Some r \<Rightarrow> r)"

section \<open>The two inner loops\<close>

lemma drain_responses_keeps:
  "drain_responses P w s = (r, s', w') \<Longrightarrow>
    local_head_block s' = local_head_block s \<and> target_head s' = target_head s \<and>
    request_limit s' = request_limit s \<and> max_concurrent_limit s' = max_concurrent_limit s \<and>
    sync_peer_id s' = sync_peer_id s \<and>
    length (in_progress_queue s') \<le> length (in_progress_queue s)"
proof (induction P w s arbitrary: r s' w' rule: drain_responses.induct)
  case (1 P w s)
  obtain x w1 where poll: "hp_poll_next P w (in_progress_queue s) = (x, w1)" by fastforce
  show ?case
  proof (cases x)
    case None
    with "1.prems" poll show ?thesis by (simp add: drain_responses.simps [of P w s])
  next
    case (Some ir)
    then obtain i q where x: "x = Some (i, q)" by (cases ir) auto
    let ?s1 = "s\<lparr>in_progress_queue := remove_nth i (in_progress_queue s)\<rparr>"
    show ?thesis
    proof (cases "i < length (in_progress_queue s) \<and> (\<exists>h t. q = Inr (h # t))")
      case True
      then obtain h t where i: "i < length (in_progress_queue s)" and q: "q = Inr (h # t)" by blast
      let ?s2 = "?s1\<lparr>queued_headers := queued_headers ?s1 @ h # t\<rparr>"
      have "drain_responses P w1 ?s2 = (r, s', w')"
        using "1.prems" poll x i q
        by (simp add: drain_responses.simps [of P w s] on_header_response_def Let_def)
      from "1.IH" [OF poll [symmetric] x refl i refl q _ this] length_remove_nth [OF i]
      show ?thesis by (simp add: on_header_response_def)
    next
      case False
      then show ?thesis
        using "1.prems" poll x length_remove_nth [of i "in_progress_queue s"]
        by (cases q; cases "projr q")
          (auto simp: drain_responses.simps [of P w s] on_header_response_def Let_def
            split: if_splits)
    qed
  qed
qed

lemma next_request_ok:
  assumes "local_head_block s < target_head s"
  defines "lim \<equiv> min (target_head s - local_head_block s) (request_limit s)"
  shows "next_request checks s =
      Ret (\<lparr>limit = lim, start_block = local_head_block s + 1\<rparr>, local_head_block s + lim)"
    and "local_head_block s \<le> local_head_block s + lim"
    and "local_head_block s + lim \<le> target_head s"
proof -
  have le: "local_head_block s \<le> target_head s" using assms(1) by simp
  have d: "lim \<le> target_head s - local_head_block s" by (simp add: lim_def)
  note add = u64_add_diff_ok [OF le d]
  show "next_request checks s =
      Ret (\<lparr>limit = lim, start_block = local_head_block s + 1\<rparr>, local_head_block s + lim)"
    using add(1) u64_succ_ok [OF assms(1)] u64_sub_ok [OF le]
    by (simp add: next_request_def Let_def lim_def [symmetric])
  show "local_head_block s \<le> local_head_block s + lim" "local_head_block s + lim \<le> target_head s"
    by (rule add(2), rule add(3))
qed

text \<open>The batches the source's arithmetic cuts the range after \<open>lo\<close> up to \<open>hi\<close> into.\<close>

function plan :: "u64 \<Rightarrow> u64 \<Rightarrow> u64 \<Rightarrow> headers_request list" where
  "plan lim lo hi =
     (if 0 < lim \<and> lo < hi
      then \<lparr>limit = min (hi - lo) lim, start_block = lo + 1\<rparr> # plan lim (lo + min (hi - lo) lim) hi
      else [])"
  by pat_completeness auto
termination
proof (relation "measure (\<lambda>(lim, lo, hi). unat hi - unat lo)", goal_cases)
  case (2 lim lo hi)
  let ?d = "min (hi - lo) lim"
  have "lo \<le> hi" and "?d \<le> hi - lo" using 2 by auto
  note le = u64_add_diff_ok(2,3) [OF this]
  have "?d \<noteq> 0" using 2 by (auto simp: min_def)
  then have "lo \<noteq> lo + ?d" by simp
  with le have "unat lo < unat (lo + ?d)"
    by (metis order.not_eq_order_implies_strict word_less_nat_alt)
  moreover have "unat (lo + ?d) \<le> unat hi" using le(2) by (simp add: word_le_nat_alt)
  ultimately show ?case by simp
qed simp

declare plan.simps [simp del]

lemma plan_done: "hi \<le> lo \<Longrightarrow> plan lim lo hi = []"
  by (subst plan.simps) auto

lemma plan_step: "0 < lim \<Longrightarrow> lo < hi \<Longrightarrow> plan lim lo hi =
    \<lparr>limit = min (hi - lo) lim, start_block = lo + 1\<rparr> # plan lim (lo + min (hi - lo) lim) hi"
  by (subst plan.simps) simp

lemma issue_step:
  assumes "length (in_progress_queue s) < unat (max_concurrent_limit s)"
    and "local_head_block s < target_head s"
  shows "issue_requests checks P w s progress =
    (let lim = min (target_head s - local_head_block s) (request_limit s);
         (fut, w') = hp_get_headers P w (sync_peer_id s)
           \<lparr>limit = lim, start_block = local_head_block s + 1\<rparr>
     in issue_requests checks P w' (s\<lparr>local_head_block := local_head_block s + lim,
          in_progress_queue := in_progress_queue s @ [fut]\<rparr>) True)"
  using assms by (subst issue_requests.simps) (simp add: next_request_ok Let_def)

lemma issue_stop:
  assumes "\<not> (length (in_progress_queue s) < unat (max_concurrent_limit s) \<and>
    local_head_block s < target_head s)"
  shows "issue_requests checks P w s progress = Ret (progress, s, w)"
  using assms by (subst issue_requests.simps) auto

text \<open>
  An induction over the loop that hides the arithmetic: the loop stops at once, or makes the
  next request of the plan and goes on.
\<close>

lemma issue_requests_induct [case_names stop step]:
  fixes s :: "'fut sync_header" and P :: "('w, 'fut, 'z) headers_provider_scheme"
  assumes stop: "\<And>w s progress. \<not> (length (in_progress_queue s) < unat (max_concurrent_limit s) \<and>
      local_head_block s < target_head s) \<Longrightarrow> Q w s progress (Ret (progress, s, w))"
    and step: "\<And>w s progress lim fut w' out.
      length (in_progress_queue s) < unat (max_concurrent_limit s) \<Longrightarrow>
      local_head_block s < target_head s \<Longrightarrow>
      lim = min (target_head s - local_head_block s) (request_limit s) \<Longrightarrow>
      hp_get_headers P w (sync_peer_id s)
        \<lparr>limit = lim, start_block = local_head_block s + 1\<rparr> = (fut, w') \<Longrightarrow>
      Q w' (s\<lparr>local_head_block := local_head_block s + lim,
        in_progress_queue := in_progress_queue s @ [fut]\<rparr>) True out \<Longrightarrow>
      Q w s progress out"
  shows "Q w s progress (issue_requests checks P w s progress)"
proof (induction "unat (max_concurrent_limit s) - length (in_progress_queue s)"
    arbitrary: w s progress rule: less_induct)
  case less
  show ?case
  proof (cases "length (in_progress_queue s) < unat (max_concurrent_limit s) \<and>
      local_head_block s < target_head s")
    case False
    then show ?thesis using stop issue_stop by metis
  next
    case True
    define lim where "lim = min (target_head s - local_head_block s) (request_limit s)"
    obtain fut w' where get: "hp_get_headers P w (sync_peer_id s)
        \<lparr>limit = lim, start_block = local_head_block s + 1\<rparr> = (fut, w')" by fastforce
    let ?s' = "s\<lparr>local_head_block := local_head_block s + lim,
        in_progress_queue := in_progress_queue s @ [fut]\<rparr>"
    have "unat (max_concurrent_limit ?s') - length (in_progress_queue ?s') <
        unat (max_concurrent_limit s) - length (in_progress_queue s)"
      using True by auto
    from step [OF _ _ lim_def get less [OF this]] True
    have "Q w s progress (issue_requests checks P w' ?s' True)" by blast
    with True get show ?thesis
      by (simp add: issue_step lim_def [symmetric] Let_def)
  qed
qed

definition issue_post ::
  "'w \<Rightarrow> 'fut sync_header \<Rightarrow> bool \<Rightarrow> (bool \<times> 'fut sync_header \<times> 'w) outcome \<Rightarrow> bool" where
  "issue_post w s progress out \<longleftrightarrow> (\<exists>p s' w'. out = Ret (p, s', w') \<and>
     target_head s' = target_head s \<and> request_limit s' = request_limit s \<and>
     max_concurrent_limit s' = max_concurrent_limit s \<and> sync_peer_id s' = sync_peer_id s \<and>
     queued_headers s' = queued_headers s \<and> local_head_block s \<le> local_head_block s' \<and>
     (local_head_block s \<le> target_head s \<longrightarrow> local_head_block s' \<le> target_head s) \<and>
     length (in_progress_queue s') \<le>
       max (length (in_progress_queue s)) (unat (max_concurrent_limit s)) \<and>
     (unat (max_concurrent_limit s) \<le> length (in_progress_queue s') \<or>
       target_head s \<le> local_head_block s') \<and>
     (\<not> p \<longrightarrow> \<not> progress \<and> s' = s \<and> w' = w) \<and>
     (p \<longrightarrow> \<not> progress \<longrightarrow> local_head_block s < target_head s \<and>
       (0 < request_limit s \<longrightarrow> local_head_block s < local_head_block s')))"

lemma issue_requests_post: "issue_post w s progress (issue_requests checks P w s progress)"
proof (rule issue_requests_induct [where Q = issue_post and P = P], goal_cases stop step)
  case (stop w s progress)
  then show ?case
    unfolding issue_post_def
    by (intro exI [of _ progress] exI [of _ s] exI [of _ w]) (auto simp: not_less)
next
  case (step w s progress lim fut w' out)
  note ok = next_request_ok(2,3) [OF step(2), folded step(3)]
  have "0 < lim" if "0 < request_limit s"
    using that step(2,3) by (auto simp: min_def word_gt_0)
  then have "local_head_block s < local_head_block s + lim" if "0 < request_limit s"
    using that ok(1) by (auto simp: order.strict_iff_order)
  with step ok show ?case
    unfolding issue_post_def by (fastforce intro: order.trans less_le_trans)
qed

lemma issue_requests_Ret:
  assumes "issue_requests checks P w s False = Ret (p, s', w')"
  shows "target_head s' = target_head s" "request_limit s' = request_limit s"
    "max_concurrent_limit s' = max_concurrent_limit s" "sync_peer_id s' = sync_peer_id s"
    "queued_headers s' = queued_headers s" "local_head_block s \<le> local_head_block s'"
    "local_head_block s \<le> target_head s \<Longrightarrow> local_head_block s' \<le> target_head s"
    "length (in_progress_queue s') \<le>
       max (length (in_progress_queue s)) (unat (max_concurrent_limit s))"
    "unat (max_concurrent_limit s) \<le> length (in_progress_queue s') \<or>
       target_head s \<le> local_head_block s'"
    "\<not> p \<Longrightarrow> s' = s \<and> w' = w" "p \<Longrightarrow> local_head_block s < target_head s"
    "p \<Longrightarrow> 0 < request_limit s \<Longrightarrow> local_head_block s < local_head_block s'"
  using issue_requests_post [of w s False checks P] unfolding issue_post_def assms by auto

lemma issue_requests_returns: "\<exists>p s' w'. issue_requests checks P w s progress = Ret (p, s', w')"
  using issue_requests_post [of w s progress checks P] unfolding issue_post_def by auto

section \<open>The polling loop\<close>

text \<open>One round of the loop, as an equation without the checked arithmetic.\<close>

lemma sync_loop_round:
  assumes "drain_responses P w s = (Inr u, s1, w1)"
    and "issue_requests checks P w1 s1 False = Ret (p, s2, w2)"
  shows "sync_loop checks P s w = (if p then sync_loop checks P s2 w2
    else Some (Ret (if in_progress_queue s2 = [] then Ready (Inr (queued_headers s2))
      else Pending, s2, w2)))"
  using assms by (subst sync_loop.simps) simp

lemma sync_loop_error:
  assumes "drain_responses P w s = (Inl e, s1, w1)"
  shows "sync_loop checks P s w = Some (Ret (Ready (Inl e), s1, w1))"
  using assms by (subst sync_loop.simps) simp

text \<open>
  With a positive batch size the loop ends, and it never panics: the measure is the
  distance from the local head to the target.
\<close>

lemma sync_loop_returns:
  "0 < request_limit s \<Longrightarrow> \<exists>r. sync_loop checks P s w = Some (Ret r)"
proof (induction "unat (target_head s) - unat (local_head_block s)" arbitrary: s w
    rule: less_induct)
  case less
  obtain r1 s1 w1 where d: "drain_responses P w s = (r1, s1, w1)"
    by (cases "drain_responses P w s") auto
  note k = drain_responses_keeps [OF d]
  show ?case
  proof (cases r1)
    case (Inl e)
    with d show ?thesis by (simp add: sync_loop_error)
  next
    case (Inr u)
    obtain p s2 w2 where i: "issue_requests checks P w1 s1 False = Ret (p, s2, w2)"
      using issue_requests_returns [of checks P w1 s1 False] by blast
    note post = issue_requests_Ret [OF i]
    have "\<exists>r. sync_loop checks P s2 w2 = Some (Ret r)" if p
    proof (rule less.hyps)
      have "local_head_block s < local_head_block s2" "local_head_block s < target_head s"
        using post(11,12) [OF that] k less.prems by simp_all
      then show "unat (target_head s2) - unat (local_head_block s2) <
          unat (target_head s) - unat (local_head_block s)"
        using post(1) k by (simp add: word_less_nat_alt)
      show "0 < request_limit s2" using post(2) k less.prems by simp
    qed
    with sync_loop_round [OF d [unfolded Inr] i] show ?thesis by auto
  qed
qed

lemma sync_poll_loop: "sync_poll checks P s w = Ret r \<longleftrightarrow> sync_loop checks P s w = Some (Ret r)"
  by (auto simp: sync_poll_def split: option.splits)

text \<open>
  A run of the future: it is polled, answers \<open>Pending\<close>, the environment moves on (answers
  arrive), and it is polled again.
\<close>

inductive sync_run ::
  "bool \<Rightarrow> ('w, 'fut, 'z) headers_provider_scheme \<Rightarrow> ('w \<Rightarrow> 'w \<Rightarrow> bool) \<Rightarrow>
     'fut sync_header \<Rightarrow> 'w \<Rightarrow> 'fut sync_header \<Rightarrow> 'w \<Rightarrow> bool"
  for checks P env s0 w0 where
  start: "sync_run checks P env s0 w0 s0 w0"
| again: "sync_run checks P env s0 w0 s w \<Longrightarrow> sync_poll checks P s w = Ret (Pending, s', w') \<Longrightarrow>
    env w' w'' \<Longrightarrow> sync_run checks P env s0 w0 s' w''"

text \<open>A state a run can start from: nothing requested and nothing received yet.\<close>

definition sync_fresh :: "'fut sync_header \<Rightarrow> bool" where
  "sync_fresh s \<longleftrightarrow> in_progress_queue s = [] \<and> queued_headers s = [] \<and>
     0 < request_limit s \<and> 0 < max_concurrent_limit s"

text \<open>
  Induction over one call of \<open>poll\<close>: a predicate that draining and issuing keep holds of the
  state the call leaves, whatever it returns.
\<close>

lemma sync_loop_induct:
  assumes "sync_loop checks P s w = Some (Ret (r, s', w'))" and "0 < request_limit s"
    and "I s w"
    and drain: "\<And>s w s1 w1. I s w \<Longrightarrow> drain_responses P w s = (Inr (), s1, w1) \<Longrightarrow> I s1 w1"
    and issue: "\<And>s w p s1 w1. I s w \<Longrightarrow> issue_requests checks P w s False = Ret (p, s1, w1) \<Longrightarrow>
      0 < request_limit s \<Longrightarrow> I s1 w1"
  shows "(\<exists>e s1 w1. r = Ready (Inl e) \<and> I s1 w1 \<and> drain_responses P w1 s1 = (Inl e, s', w')) \<or>
    (\<exists>s1 w1. I s1 w1 \<and> drain_responses P w1 s1 = (Inr (), s', w')) \<and>
    I s' w' \<and> (unat (max_concurrent_limit s') \<le> length (in_progress_queue s') \<or>
      target_head s' \<le> local_head_block s') \<and>
    r = (if in_progress_queue s' = [] then Ready (Inr (queued_headers s')) else Pending)"
  using assms(1-3)
proof (induction "unat (target_head s) - unat (local_head_block s)" arbitrary: s w
    rule: less_induct)
  case less
  obtain r1 s1 w1 where d: "drain_responses P w s = (r1, s1, w1)"
    by (cases "drain_responses P w s") auto
  note k = drain_responses_keeps [OF d]
  show ?case
  proof (cases r1)
    case (Inl e)
    with d less.prems show ?thesis by (auto simp: sync_loop_error)
  next
    case (Inr u)
    obtain p s2 w2 where i: "issue_requests checks P w1 s1 False = Ret (p, s2, w2)"
      using issue_requests_returns [of checks P w1 s1 False] by blast
    note post = issue_requests_Ret [OF i]
    have lim: "0 < request_limit s1" using k less.prems(2) by simp
    have I2: "I s2 w2"
      using issue [OF drain [OF less.prems(3)] i lim] d Inr by simp
    note round = sync_loop_round [OF d [unfolded Inr] i]
    show ?thesis
    proof (cases p)
      case True
      have "local_head_block s < local_head_block s2" "local_head_block s < target_head s"
        using post(11,12) [OF True] k less.prems by simp_all
      then have "unat (target_head s2) - unat (local_head_block s2) <
          unat (target_head s) - unat (local_head_block s)"
        using post(1) k by (simp add: word_less_nat_alt)
      from less.hyps [OF this _ _ I2] round True less.prems(1) lim post(2)
      show ?thesis by simp
    next
      case False
      with post(9,10) I2 round less.prems(1,3) d Inr show ?thesis by auto
    qed
  qed
qed

lemma sync_poll_invariant:
  assumes poll: "sync_poll checks P s w = Ret (r, s', w')" and lim: "0 < request_limit s"
    and "I s w"
    and drain: "\<And>s w q s1 w1. I s w \<Longrightarrow> drain_responses P w s = (q, s1, w1) \<Longrightarrow> I s1 w1"
    and issue: "\<And>s w p s1 w1. I s w \<Longrightarrow> issue_requests checks P w s False = Ret (p, s1, w1) \<Longrightarrow>
      I s1 w1"
  shows "I s' w'"
proof -
  have loop: "sync_loop checks P s w = Some (Ret (r, s', w'))"
    using poll by (simp add: sync_poll_loop)
  have "(\<exists>e s1 w1. r = Ready (Inl e) \<and> I s1 w1 \<and> drain_responses P w1 s1 = (Inl e, s', w')) \<or>
    (\<exists>s1 w1. I s1 w1 \<and> drain_responses P w1 s1 = (Inr (), s', w')) \<and>
    I s' w' \<and> (unat (max_concurrent_limit s') \<le> length (in_progress_queue s') \<or>
      target_head s' \<le> local_head_block s') \<and>
    r = (if in_progress_queue s' = [] then Ready (Inr (queued_headers s')) else Pending)"
    by (rule sync_loop_induct [where I = I, OF loop lim assms(3)])
      (erule (1) drain, erule (1) issue)
  then show ?thesis using drain by blast
qed

text \<open>What every call of the provider keeps of the world, polling the future keeps.\<close>

lemma drain_world:
  assumes poll: "\<And>w fs x w'. Q w \<Longrightarrow> hp_poll_next P w fs = (x, w') \<Longrightarrow> Q w'"
  shows "Q w \<Longrightarrow> drain_responses P w s = (r, s', w') \<Longrightarrow> Q w'"
proof (induction "length (in_progress_queue s)" arbitrary: w s rule: less_induct)
  case less
  obtain x w1 where p: "hp_poll_next P w (in_progress_queue s) = (x, w1)" by fastforce
  have Q: "Q w1" using poll [OF less.prems(1) p] .
  show ?case
  proof (cases "\<exists>i h t. x = Some (i, Inr (h # t)) \<and> i < length (in_progress_queue s)")
    case True
    then obtain i h t where x: "x = Some (i, Inr (h # t))" and i: "i < length (in_progress_queue s)"
      by blast
    let ?s = "s\<lparr>in_progress_queue := remove_nth i (in_progress_queue s),
      queued_headers := queued_headers s @ h # t\<rparr>"
    have "drain_responses P w1 ?s = (r, s', w')"
      using less.prems(2) p x i
      by (simp add: drain_responses.simps [of P w s] on_header_response_def Let_def)
    with less.hyps [of ?s w1] length_remove_nth [OF i] Q show ?thesis by simp
  next
    case False
    with less.prems(2) p Q show ?thesis
      by (auto simp: drain_responses.simps [of P w s] on_header_response_def Let_def neq_Nil_conv
          split: option.splits sum.splits if_splits)
  qed
qed

lemma issue_world:
  assumes get: "\<And>w peer r f w'. Q w \<Longrightarrow> hp_get_headers P w peer r = (f, w') \<Longrightarrow> Q w'"
    and "Q w" and "issue_requests checks P w s progress = Ret (p, s', w')"
  shows "Q w'"
proof -
  have "Q w \<longrightarrow> (\<forall>p s' w'. issue_requests checks P w s progress = Ret (p, s', w') \<longrightarrow> Q w')"
    by (rule issue_requests_induct [where P = P and
          Q = "\<lambda>w s progress out. Q w \<longrightarrow> (\<forall>p s' w'. out = Ret (p, s', w') \<longrightarrow> Q w')"])
      (use get in blast)+
  with assms(2,3) show ?thesis by blast
qed

lemma sync_poll_world:
  assumes poll: "\<And>w fs x w'. Q w \<Longrightarrow> hp_poll_next P w fs = (x, w') \<Longrightarrow> Q w'"
    and get: "\<And>w peer r f w'. Q w \<Longrightarrow> hp_get_headers P w peer r = (f, w') \<Longrightarrow> Q w'"
    and "sync_poll checks P s w = Ret (r, s', w')" and "0 < request_limit s" and "Q w"
  shows "Q w'"
proof -
  have drain: "Q w1" if "Q w" "drain_responses P w s = (q, s1, w1)"
    for w w1 and s s1 :: "'b sync_header" and q
    by (rule drain_world [where Q = Q, OF poll that(1,2)])
  have issue: "Q w1" if "Q w" "issue_requests checks P w s False = Ret (p, s1, w1)"
    for w w1 and s s1 :: "'b sync_header" and p
    by (rule issue_world [where Q = Q, OF get that(1,2)])
  show ?thesis
    by (rule sync_poll_invariant [where I = "\<lambda>s w. Q w", OF assms(3,4,5)])
      (erule (1) drain, erule (1) issue)
qed

text \<open>
  The state in the middle of a run: \<open>ds\<close> are the requests whose answers were received, in
  the order of the answers, and \<open>issued\<close> the requests made so far.
\<close>

definition sync_progress ::
  "('w \<Rightarrow> 'fut list \<Rightarrow> bool) \<Rightarrow> ('fut \<Rightarrow> headers_request) \<Rightarrow> (headers_request \<Rightarrow> headers_response) \<Rightarrow>
   ('w \<Rightarrow> headers_request list) \<Rightarrow> (headers_request list \<Rightarrow> headers_request list \<Rightarrow> bool) \<Rightarrow>
   'fut sync_header \<Rightarrow> 'w \<Rightarrow> 'fut sync_header \<Rightarrow> 'w \<Rightarrow> bool" where
  "sync_progress ok req_of answer log same s0 w0 s w \<longleftrightarrow>
     request_limit s = request_limit s0 \<and> target_head s = target_head s0 \<and>
     max_concurrent_limit s = max_concurrent_limit s0 \<and> ok w (in_progress_queue s) \<and>
     (\<exists>ds issued. log w = log w0 @ issued \<and> queued_headers s = concat (map answer ds) \<and>
       same issued (ds @ map req_of (in_progress_queue s)) \<and>
       plan (request_limit s0) (local_head_block s0) (target_head s0) =
         issued @ plan (request_limit s) (local_head_block s) (target_head s))"

section \<open>What is requested and what is returned\<close>

text \<open>
  What the synchroniser relies on: a request is logged and remembered by its future, a
  response is the one to its request, and neither polling nor the environment makes requests.
  The relation \<open>same\<close> says how the order of completion can differ from the order of the
  requests: equality for a source that answers in order, equality of multisets for one that
  answers in any order.
\<close>

locale headers_source =
  fixes P :: "('w, 'fut, 'z) headers_provider_scheme"
    and ok :: "'w \<Rightarrow> 'fut list \<Rightarrow> bool"
    and req_of :: "'fut \<Rightarrow> headers_request"
    and answer :: "headers_request \<Rightarrow> headers_response"
    and log :: "'w \<Rightarrow> headers_request list"
    and env :: "'w \<Rightarrow> 'w \<Rightarrow> bool"
    and same :: "headers_request list \<Rightarrow> headers_request list \<Rightarrow> bool"
  assumes get_logged: "hp_get_headers P w peer req = (f, w') \<Longrightarrow>
      req_of f = req \<and> log w' = log w @ [req]"
    and get_ok: "ok w fs \<Longrightarrow> hp_get_headers P w peer req = (f, w') \<Longrightarrow> ok w' (fs @ [f])"
    and poll_none_ok: "ok w fs \<Longrightarrow> hp_poll_next P w fs = (None, w') \<Longrightarrow> ok w' fs"
    and poll_some_ok: "ok w fs \<Longrightarrow> hp_poll_next P w fs = (Some (i, y), w') \<Longrightarrow>
      ok w' (remove_nth i fs)"
    and env_ok: "ok w fs \<Longrightarrow> env w w' \<Longrightarrow> ok w' fs"
    and poll_logs_nothing: "hp_poll_next P w fs = (x, w') \<Longrightarrow> log w' = log w"
    and poll_position: "hp_poll_next P w fs = (Some (i, y), w') \<Longrightarrow> i < length fs \<and>
      same (map req_of fs) (req_of (fs ! i) # map req_of (remove_nth i fs))"
    and poll_answer: "ok w fs \<Longrightarrow> hp_poll_next P w fs = (Some (i, Inr hs), w') \<Longrightarrow>
      hs = answer (req_of (fs ! i))"
    and env_logs_nothing: "env w w' \<Longrightarrow> log w' = log w"
    and same_refl: "same a a"
    and same_trans: "same a b \<Longrightarrow> same b c \<Longrightarrow> same a c"
    and same_append: "same a b \<Longrightarrow> same (u @ a @ v) (u @ b @ v)"
begin

lemma drain_source:
  "drain_responses P w s = (r, s', w') \<Longrightarrow> ok w (in_progress_queue s) \<Longrightarrow>
     log w' = log w \<and> ok w' (in_progress_queue s') \<and> (r = Inr () \<longrightarrow>
     (\<exists>ds. queued_headers s' = queued_headers s @ concat (map answer ds) \<and>
       same (map req_of (in_progress_queue s)) (ds @ map req_of (in_progress_queue s'))))"
proof (induction "length (in_progress_queue s)" arbitrary: w s rule: less_induct)
  case less
  obtain x w1 where poll: "hp_poll_next P w (in_progress_queue s) = (x, w1)" by fastforce
  note lg = poll_logs_nothing [OF poll]
  show ?case
  proof (cases x)
    case None
    with less.prems poll lg same_refl poll_none_ok [OF less.prems(2)] show ?thesis
      by (auto simp: drain_responses.simps [of P w s] intro: exI [of _ "[]"])
  next
    case (Some iy)
    then obtain i y where x: "x = Some (i, y)" by (cases iy) auto
    let ?q = "in_progress_queue s"
    from poll x have i: "i < length ?q"
      and perm: "same (map req_of ?q) (req_of (?q ! i) # map req_of (remove_nth i ?q))"
      using poll_position by blast+
    show ?thesis
    proof (cases "\<exists>h t. y = Inr (h # t)")
      case False
      with less.prems poll x i lg poll_some_ok [OF less.prems(2)] show ?thesis
        by (cases y; cases "projr y")
          (auto simp: drain_responses.simps [of P w s] on_header_response_def Let_def)
    next
      case True
      then obtain h t where y: "y = Inr (h # t)" by blast
      let ?s2 = "s\<lparr>in_progress_queue := remove_nth i ?q,
        queued_headers := queued_headers s @ h # t\<rparr>"
      have d: "drain_responses P w1 ?s2 = (r, s', w')"
        using less.prems poll x i y
        by (simp add: drain_responses.simps [of P w s] on_header_response_def Let_def)
      have a: "h # t = answer (req_of (?q ! i))"
        using poll_answer [OF less.prems(2)] poll x y by blast
      have "length (in_progress_queue ?s2) < length ?q" "ok w1 (in_progress_queue ?s2)"
        using length_remove_nth [OF i] poll_some_ok [OF less.prems(2)] poll x by simp_all
      note IH = less.hyps [OF this(1) d this(2)]
      show ?thesis
      proof (intro conjI impI)
        show "log w' = log w" "ok w' (in_progress_queue s')" using IH lg by simp_all
        assume "r = Inr ()"
        then obtain ds where q: "queued_headers s' = queued_headers ?s2 @ concat (map answer ds)"
          and "same (map req_of (remove_nth i ?q)) (ds @ map req_of (in_progress_queue s'))"
          using IH by auto
        from same_append [OF this(2), of "[req_of (?q ! i)]" "[]"] same_trans [OF perm]
        have "same (map req_of ?q) (req_of (?q ! i) # ds @ map req_of (in_progress_queue s'))"
          by simp
        with q a show "\<exists>ds. queued_headers s' = queued_headers s @ concat (map answer ds) \<and>
            same (map req_of ?q) (ds @ map req_of (in_progress_queue s'))"
          by (intro exI [of _ "req_of (?q ! i) # ds"]) simp
      qed
    qed
  qed
qed

lemma issue_source:
  assumes "issue_requests checks P w s progress = Ret (p, s', w')" and "0 < request_limit s"
    and "ok w (in_progress_queue s)"
  shows "\<exists>fs. in_progress_queue s' = in_progress_queue s @ fs \<and> log w' = log w @ map req_of fs \<and>
    ok w' (in_progress_queue s') \<and> plan (request_limit s) (local_head_block s) (target_head s) =
      map req_of fs @ plan (request_limit s') (local_head_block s') (target_head s')"
proof -
  define Q where "Q w s (progress::bool) out \<longleftrightarrow> (0 < request_limit s \<longrightarrow> ok w (in_progress_queue s) \<longrightarrow> (\<forall>p s' w'.
    out = Ret (p, s', w') \<longrightarrow> (\<exists>fs. in_progress_queue s' = in_progress_queue s @ fs \<and>
      log w' = log w @ map req_of fs \<and> ok w' (in_progress_queue s') \<and>
      plan (request_limit s) (local_head_block s) (target_head s) =
        map req_of fs @ plan (request_limit s') (local_head_block s') (target_head s'))))"
    for w and s :: "'fut sync_header" and progress
      and out :: "(bool \<times> 'fut sync_header \<times> 'w) outcome"
  have "Q w s progress (issue_requests checks P w s progress)"
  proof (rule issue_requests_induct [where Q = Q and P = P], goal_cases stop step)
    case (stop w s progress)
    then show ?case by (simp add: Q_def)
  next
    case (step w s progress lim fut w1 out)
    show ?case
      unfolding Q_def
    proof (intro impI allI)
      fix p s' w'
      assume pos: "0 < request_limit s" and w: "ok w (in_progress_queue s)"
        and out: "out = Ret (p, s', w')"
      from step(5) pos get_ok [OF w step(4)] out obtain fs where fs:
        "in_progress_queue s' = in_progress_queue s @ fut # fs"
        "log w' = log w1 @ map req_of fs" "ok w' (in_progress_queue s')"
        "plan (request_limit s) (local_head_block s + lim) (target_head s) =
          map req_of fs @ plan (request_limit s') (local_head_block s') (target_head s')"
        unfolding Q_def by auto
      moreover note get_logged [OF step(4)] plan_step [OF pos step(2), folded step(3)]
      ultimately show "\<exists>fs. in_progress_queue s' = in_progress_queue s @ fs \<and>
        log w' = log w @ map req_of fs \<and> ok w' (in_progress_queue s') \<and>
        plan (request_limit s) (local_head_block s) (target_head s) =
          map req_of fs @ plan (request_limit s') (local_head_block s') (target_head s')"
        by (intro exI [of _ "fut # fs"]) simp
    qed
  qed
  with assms show ?thesis unfolding Q_def by blast
qed

lemma progress_drain:
  assumes "sync_progress ok req_of answer log same s0 w0 s w"
    and d: "drain_responses P w s = (Inr (), s1, w1)"
  shows "sync_progress ok req_of answer log same s0 w0 s1 w1"
proof -
  from assms(1) obtain ds issued where "log w = log w0 @ issued"
    "queued_headers s = concat (map answer ds)"
    and perm: "same issued (ds @ map req_of (in_progress_queue s))"
    and "plan (request_limit s0) (local_head_block s0) (target_head s0) =
      issued @ plan (request_limit s) (local_head_block s) (target_head s)"
    and ok: "ok w (in_progress_queue s)"
    unfolding sync_progress_def by blast
  moreover from drain_source [OF d ok] obtain ds' where "log w1 = log w"
    "ok w1 (in_progress_queue s1)"
    "queued_headers s1 = queued_headers s @ concat (map answer ds')"
    and perm': "same (map req_of (in_progress_queue s)) (ds' @ map req_of (in_progress_queue s1))"
    by auto
  moreover from same_trans [OF perm] same_append [OF perm', of ds "[]"]
  have "same issued ((ds @ ds') @ map req_of (in_progress_queue s1))" by simp
  ultimately show ?thesis
    using drain_responses_keeps [OF d] assms(1)
    unfolding sync_progress_def by (intro conjI exI [of _ "ds @ ds'"] exI [of _ issued]) simp_all
qed

lemma progress_issue:
  assumes "sync_progress ok req_of answer log same s0 w0 s w"
    and i: "issue_requests checks P w s False = Ret (p, s1, w1)" and lim: "0 < request_limit s"
  shows "sync_progress ok req_of answer log same s0 w0 s1 w1"
proof -
  from assms(1) obtain ds issued where "log w = log w0 @ issued"
    "queued_headers s = concat (map answer ds)"
    and perm: "same issued (ds @ map req_of (in_progress_queue s))"
    and "plan (request_limit s0) (local_head_block s0) (target_head s0) =
      issued @ plan (request_limit s) (local_head_block s) (target_head s)"
    and ok: "ok w (in_progress_queue s)"
    unfolding sync_progress_def by blast
  moreover from issue_source [OF i lim ok] obtain fs where "ok w1 (in_progress_queue s1)" and
    q: "in_progress_queue s1 = in_progress_queue s @ fs" and "log w1 = log w @ map req_of fs"
    "plan (request_limit s) (local_head_block s) (target_head s) =
      map req_of fs @ plan (request_limit s1) (local_head_block s1) (target_head s1)"
    by blast
  moreover have "same (issued @ map req_of fs) (ds @ map req_of (in_progress_queue s1))"
    using same_append [OF perm, of "[]" "map req_of fs"] by (simp add: q)
  ultimately show ?thesis
    using issue_requests_Ret [OF i] assms(1) unfolding sync_progress_def
    by (intro conjI exI [of _ ds] exI [of _ "issued @ map req_of fs"]) simp_all
qed

lemma progress_fresh: "sync_fresh s0 \<Longrightarrow> ok w0 [] \<Longrightarrow> sync_progress ok req_of answer log same s0 w0 s0 w0"
  unfolding sync_progress_def sync_fresh_def using same_refl [of "[]"]
  by (intro conjI exI [of _ "[]"]) simp_all

lemma progress_env:
  "sync_progress ok req_of answer log same s0 w0 s w \<Longrightarrow> env w w' \<Longrightarrow>
    sync_progress ok req_of answer log same s0 w0 s w'"
  using env_ok [of w "in_progress_queue s" w'] env_logs_nothing [of w w']
  unfolding sync_progress_def by (elim conjE, intro conjI) (assumption | simp only:)+

lemma progress_poll:
  assumes prog: "sync_progress ok req_of answer log same s0 w0 s w" and fresh: "sync_fresh s0"
    and poll: "sync_poll checks P s w = Ret (r, s', w')" and r: "\<And>e. r \<noteq> Ready (Inl e)"
  shows "sync_progress ok req_of answer log same s0 w0 s' w'"
    and "r = (if in_progress_queue s' = [] then Ready (Inr (queued_headers s')) else Pending)"
    and "in_progress_queue s' = [] \<Longrightarrow> target_head s' \<le> local_head_block s'"
proof -
  have lim: "0 < request_limit s"
    using prog fresh by (simp add: sync_progress_def sync_fresh_def)
  have loop: "sync_loop checks P s w = Some (Ret (r, s', w'))"
    using poll by (simp add: sync_poll_loop)
  let ?I = "sync_progress ok req_of answer log same s0 w0"
  have "(\<exists>e s1 w1. r = Ready (Inl e) \<and> ?I s1 w1 \<and> drain_responses P w1 s1 = (Inl e, s', w')) \<or>
    (\<exists>s1 w1. ?I s1 w1 \<and> drain_responses P w1 s1 = (Inr (), s', w')) \<and>
    ?I s' w' \<and> (unat (max_concurrent_limit s') \<le> length (in_progress_queue s') \<or>
      target_head s' \<le> local_head_block s') \<and>
    r = (if in_progress_queue s' = [] then Ready (Inr (queued_headers s')) else Pending)"
    by (rule sync_loop_induct [where I = ?I, OF loop lim prog])
      (erule (1) progress_drain, erule (2) progress_issue)
  with r have fin: "?I s' w' \<and> (unat (max_concurrent_limit s') \<le> length (in_progress_queue s') \<or>
      target_head s' \<le> local_head_block s') \<and>
    r = (if in_progress_queue s' = [] then Ready (Inr (queued_headers s')) else Pending)"
    by metis
  then show "sync_progress ok req_of answer log same s0 w0 s' w'"
    "r = (if in_progress_queue s' = [] then Ready (Inr (queued_headers s')) else Pending)"
    by blast+
  show "target_head s' \<le> local_head_block s'" if "in_progress_queue s' = []"
  proof -
    have "max_concurrent_limit s' = max_concurrent_limit s0"
      using fin unfolding sync_progress_def by blast
    then have "0 < unat (max_concurrent_limit s')"
      using fresh by (simp add: sync_fresh_def word_less_nat_alt)
    moreover have "unat (max_concurrent_limit s') \<le> length (in_progress_queue s') \<or>
        target_head s' \<le> local_head_block s'" using fin by blast
    ultimately show ?thesis using that by simp
  qed
qed

lemma run_progress:
  "sync_run checks P env s0 w0 s w \<Longrightarrow> sync_fresh s0 \<Longrightarrow> ok w0 [] \<Longrightarrow>
    sync_progress ok req_of answer log same s0 w0 s w"
proof (induction rule: sync_run.induct)
  case start
  then show ?case by (rule progress_fresh)
next
  case (again s w s' w' w'')
  have "sync_progress ok req_of answer log same s0 w0 s' w'"
    by (rule progress_poll(1) [OF again.IH [OF again.prems] again.prems(1) again.hyps(2)]) simp
  then show ?case using again.hyps(3) by (rule progress_env)
qed

text \<open>
  When the future completes, the requests made are the batches of the plan, and the headers
  are the answers to all of them, in the order the answers arrived.
\<close>

lemma run_result:
  assumes run: "sync_run checks P env s0 w0 s w" and fresh: "sync_fresh s0" and ok: "ok w0 []"
    and poll: "sync_poll checks P s w = Ret (Ready (Inr hs), s', w')"
  defines "batches \<equiv> plan (request_limit s0) (local_head_block s0) (target_head s0)"
  shows "log w' = log w0 @ batches \<and> ok w' [] \<and> (\<exists>ds. same batches ds \<and> hs = concat (map answer ds))"
proof -
  note facts = progress_poll [OF run_progress [OF run fresh ok] fresh poll]
  have e: "in_progress_queue s' = []" and hs: "hs = queued_headers s'"
    using facts(2) by (auto split: if_splits)
  have "plan (request_limit s') (local_head_block s') (target_head s') = []"
    using facts(3) e by (simp add: plan_done)
  with facts(1) e hs show ?thesis unfolding sync_progress_def batches_def by auto
qed

end

end
