(* ===== verification/Messages.thy ===== *)
theory Messages
  imports Interface
begin

text \<open>
  The messages between the tasks (\<^verbatim>\<open>src/src/net/mod.rs\<close>) and the channels they
  travel on. A oneshot channel is an entry of a list of channels and both its ends are
  handles to it; the command queue is the contents of an unbounded \<open>mpsc\<close> channel.
\<close>

section \<open>Messages\<close>

type_synonym handle = nat
type_synonym multiaddr = string

record get_block_headers_response =
  gr_headers :: "header list"
  gr_channel :: handle

datatype chain_network_event =
    IncomingNewBlockHeader header
  | IncomingTransactions "transaction list"
  | GetBlockHeaders handle handle headers_request

record get_headers_request =
  ghr_peer :: peer_id
  ghr_request :: headers_request
  ghr_sender :: handle

datatype network_provider_message =
    GetClosestPeers handle
  | BroadcastBlockHeader header handle
  | BroadcastTransactions handle "transaction list"
  | GetHeaders get_headers_request
  | Dial peer_id multiaddr handle
  | ListenAddrs handle
  | StartListening multiaddr handle

fun message_sender :: "network_provider_message \<Rightarrow> handle" where
  "message_sender (GetClosestPeers s) = s"
| "message_sender (BroadcastBlockHeader h s) = s"
| "message_sender (BroadcastTransactions s txs) = s"
| "message_sender (GetHeaders r) = ghr_sender r"
| "message_sender (Dial p a s) = s"
| "message_sender (ListenAddrs s) = s"
| "message_sender (StartListening a s) = s"

section \<open>Oneshot channels\<close>

text \<open>What can be sent on a oneshot channel, by the type of the channel.\<close>

datatype reply =
    UnitReply "unit request_response"
  | HeadersReply "headers_response request_response"
  | PeersReply "peer_id list request_response"
  | AddrsReply "multiaddr list request_response"
  | BlockHeadersReply "get_block_headers_response request_response"

text \<open>
  \<open>asked\<close> is not part of the channel: it records, for specifications only, the request
  for headers a channel was opened for.
\<close>

record chan =
  sent :: "reply option"
  tx_alive :: bool
  rx_alive :: bool
  asked :: "headers_request option"

type_synonym chans = "chan list"

definition oneshot_channel :: "headers_request option \<Rightarrow> chans \<Rightarrow> handle \<times> chans" where
  "oneshot_channel r cs =
     (length cs, cs @ [\<lparr>sent = None, tx_alive = True, rx_alive = True, asked = r\<rparr>])"

text \<open>\<open>send\<close> consumes the sender; it fails, giving the value back, when the receiver is gone.\<close>

definition oneshot_send :: "handle \<Rightarrow> reply \<Rightarrow> chans \<Rightarrow> reply + chans" where
  "oneshot_send c v cs =
     (if c < length cs \<and> rx_alive (cs ! c)
      then Inr (cs[c := (cs ! c)\<lparr>sent := Some v, tx_alive := False\<rparr>]) else Inl v)"

lemma oneshot_send_nth:
  assumes "oneshot_send c v cs = Inr cs'"
  shows "c < length cs" "cs' ! c = (cs ! c)\<lparr>sent := Some v, tx_alive := False\<rparr>"
    and "d \<noteq> c \<Longrightarrow> cs' ! d = cs ! d" and "length cs' = length cs"
  using assms by (auto simp: oneshot_send_def split: if_splits)

definition drop_sender :: "handle \<Rightarrow> chans \<Rightarrow> chans" where
  "drop_sender c cs = (if c < length cs then cs[c := (cs ! c)\<lparr>tx_alive := False\<rparr>] else cs)"

definition drop_receiver :: "handle \<Rightarrow> chans \<Rightarrow> chans" where
  "drop_receiver c cs = (if c < length cs then cs[c := (cs ! c)\<lparr>rx_alive := False\<rparr>] else cs)"

text \<open>Polling a receiver: the value, the error of a dropped sender, or nothing yet.\<close>

definition poll_receiver :: "handle \<Rightarrow> chans \<Rightarrow> (request_error + reply) poll" where
  "poll_receiver c cs =
     (if c < length cs then
        case sent (cs ! c) of
          Some v \<Rightarrow> Ready (Inr v)
        | None \<Rightarrow> if tx_alive (cs ! c) then Pending
                  else Ready (Inl (from_recv_error ''channel closed''))
      else Ready (Inl (from_recv_error ''channel closed'')))"

text \<open>The requests for headers that were ever made, in order.\<close>

definition asked_log :: "chans \<Rightarrow> headers_request list" where
  "asked_log cs = concat (map (case_option [] (\<lambda>r. [r])) (map asked cs))"

lemma asked_log_append [simp]: "asked_log (a @ b) = asked_log a @ asked_log b"
  by (simp add: asked_log_def)

lemma asked_log_update:
  assumes "asked c = asked (cs ! i)"
  shows "asked_log (cs[i := c]) = asked_log cs"
proof (cases "i < length cs")
  case True
  have "map asked (cs[i := c]) = map asked cs"
    using True assms by (simp add: map_update list_update_same_conv)
  then show ?thesis
    by (simp only: asked_log_def)
qed (simp add: list_update_beyond not_less)

end
