(* ===== verification/Chain_Net.thy ===== *)
theory Chain_Net
  imports Pool Block_Tree Sync_Header Messages
begin

text \<open>
  The chain network manager (\<^verbatim>\<open>src/src/net/chain.rs\<close>): it reacts to the events of the
  network task (new headers, new transactions, requests for headers), runs one
  synchronisation per closest peer when a header's parent is missing, and adds what they
  download to the chain. It is generic in the block tree and the provider, as in the source.
\<close>

section \<open>State\<close>

record 'fut peers_request =
  pr_header :: header
  pr_fut :: 'fut

record peers_request_outcome =
  po_header :: header
  po_outcome :: "peer_id list request_response"

record ('b, 'fut) chain_net =
  cn_chain :: 'b
  cn_pool :: pool_tx
  event_recv :: "chain_network_event list"
  sync_requests :: "'fut sync_header list"
  broadcast_requests :: "'fut list"
  closest_peers_request_for_sync :: "'fut peers_request option"
  pending_sync_request :: bool
  broadcasted_headers :: "string set"

text \<open>
  What the manager is generic in or takes from the runtime: the build profile, the block
  tree, the provider, the send on a oneshot channel (whose failure the manager ignores), and
  the order in which \<open>FuturesUnordered\<close> polls the synchronisers that were woken.
\<close>

record ('b, 'w, 'fut) net_deps =
  nd_checks :: bool
  nd_tree :: "'b block_tree"
  nd_provider :: "('w, 'fut) provider"
  nd_respond :: "handle \<Rightarrow> get_block_headers_response request_response \<Rightarrow> 'w \<Rightarrow> 'w"
  nd_woken :: "'w \<Rightarrow> nat \<Rightarrow> nat list"

definition chain_net_new :: "'b \<Rightarrow> pool_tx \<Rightarrow> ('b, 'fut) chain_net" where
  "chain_net_new chain pool = \<lparr>cn_chain = chain, cn_pool = pool, event_recv = [],
     sync_requests = [], broadcast_requests = [], closest_peers_request_for_sync = None,
     pending_sync_request = False, broadcasted_headers = {}\<rparr>"

section \<open>Handlers\<close>

definition tip_or_panic :: "'b block_tree \<Rightarrow> 'b \<Rightarrow> header outcome" where
  "tip_or_panic B b =
     obind (bt_tip B b) (expect ''Be able to get tip if not it is fatal error.'')"

fun push_syncers ::
  "'p \<Rightarrow> u64 \<Rightarrow> u64 \<Rightarrow> peer_id list \<Rightarrow> 'fut sync_header list \<Rightarrow> 'fut sync_header list outcome" where
  "push_syncers P lo hi [] q = Ret q"
| "push_syncers P lo hi (peer # peers) q =
     obind (sync_build (with_peer_id peer (with_target_head hi
       (with_local_head_block lo (with_provider P builder_default))))) (\<lambda>(_, syncer).
     push_syncers P lo hi peers (q @ [syncer]))"

definition send_sync_requests ::
  "('b, 'w, 'fut) net_deps \<Rightarrow> ('b, 'fut) chain_net \<Rightarrow> header \<Rightarrow> peer_id list \<Rightarrow>
     ('b, 'fut) chain_net outcome" where
  "send_sync_requests D st h peers =
     obind (tip_or_panic (nd_tree D) (cn_chain st)) (\<lambda>local_header.
     obind (push_syncers (nd_provider D) (number local_header) (number h) peers
       (sync_requests st)) (\<lambda>q.
     Ret (st\<lparr>sync_requests := q\<rparr>)))"

fun headers_loop ::
  "bool \<Rightarrow> 'b block_tree \<Rightarrow> 'b \<Rightarrow> nat \<Rightarrow> u64 \<Rightarrow> header list \<Rightarrow> header list outcome" where
  "headers_loop checks B b 0 n headers = Ret headers"
| "headers_loop checks B b (Suc k) n headers =
     obind (bt_get_header_by_block_number B b n) (\<lambda>r. case r of
       Inr h \<Rightarrow> obind (u64_add checks (number h) 1) (\<lambda>n'.
         headers_loop checks B b k n' (headers @ [h]))
     | Inl BlockHeaderNotFound \<Rightarrow> Ret headers
     | Inl _ \<Rightarrow> Panic ''error from get block header'')"

definition handle_get_block_headers_request ::
  "bool \<Rightarrow> 'b block_tree \<Rightarrow> 'b \<Rightarrow> headers_request \<Rightarrow> header list outcome" where
  "handle_get_block_headers_request checks B b request =
     headers_loop checks B b (unat (limit request)) (start_block request) []"

definition push_broadcast ::
  "('b, 'w, 'fut) net_deps \<Rightarrow> ('b, 'fut) chain_net \<Rightarrow> 'w \<Rightarrow> header \<Rightarrow>
     (('b, 'fut) chain_net \<times> 'w) outcome" where
  "push_broadcast D st w h =
     obind (bp_broadcast_block_header (nd_provider D) w h) (\<lambda>(fut, w').
     Ret (st\<lparr>broadcast_requests := broadcast_requests st @ [fut]\<rparr>, w'))"

definition start_sync ::
  "('b, 'w, 'fut) net_deps \<Rightarrow> ('b, 'fut) chain_net \<Rightarrow> 'w \<Rightarrow> header \<Rightarrow>
     ('b, 'fut) chain_net \<times> 'w" where
  "start_sync D st w h =
     (if closest_peers_request_for_sync st = None \<and> \<not> pending_sync_request st then
        let (fut, w') = pp_get_closest_peers (nd_provider D) w in
        (st\<lparr>pending_sync_request := True,
            closest_peers_request_for_sync := Some \<lparr>pr_header = h, pr_fut = fut\<rparr>\<rparr>, w')
      else (st, w))"

definition on_new_header ::
  "('b, 'w, 'fut) net_deps \<Rightarrow> ('b, 'fut) chain_net \<Rightarrow> 'w \<Rightarrow> header \<Rightarrow>
     (('b, 'fut) chain_net \<times> 'w) outcome" where
  "on_new_header D st w h =
     obind (bt_try_add_block_header (nd_tree D) (cn_chain st) h) (\<lambda>(r, b).
     let st = st\<lparr>cn_chain := b\<rparr> in
     case r of
       Inr ExtendTip \<Rightarrow> push_broadcast D st w h
     | Inr AlreadyInChain \<Rightarrow> Ret (st, w)
     | Inl BlockHeaderNotFound \<Rightarrow>
         obind (tip_or_panic (nd_tree D) b) (\<lambda>_.
         obind (if hash h \<notin> broadcasted_headers st
                then obind (push_broadcast D st w h) (\<lambda>(st, w).
                  Ret (st\<lparr>broadcasted_headers := insert (hash h) (broadcasted_headers st)\<rparr>, w))
                else Ret (st, w)) (\<lambda>(st, w).
         Ret (start_sync D st w h)))
     | Inl Invalid \<Rightarrow> Ret (st, w)
     | Inl (DatabaseError e) \<Rightarrow> Panic ''Error from add block header'')"

fun on_event ::
  "('b, 'w, 'fut) net_deps \<Rightarrow> ('b, 'fut) chain_net \<Rightarrow> 'w \<Rightarrow> chain_network_event \<Rightarrow>
     (('b, 'fut) chain_net \<times> 'w) outcome" where
  "on_event D st w (IncomingNewBlockHeader h) = on_new_header D st w h"
| "on_event D st w (IncomingTransactions txs) =
     (let (added, pool) = add_transactions (cn_pool st) txs in
      obind (bp_broadcast_transactions (nd_provider D) w txs) (\<lambda>(fut, w').
      Ret (st\<lparr>cn_pool := pool, broadcast_requests := broadcast_requests st @ [fut]\<rparr>, w')))"
| "on_event D st w (GetBlockHeaders respond channel request) =
     obind (handle_get_block_headers_request (nd_checks D) (nd_tree D) (cn_chain st) request)
       (\<lambda>headers.
     Ret (st, nd_respond D respond
       (Inr \<lparr>gr_headers = headers, gr_channel = channel\<rparr>) w))"

section \<open>Polling\<close>

fun poll_events ::
  "('b, 'w, 'fut) net_deps \<Rightarrow> chain_network_event list \<Rightarrow> ('b, 'fut) chain_net \<Rightarrow> 'w \<Rightarrow>
     (('b, 'fut) chain_net \<times> 'w) outcome" where
  "poll_events D [] st w = Ret (st, w)"
| "poll_events D (e # es) st w =
     obind (on_event D (st\<lparr>event_recv := es\<rparr>) w e) (\<lambda>(st', w').
     poll_events D es st' w')"

definition peers_request_poll ::
  "('b, 'w, 'fut) net_deps \<Rightarrow> 'w \<Rightarrow> 'fut peers_request \<Rightarrow> peers_request_outcome poll \<times> 'w" where
  "peers_request_poll D w req =
     (case pp_poll (nd_provider D) w (pr_fut req) of
        (Pending, w') \<Rightarrow> (Pending, w')
      | (Ready r, w') \<Rightarrow> (Ready \<lparr>po_header = pr_header req, po_outcome = r\<rparr>, w'))"

definition poll_closest_peers ::
  "('b, 'w, 'fut) net_deps \<Rightarrow> ('b, 'fut) chain_net \<Rightarrow> 'w \<Rightarrow>
     (('b, 'fut) chain_net \<times> 'w) outcome" where
  "poll_closest_peers D st w =
     (case closest_peers_request_for_sync st of
        None \<Rightarrow> Ret (st, w)
      | Some request \<Rightarrow>
          let st0 = st\<lparr>closest_peers_request_for_sync := None\<rparr> in
          (case peers_request_poll D w request of
             (Ready out, w') \<Rightarrow>
               (case po_outcome out of
                  Inr peers \<Rightarrow>
                    obind (send_sync_requests D st0 (po_header out) peers) (\<lambda>st'. Ret (st', w'))
                | Inl e \<Rightarrow> Ret (st0, w'))
           | (Pending, w') \<Rightarrow>
               Ret (st0\<lparr>closest_peers_request_for_sync := Some request\<rparr>, w')))"

text \<open>Adding the headers of a finished synchronisation.\<close>

fun add_headers :: "'b block_tree \<Rightarrow> 'b \<Rightarrow> header list \<Rightarrow> 'b outcome" where
  "add_headers B b [] = Ret b"
| "add_headers B b (h # hs) =
     obind (bt_try_add_block_header B b h) (\<lambda>(r, b'). case r of
       Inl Invalid \<Rightarrow> Ret b'
     | Inl BlockHeaderNotFound \<Rightarrow> Ret b'
     | Inl (DatabaseError e) \<Rightarrow> Panic ''Database error when sync header''
     | Inr _ \<Rightarrow> add_headers B b' hs)"

definition on_sync_output ::
  "('b, 'w, 'fut) net_deps \<Rightarrow> ('b, 'fut) chain_net \<Rightarrow> sync_header_output \<Rightarrow>
     ('b, 'fut) chain_net outcome" where
  "on_sync_output D st out =
     (case out of
        Inl e \<Rightarrow> Ret st
      | Inr headers \<Rightarrow>
          obind (add_headers (nd_tree D) (cn_chain st) headers) (\<lambda>b.
          obind (tip_or_panic (nd_tree D) b) (\<lambda>_.
          Ret (st\<lparr>cn_chain := b, pending_sync_request := False\<rparr>))))"

text \<open>
  \<open>poll_next\<close> of the \<open>FuturesUnordered\<close> of synchronisers: poll the woken ones in turn until
  one is ready, which is taken out and dropped.
\<close>

fun poll_syncers ::
  "('b, 'w, 'fut) net_deps \<Rightarrow> nat list \<Rightarrow> 'fut sync_header list \<Rightarrow> 'w \<Rightarrow>
     (sync_header_output option \<times> 'fut sync_header list \<times> 'w) outcome" where
  "poll_syncers D [] q w = Ret (None, q, w)"
| "poll_syncers D (i # is) q w =
     (if i < length q then
        obind (sync_poll (nd_checks D) (nd_provider D) (q ! i) w) (\<lambda>(r, s, w'). case r of
          Ready out \<Rightarrow>
            Ret (Some out, remove_nth i q, hp_drop (nd_provider D) w' (in_progress_queue s))
        | Pending \<Rightarrow> poll_syncers D is (q[i := s]) w')
      else poll_syncers D is q w)"

lemma poll_syncers_length:
  "poll_syncers D is q w = Ret (r, q', w') \<Longrightarrow>
    length q' \<le> length q \<and> (r \<noteq> None \<longrightarrow> length q' < length q)"
proof (induction D "is" q w rule: poll_syncers.induct)
  case (2 D i "is" q w)
  show ?case
  proof (cases "i < length q")
    case True
    with "2.prems" obtain p s v where
      poll: "sync_poll (nd_checks D) (nd_provider D) (q ! i) w = Ret (p, s, v)" by auto
    show ?thesis
    proof (cases p)
      case (Ready out)
      with "2.prems" True poll length_remove_nth [OF True] show ?thesis by auto
    next
      case Pending
      with "2.IH"(1) [OF True poll refl refl] "2.prems" True poll show ?thesis by auto
    qed
  next
    case False
    with 2 show ?thesis by auto
  qed
qed simp

function poll_sync_requests ::
  "('b, 'w, 'fut) net_deps \<Rightarrow> ('b, 'fut) chain_net \<Rightarrow> 'w \<Rightarrow>
     (('b, 'fut) chain_net \<times> 'w) outcome" where
  "poll_sync_requests D st w =
     obind (poll_syncers D (nd_woken D w (length (sync_requests st))) (sync_requests st) w)
       (\<lambda>(r, q, w'). case r of
         None \<Rightarrow> Ret (st\<lparr>sync_requests := q\<rparr>, w')
       | Some out \<Rightarrow>
           obind (on_sync_output D (st\<lparr>sync_requests := q\<rparr>) out) (\<lambda>st'.
           poll_sync_requests D st' w'))"
  by pat_completeness auto
termination
proof (relation "measure (\<lambda>(D, st, w). length (sync_requests st))", goal_cases)
  case (2 D st w x r y q w' out st')
  then have "length q < length (sync_requests st)"
    using poll_syncers_length by fastforce
  moreover have "sync_requests st' = q"
    using 2 by (auto simp: on_sync_output_def obind_Ret_iff split: sum.splits)
  ultimately show ?case by simp
qed simp

declare poll_sync_requests.simps [simp del]

lemma poll_syncers_empty [simp]: "poll_syncers D is [] w = Ret (None, [], w)"
  by (induction "is") simp_all

lemma poll_sync_idle:
  assumes "sync_requests st = []"
  shows "poll_sync_requests D st w = Ret (st, w)"
proof -
  have "st\<lparr>sync_requests := []\<rparr> = st" by (simp flip: assms)
  then show ?thesis by (subst poll_sync_requests.simps) (simp add: assms)
qed

text \<open>Polling the broadcasts: results and errors are only logged.\<close>

function poll_broadcasts ::
  "('w, 'fut) provider \<Rightarrow> 'fut list \<Rightarrow> 'w \<Rightarrow> ('fut list \<times> 'w) outcome" where
  "poll_broadcasts P q w =
     obind (bp_poll_next P w q) (\<lambda>(r, w'). case r of
       None \<Rightarrow> Ret (q, w')
     | Some (i, res) \<Rightarrow>
         if i < length q then poll_broadcasts P (remove_nth i q) w' else Ret (q, w'))"
  by pat_completeness auto
termination
  by (relation "measure (\<lambda>(P, q, w). length q)") (auto simp: length_remove_nth)

declare poll_broadcasts.simps [simp del]

definition chain_net_poll ::
  "('b, 'w, 'fut) net_deps \<Rightarrow> ('b, 'fut) chain_net \<Rightarrow> 'w \<Rightarrow>
     (unit poll \<times> ('b, 'fut) chain_net \<times> 'w) outcome" where
  "chain_net_poll D st w =
     obind (poll_events D (event_recv st) st w) (\<lambda>(st, w).
     obind (poll_closest_peers D st w) (\<lambda>(st, w).
     obind (poll_sync_requests D st w) (\<lambda>(st, w).
     obind (poll_broadcasts (nd_provider D) (broadcast_requests st) w) (\<lambda>(q, w).
     Ret (Pending, st\<lparr>broadcast_requests := q\<rparr>, w)))))"

section \<open>Answering header requests\<close>

definition number_range :: "u64 \<Rightarrow> nat \<Rightarrow> u64 list" where
  "number_range n k = map (\<lambda>i. n + of_nat i) [0..<k]"

lemma number_range_simps [simp]:
  "number_range n 0 = []" "number_range n (Suc k) = n # number_range (n + 1) k"
proof -
  have "[0..<Suc k] = 0 # map Suc [0..<k]" by (simp add: upt_conv_Cons map_Suc_upt)
  then show "number_range n (Suc k) = n # number_range (n + 1) k"
    by (simp add: number_range_def algebra_simps)
qed (simp add: number_range_def)

lemma length_number_range [simp]: "length (number_range n k) = k"
  by (simp add: number_range_def)

text \<open>The headers a request asks for that the chain has.\<close>

definition requested :: "header_map \<Rightarrow> headers_request \<Rightarrow> header list" where
  "requested m r = map (\<lambda>n. the (m n)) (number_range (start_block r)
     (min (unat (limit r)) (unat (tip_number m) + 1 - unat (start_block r))))"

context reliable_block_tree
begin

lemma headers_loop_result:
  assumes inv: "inv b" and room: "tip_number (hdrs b) < bound"
  shows "headers_loop ovf B b k n acc = Ret (acc @ map (\<lambda>n. the (hdrs b n))
    (number_range n (min k (unat (tip_number (hdrs b)) + 1 - unat n))))"
proof (induction k arbitrary: n acc)
  case (Suc k)
  let ?t = "tip_number (hdrs b)"
  show ?case
  proof (cases "n \<le> ?t")
    case False
    then have "hdrs b n = None" using above_tip by (simp add: not_le)
    with False show ?thesis
      using lookup_eq [OF inv, of n] by (simp add: found_def word_le_nat_alt)
  next
    case True
    then obtain h where h: "hdrs b n = Some h" "number h = n"
      using wf_headers_iff_le [OF inv_wf [OF inv]] wf_headersD(2) [OF inv_wf [OF inv]] by blast
    have lt: "n < bound" using True room by simp
    note u = u64_succ_unat [OF lt]
    have "unat ?t + 1 - unat n = Suc (unat ?t + 1 - unat (n + 1))"
      using True by (simp add: u word_le_nat_alt)
    then have "min (Suc k) (unat ?t + 1 - unat n) = Suc (min k (unat ?t + 1 - unat (n + 1)))"
      by simp
    with Suc.IH [of "n + 1" "acc @ [h]"] show ?thesis
      using lookup_eq [OF inv, of n] h by (simp add: found_def u64_succ_ok [OF lt])
  qed
qed simp

lemma answers_request:
  assumes "inv b" and "tip_number (hdrs b) < bound"
  shows "handle_get_block_headers_request ovf B b r = Ret (requested (hdrs b) r)"
  using headers_loop_result [OF assms]
  by (simp add: handle_get_block_headers_request_def requested_def)

end

section \<open>The chain only grows\<close>

definition grows :: "header_map \<Rightarrow> header_map \<Rightarrow> bool" where
  "grows m m' \<longleftrightarrow> tip_number m \<le> tip_number m' \<and> dom m \<subseteq> dom m'"

lemma grows_refl [simp]: "grows m m"
  by (simp add: grows_def)

lemma grows_trans: "grows a b \<Longrightarrow> grows b c \<Longrightarrow> grows a c"
  by (auto simp: grows_def)

context block_tree_contract
begin

lemma add_grows:
  assumes "inv b" and "bt_try_add_block_header B b h = Ret (r, b')"
  shows "inv b' \<and> grows (hdrs b) (hdrs b')"
  using add_inv [OF assms] add_tip_mono [OF assms] add_keeps [OF assms]
  by (auto simp: grows_def)

lemma add_headers_grows:
  "inv b \<Longrightarrow> add_headers B b hs = Ret b' \<Longrightarrow> inv b' \<and> grows (hdrs b) (hdrs b')"
proof (induction hs arbitrary: b)
  case (Cons h hs)
  from Cons.prems(2) obtain r b1 where add: "bt_try_add_block_header B b h = Ret (r, b1)"
    and rest: "b' = b1 \<or> add_headers B b1 hs = Ret b'"
    by (auto elim!: obind_RetE split: sum.splits error.splits)
  note g = add_grows [OF Cons.prems(1) add]
  from rest show ?case
  proof
    assume "add_headers B b1 hs = Ret b'"
    with Cons.IH g grows_trans show ?thesis by blast
  qed (use g in simp)
qed simp

lemma on_new_header_grows:
  assumes "nd_tree D = B" and "inv (cn_chain st)" and "on_new_header D st w h = Ret (st', w')"
  shows "inv (cn_chain st') \<and> grows (hdrs (cn_chain st)) (hdrs (cn_chain st')) \<and>
    sync_requests st' = sync_requests st"
proof -
  from assms(1,3) obtain r b where add: "bt_try_add_block_header B (cn_chain st) h = Ret (r, b)"
    and "cn_chain st' = b" "sync_requests st' = sync_requests st"
    by (auto simp: on_new_header_def push_broadcast_def start_sync_def Let_def elim!: obind_RetE
        split: sum.splits error.splits added_block_result.splits if_splits prod.splits)
  with add_grows [OF assms(2) add] show ?thesis by simp
qed

lemma on_event_grows:
  assumes "nd_tree D = B" and "inv (cn_chain st)" and "on_event D st w e = Ret (st', w')"
  shows "inv (cn_chain st') \<and> grows (hdrs (cn_chain st)) (hdrs (cn_chain st')) \<and>
    sync_requests st' = sync_requests st"
  using assms on_new_header_grows [OF assms(1,2)]
  by (cases e) (auto elim!: obind_RetE split: prod.splits)

lemma poll_events_grows:
  assumes "nd_tree D = B"
  shows "inv (cn_chain st) \<Longrightarrow> poll_events D es st w = Ret (st', w') \<Longrightarrow>
    inv (cn_chain st') \<and> grows (hdrs (cn_chain st)) (hdrs (cn_chain st')) \<and>
    sync_requests st' = sync_requests st"
proof (induction es arbitrary: st w)
  case (Cons e es)
  from Cons.prems(2) obtain st1 w1 where e: "on_event D (st\<lparr>event_recv := es\<rparr>) w e = Ret (st1, w1)"
    and es: "poll_events D es st1 w1 = Ret (st', w')" by auto
  have "inv (cn_chain (st\<lparr>event_recv := es\<rparr>))" using Cons.prems(1) by simp
  from on_event_grows [OF assms this e] Cons.IH [OF _ es] grows_trans show ?case by force
qed simp

lemma poll_sync_requests_grows:
  assumes "nd_tree D = B"
  shows "inv (cn_chain st) \<Longrightarrow> poll_sync_requests D st w = Ret (st', w') \<Longrightarrow>
    inv (cn_chain st') \<and> grows (hdrs (cn_chain st)) (hdrs (cn_chain st'))"
proof (induction "length (sync_requests st)" arbitrary: st w rule: less_induct)
  case less
  from less.prems(2) obtain r q w1 where
    p: "poll_syncers D (nd_woken D w (length (sync_requests st))) (sync_requests st) w =
      Ret (r, q, w1)" by (subst (asm) poll_sync_requests.simps) auto
  show ?case
  proof (cases r)
    case None
    with p less.prems show ?thesis by (subst (asm) poll_sync_requests.simps) auto
  next
    case (Some out)
    with p less.prems(2) obtain st1 where
      o: "on_sync_output D (st\<lparr>sync_requests := q\<rparr>) out = Ret st1"
      and rest: "poll_sync_requests D st1 w1 = Ret (st', w')"
      by (subst (asm) poll_sync_requests.simps) auto
    have "inv (cn_chain st1) \<and> grows (hdrs (cn_chain st)) (hdrs (cn_chain st1)) \<and>
        sync_requests st1 = q"
      using o add_headers_grows [OF less.prems(1)] assms less.prems(1)
      by (auto simp: on_sync_output_def elim!: obind_RetE split: sum.splits)
    with less.hyps [OF _ _ rest] poll_syncers_length [OF p] Some grows_trans
    show ?thesis by auto
  qed
qed

lemma poll_grows:
  assumes "nd_tree D = B" and "inv (cn_chain st)"
    and poll: "chain_net_poll D st w = Ret (r, st', w')"
  shows "inv (cn_chain st') \<and> grows (hdrs (cn_chain st)) (hdrs (cn_chain st'))"
proof -
  from poll obtain st1 w1 st2 w2 st3 w3 where
    1: "poll_events D (event_recv st) st w = Ret (st1, w1)"
    and 2: "poll_closest_peers D st1 w1 = Ret (st2, w2)"
    and 3: "poll_sync_requests D st2 w2 = Ret (st3, w3)" and "cn_chain st' = cn_chain st3"
    by (auto simp: chain_net_poll_def elim!: obind_RetE)
  moreover have "cn_chain st2 = cn_chain st1"
    using 2 by (auto simp: poll_closest_peers_def send_sync_requests_def Let_def elim!: obind_RetE
        split: option.splits poll.splits sum.splits prod.splits)
  moreover note poll_events_grows [OF assms(1,2) 1]
  ultimately show ?thesis
    using poll_sync_requests_grows [OF assms(1) _ 3] grows_trans by auto
qed

end

section \<open>Adding what a synchronisation downloaded\<close>

text \<open>Headers that follow one another, the first one after the header \<open>p\<close>.\<close>

fun extends :: "header \<Rightarrow> header list \<Rightarrow> bool" where
  "extends p [] \<longleftrightarrow> True"
| "extends p (h # hs) \<longleftrightarrow> number p < number h \<and> number h = number p + 1 \<and>
     parent_hash h = hash p \<and> extends h hs"

definition store_all :: "header_map \<Rightarrow> header list \<Rightarrow> header_map" where
  "store_all m hs = fold (\<lambda>h m. m(number h \<mapsto> h)) hs m"

lemma store_all_simps [simp]:
  "store_all m [] = m" "store_all m (h # hs) = store_all (m(number h \<mapsto> h)) hs"
  by (simp_all add: store_all_def)

lemma tip_header_upd:
  assumes "wf_headers m" and "tip_number m < number h"
  shows "tip_header (m(number h \<mapsto> h)) = h"
  using tip_number_upd [OF assms(1), of "number h" h] assms(2)
  by (simp add: tip_header_def)

lemma add_spec_child:
  assumes "wf_headers m" and "number g = 0" and "tip_number m < number h"
    and "number h = tip_number m + 1" and "parent_hash h = hash (tip_header m)"
  shows "add_spec checks g m h = Ret (Inr ExtendTip, m(number h \<mapsto> h))"
proof -
  have "number h \<noteq> 0" using assms(3) by auto
  then have "h \<noteq> g" using assms(2) by auto
  with \<open>number h \<noteq> 0\<close> assms tip_header_lookup [OF assms(1)] show ?thesis
    by (simp add: add_spec_def parent_spec_def)
qed

context reliable_block_tree
begin

lemma add_child:
  assumes "inv b" and "extends (tip_header (hdrs b)) [h]"
  shows "\<exists>b'. bt_try_add_block_header B b h = Ret (Inr ExtendTip, b') \<and> inv b' \<and>
    hdrs b' = (hdrs b)(number h \<mapsto> h)"
proof -
  note wf = inv_wf [OF assms(1)]
  have "tip_number (hdrs b) < number h" "number h = tip_number (hdrs b) + 1"
    "parent_hash h = hash (tip_header (hdrs b))"
    using assms(2) unfolding extends.simps tip_header_number [OF wf] by blast+
  from add_eq [OF assms(1) add_spec_child [OF wf genesis_number this]] show ?thesis .
qed

lemma add_headers_extends:
  "inv b \<Longrightarrow> extends (tip_header (hdrs b)) hs \<Longrightarrow>
    \<exists>b'. (\<forall>rest. add_headers B b (hs @ rest) = add_headers B b' rest) \<and> inv b' \<and>
      hdrs b' = store_all (hdrs b) hs \<and> tip_header (hdrs b') = last (tip_header (hdrs b) # hs)"
proof (induction hs arbitrary: b)
  case (Cons h hs)
  from Cons.prems add_child [of b h] obtain b1 where
    add: "bt_try_add_block_header B b h = Ret (Inr ExtendTip, b1)" and i: "inv b1"
    and m: "hdrs b1 = (hdrs b)(number h \<mapsto> h)" by auto
  have t: "tip_header (hdrs b1) = h"
  proof -
    note wf = inv_wf [OF Cons.prems(1)]
    have "tip_number (hdrs b) < number h"
      using Cons.prems(2) unfolding extends.simps tip_header_number [OF wf] by blast
    from tip_header_upd [OF wf this] show ?thesis unfolding m .
  qed
  from Cons.prems(2) have "extends (tip_header (hdrs b1)) hs" unfolding t by simp
  from Cons.IH [OF i this] obtain b' where
    "\<forall>rest. add_headers B b1 (hs @ rest) = add_headers B b' rest" "inv b'"
    "hdrs b' = store_all (hdrs b1) hs" "tip_header (hdrs b') = last (tip_header (hdrs b1) # hs)"
    by blast
  then show ?case
    unfolding t by (intro exI [of _ b'] conjI) (simp_all add: add m)
qed auto

text \<open>A header that is not accepted ends the addition; the chain keeps what it has.\<close>

lemma add_headers_stops:
  assumes "inv b" and "add_spec checks (bt_genesis B) (hdrs b) h = Ret (Inl e, m)"
  shows "\<exists>b'. add_headers B b (h # rest) = Ret b' \<and> inv b' \<and> hdrs b' = hdrs b"
  using add_eq [OF assms] add_spec_Inl [OF assms(2)] by auto

lemma add_headers_prefix:
  assumes "inv b" and "extends (tip_header (hdrs b)) hs"
    and "rest = [] \<or> (\<exists>e m. add_spec checks (bt_genesis B) (store_all (hdrs b) hs) (hd rest) =
      Ret (Inl e, m))"
  shows "\<exists>b'. add_headers B b (hs @ rest) = Ret b' \<and> inv b' \<and>
    hdrs b' = store_all (hdrs b) hs \<and> tip_header (hdrs b') = last (tip_header (hdrs b) # hs)"
proof -
  obtain b' where b': "\<forall>rest. add_headers B b (hs @ rest) = add_headers B b' rest" "inv b'"
    "hdrs b' = store_all (hdrs b) hs" "tip_header (hdrs b') = last (tip_header (hdrs b) # hs)"
    using add_headers_extends [OF assms(1,2)] by blast
  show ?thesis
  proof (cases rest)
    case Nil
    then have "add_headers B b (hs @ rest) = Ret b'"
      using spec [OF b'(1), of "[]"] by simp
    with b'(2-4) show ?thesis by blast
  next
    case (Cons h t)
    with assms(3) obtain e m where "add_spec checks (bt_genesis B) (hdrs b') h = Ret (Inl e, m)"
      by (auto simp: b'(3))
    from add_headers_stops [OF b'(2) this, of t] obtain b'' where
      "add_headers B b' rest = Ret b''" "inv b''" "hdrs b'' = hdrs b'" unfolding Cons by blast
    with b' show ?thesis by auto
  qed
qed

text \<open>Every branch of the handler of a new header.\<close>

lemma new_header_result:
  assumes D: "nd_tree D = B" and inv: "inv (cn_chain st)"
    and bc: "bp_broadcast_block_header (nd_provider D) w h = Ret (fut, w1)"
    and add: "add_spec checks (bt_genesis B) (hdrs (cn_chain st)) h = Ret (r, m)"
  shows "\<exists>b. inv b \<and> hdrs b = m \<and> on_new_header D st w h = Ret (case r of
      Inr ExtendTip \<Rightarrow>
        (st\<lparr>cn_chain := b, broadcast_requests := broadcast_requests st @ [fut]\<rparr>, w1)
    | Inl BlockHeaderNotFound \<Rightarrow>
        (if hash h \<in> broadcasted_headers st then start_sync D (st\<lparr>cn_chain := b\<rparr>) w h
         else start_sync D (st\<lparr>cn_chain := b,
           broadcast_requests := broadcast_requests st @ [fut],
           broadcasted_headers := insert (hash h) (broadcasted_headers st)\<rparr>) w1 h)
    | _ \<Rightarrow> (st\<lparr>cn_chain := b\<rparr>, w))"
proof -
  obtain b where b: "bt_try_add_block_header B (cn_chain st) h = Ret (r, b)" "inv b" "hdrs b = m"
    using add_eq [OF inv add] by blast
  note t = tip_eq [OF b(2)]
  have "\<not> db_fault r" using add_spec_no_fault [OF add] .
  then show ?thesis
    using b t bc D
    by (intro exI [of _ b]) (auto simp: on_new_header_def push_broadcast_def tip_or_panic_def Let_def
        db_fault_iff split: sum.splits error.splits added_block_result.splits)
qed

end

section \<open>Polling returns\<close>

lemma sync_poll_keeps_limit:
  assumes "sync_poll checks P s w = Ret (r, s', w')" and "0 < request_limit s"
  shows "request_limit s' = request_limit s"
  by (rule sync_poll_invariant [where I = "\<lambda>t v. request_limit t = request_limit s", OF assms])
    (use drain_responses_keeps issue_requests_Ret(2) in \<open>fastforce+\<close>)

text \<open>The synchronisers in the queue have a positive batch size.\<close>

definition limits_ok :: "'fut sync_header list \<Rightarrow> bool" where
  "limits_ok q \<longleftrightarrow> (\<forall>s \<in> set q. 0 < request_limit s)"

lemma limits_ok_remove: "limits_ok q \<Longrightarrow> limits_ok (remove_nth i q)"
  by (auto simp: limits_ok_def remove_nth_def dest: in_set_takeD in_set_dropD)

lemma limits_ok_update: "limits_ok q \<Longrightarrow> 0 < request_limit s \<Longrightarrow> limits_ok (q[i := s])"
  unfolding limits_ok_def using set_update_subset_insert [of q i s] by fastforce

lemma push_syncers_total:
  "limits_ok q \<Longrightarrow> \<exists>q'. push_syncers P lo hi peers q = Ret q' \<and> limits_ok q' \<and>
    length q' = length q + length peers"
proof (induction peers arbitrary: q)
  case (Cons p ps)
  obtain s :: "'a sync_header" where s: "sync_build (with_peer_id p (with_target_head hi
      (with_local_head_block lo (with_provider P builder_default)))) = Ret (P, s)"
    and "request_limit s = 1000"
    by (simp add: sync_build_def with_peer_id_def with_target_head_def
        with_local_head_block_def with_provider_def builder_default_def)
  then have "limits_ok (q @ [s])" using Cons.prems by (auto simp: limits_ok_def)
  from Cons.IH [OF this] show ?case by (simp add: s)
qed simp

text \<open>What holds of a manager between polls.\<close>

definition manager_ok ::
  "('b \<Rightarrow> bool) \<Rightarrow> ('w \<Rightarrow> 'fut list \<Rightarrow> bool) \<Rightarrow> ('b, 'fut) chain_net \<Rightarrow> 'w \<Rightarrow> bool" where
  "manager_ok chain_ok up st w \<longleftrightarrow> chain_ok (cn_chain st) \<and> limits_ok (sync_requests st) \<and>
     up w (broadcast_requests st)"

text \<open>
  A provider that works: as long as \<open>up\<close> holds of its world and of the broadcasts in flight,
  no call panics, and every call keeps it so.
\<close>

locale working_provider =
  fixes P :: "('w, 'fut) provider"
    and up :: "'w \<Rightarrow> 'fut list \<Rightarrow> bool"
  assumes header_sent: "up w fs \<Longrightarrow>
      \<exists>fut w'. bp_broadcast_block_header P w h = Ret (fut, w') \<and> up w' (fs @ [fut])"
    and transactions_sent: "up w fs \<Longrightarrow>
      \<exists>fut w'. bp_broadcast_transactions P w txs = Ret (fut, w') \<and> up w' (fs @ [fut])"
    and broadcast_polled: "up w fs \<Longrightarrow> \<exists>r w'. bp_poll_next P w fs = Ret (r, w') \<and>
      up w' (case r of None \<Rightarrow> fs
        | Some (i, res) \<Rightarrow> if i < length fs then remove_nth i fs else fs)"
    and get_up: "up w fs \<Longrightarrow> hp_get_headers P w peer r = (f, w') \<Longrightarrow> up w' fs"
    and poll_up: "up w fs \<Longrightarrow> hp_poll_next P w gs = (x, w') \<Longrightarrow> up w' fs"
    and drop_up: "up w fs \<Longrightarrow> up (hp_drop P w gs) fs"
    and peers_up: "up w fs \<Longrightarrow> pp_get_closest_peers P w = (f, w') \<Longrightarrow> up w' fs"
    and poll_peers_up: "up w fs \<Longrightarrow> pp_poll P w f = (y, w') \<Longrightarrow> up w' fs"
    and fewer_up: "up w fs \<Longrightarrow> set gs \<subseteq> set fs \<Longrightarrow> up w gs"
begin

lemma poll_broadcasts_total:
  "up w q \<Longrightarrow> \<exists>q' w'. poll_broadcasts P q w = Ret (q', w') \<and> up w' q'"
proof (induction "length q" arbitrary: q w rule: less_induct)
  case less
  obtain r w1 where p: "bp_poll_next P w q = Ret (r, w1)"
    and u: "up w1 (case r of None \<Rightarrow> q
      | Some (i, res) \<Rightarrow> if i < length q then remove_nth i q else q)"
    using broadcast_polled [OF less.prems] by blast
  show ?case
  proof (cases "\<exists>i res. r = Some (i, res) \<and> i < length q")
    case True
    then obtain i res where r: "r = Some (i, res)" and i: "i < length q" by blast
    from less.hyps [OF length_remove_nth [OF i]] u show ?thesis
      by (subst poll_broadcasts.simps) (simp add: p r i)
  next
    case False
    with u show ?thesis
      by (subst poll_broadcasts.simps) (auto simp: p split: option.splits)
  qed
qed

lemma start_sync_up:
  assumes "nd_provider D = P" and "up w (broadcast_requests st)"
  shows "up (snd (start_sync D st w h)) (broadcast_requests (fst (start_sync D st w h)))"
  using assms peers_up [OF assms(2)] by (simp add: start_sync_def split: prod.splits)

lemma poll_syncers_total:
  assumes D: "nd_provider D = P"
  shows "limits_ok q \<Longrightarrow> up w fs \<Longrightarrow>
    \<exists>r q' w'. poll_syncers D is q w = Ret (r, q', w') \<and> limits_ok q' \<and> up w' fs"
proof (induction "is" arbitrary: q w)
  case (Cons i "is")
  show ?case
  proof (cases "i < length q")
    case True
    then have lim: "0 < request_limit (q ! i)" using Cons.prems by (simp add: limits_ok_def)
    then obtain r s w' where poll: "sync_poll (nd_checks D) P (q ! i) w = Ret (r, s, w')"
      using sync_loop_returns [of "q ! i" "nd_checks D" P w] by (auto simp: sync_poll_loop)
    note ok = limits_ok_update [OF Cons.prems(1), of s i] limits_ok_remove [OF Cons.prems(1), of i]
    have u: "up w' fs"
      by (rule sync_poll_world [where Q = "\<lambda>w. up w fs" and P = P, OF _ _ poll lim Cons.prems(2)])
        (erule (1) poll_up, erule (1) get_up)
    then have "up (hp_drop P w' (in_progress_queue s)) fs" by (rule drop_up)
    with u Cons.IH [of "q[i := s]" w'] ok True poll lim sync_poll_keeps_limit [OF poll lim] D
    show ?thesis by (cases r) auto
  qed (use Cons in auto)
qed simp

end

text \<open>
  A manager built without overflow checks, on storage that does not fail and with a provider
  that works.
\<close>

locale running_manager =
  reliable_block_tree B False inv hdrs + working_provider "nd_provider D" up
  for B :: "'b block_tree" and inv hdrs and D :: "('b, 'w, 'fut) net_deps" and up +
  assumes tree: "nd_tree D = B"
    and no_checks: "\<not> nd_checks D"
    and respond_up: "up w fs \<Longrightarrow> up (nd_respond D c v w) fs"
begin

lemma headers_loop_total: "inv b \<Longrightarrow> \<exists>hs. headers_loop False B b k n acc = Ret hs"
proof (induction k arbitrary: n acc)
  case (Suc k)
  then show ?case
    using lookup_eq [OF Suc.prems, of n] by (auto simp: found_def split: option.splits)
qed simp

lemma add_spec_total: "\<exists>r m. add_spec False (bt_genesis B) (hdrs b) h = Ret (r, m)"
  by (cases rule: parent_spec_cases [of h "bt_genesis B" False "hdrs b"]) (auto simp: add_spec_def)

lemma new_header_total:
  assumes "manager_ok inv up st w"
  shows "\<exists>st' w'. on_new_header D st w h = Ret (st', w') \<and> up w' (broadcast_requests st')"
proof -
  from assms have i: "inv (cn_chain st)" and u: "up w (broadcast_requests st)"
    by (simp_all add: manager_ok_def)
  obtain fut w1 where bc: "bp_broadcast_block_header (nd_provider D) w h = Ret (fut, w1)"
    and u1: "up w1 (broadcast_requests st @ [fut])" using header_sent [OF u] by blast
  obtain r m where add: "add_spec False (bt_genesis B) (hdrs (cn_chain st)) h = Ret (r, m)"
    using add_spec_total by blast
  obtain b out where res: "on_new_header D st w h = Ret out" and out: "out = (case r of
      Inr ExtendTip \<Rightarrow>
        (st\<lparr>cn_chain := b, broadcast_requests := broadcast_requests st @ [fut]\<rparr>, w1)
    | Inl BlockHeaderNotFound \<Rightarrow>
        (if hash h \<in> broadcasted_headers st then start_sync D (st\<lparr>cn_chain := b\<rparr>) w h
         else start_sync D (st\<lparr>cn_chain := b,
           broadcast_requests := broadcast_requests st @ [fut],
           broadcasted_headers := insert (hash h) (broadcasted_headers st)\<rparr>) w1 h)
    | _ \<Rightarrow> (st\<lparr>cn_chain := b\<rparr>, w))"
    using new_header_result [OF tree i bc add] by blast
  have s: "up (snd (start_sync D st' w' h)) (broadcast_requests (fst (start_sync D st' w' h)))"
    if "up w' (broadcast_requests st')" for st' :: "('b, 'fut) chain_net" and w'
    using start_sync_up [OF refl that] .
  have "up (snd out) (broadcast_requests (fst out))"
    unfolding out
    using u u1 s [of w "st\<lparr>cn_chain := b\<rparr>"] s [of w1 "st\<lparr>cn_chain := b,
      broadcast_requests := broadcast_requests st @ [fut],
      broadcasted_headers := insert (hash h) (broadcasted_headers st)\<rparr>"]
    by (auto split: sum.splits error.splits added_block_result.splits)
  then show ?thesis by (intro exI [of _ "fst out"] exI [of _ "snd out"]) (simp add: res)
qed

lemma on_event_total:
  assumes "manager_ok inv up st w"
  shows "\<exists>st' w'. on_event D st w e = Ret (st', w') \<and> manager_ok inv up st' w'"
proof -
  from assms have i: "inv (cn_chain st)" and u: "up w (broadcast_requests st)"
    and l: "limits_ok (sync_requests st)" by (simp_all add: manager_ok_def)
  have "\<exists>st' w'. on_event D st w e = Ret (st', w') \<and> up w' (broadcast_requests st')"
  proof (cases e)
    case (IncomingNewBlockHeader h)
    with new_header_total [OF assms] show ?thesis by simp
  next
    case (IncomingTransactions txs)
    with transactions_sent [OF u, of txs] show ?thesis by (auto split: prod.splits)
  next
    case (GetBlockHeaders respond channel request)
    obtain hs where "handle_get_block_headers_request False B (cn_chain st) request = Ret hs"
      using headers_loop_total [OF i] unfolding handle_get_block_headers_request_def by blast
    with GetBlockHeaders respond_up [OF u] tree no_checks show ?thesis by simp
  qed
  with on_event_grows [OF tree i] l show ?thesis unfolding manager_ok_def by metis
qed

lemma poll_events_total:
  "manager_ok inv up st w \<Longrightarrow> \<exists>st' w'. poll_events D es st w = Ret (st', w') \<and> manager_ok inv up st' w'"
proof (induction es arbitrary: st w)
  case (Cons e es)
  let ?st = "st\<lparr>event_recv := es\<rparr>"
  have "manager_ok inv up ?st w" using Cons.prems by (simp add: manager_ok_def)
  from on_event_total [OF this] obtain st1 w1 where e: "on_event D ?st w e = Ret (st1, w1)"
    and "manager_ok inv up st1 w1" by blast
  with Cons.IH [of st1 w1] show ?case by simp
qed simp

lemma send_sync_requests_total:
  assumes "inv (cn_chain st)" and "limits_ok (sync_requests st)"
  shows "\<exists>st'. send_sync_requests D st h peers = Ret st' \<and> cn_chain st' = cn_chain st \<and>
    limits_ok (sync_requests st') \<and> broadcast_requests st' = broadcast_requests st"
proof -
  obtain q where "push_syncers (nd_provider D) (number (tip_header (hdrs (cn_chain st))))
      (number h) peers (sync_requests st) = Ret q" "limits_ok q"
    using push_syncers_total [OF assms(2), of "nd_provider D"] by blast
  then show ?thesis
    using tree tip_eq [OF assms(1)] by (simp add: send_sync_requests_def tip_or_panic_def)
qed

lemma poll_closest_peers_total:
  assumes "manager_ok inv up st w"
  shows "\<exists>st' w'. poll_closest_peers D st w = Ret (st', w') \<and> manager_ok inv up st' w'"
proof (cases "closest_peers_request_for_sync st")
  case None
  with assms show ?thesis by (simp add: poll_closest_peers_def)
next
  case (Some req)
  let ?st = "st\<lparr>closest_peers_request_for_sync := None\<rparr>"
  obtain out w1 where p: "peers_request_poll D w req = (out, w1)" by fastforce
  have u: "up w1 (broadcast_requests st)"
    using poll_peers_up [of w "broadcast_requests st" "pr_fut req"] assms p
    by (auto simp: manager_ok_def peers_request_poll_def split: prod.splits poll.splits)
  show ?thesis
  proof (cases "\<exists>o' peers. out = Ready o' \<and> po_outcome o' = Inr peers")
    case True
    then obtain o' peers where o: "out = Ready o'" "po_outcome o' = Inr peers" by blast
    from send_sync_requests_total [of ?st "po_header o'" peers] assms u show ?thesis
      by (auto simp: poll_closest_peers_def Some p o Let_def manager_ok_def)
  next
    case False
    with assms u show ?thesis
      by (cases out) (auto simp: poll_closest_peers_def Some p Let_def manager_ok_def
          split: sum.splits)
  qed
qed

lemma add_headers_total: "inv b \<Longrightarrow> \<exists>b'. add_headers B b hs = Ret b'"
proof (induction hs arbitrary: b)
  case (Cons h hs)
  obtain r m where spec: "add_spec False (bt_genesis B) (hdrs b) h = Ret (r, m)"
    using add_spec_total by blast
  from add_eq [OF Cons.prems this] obtain b1 where
    "bt_try_add_block_header B b h = Ret (r, b1)" "inv b1" by blast
  with Cons.IH [of b1] add_spec_no_fault [OF spec] show ?case
    by (auto simp: db_fault_iff split: sum.splits error.splits)
qed simp

lemma on_sync_output_total:
  assumes "manager_ok inv up st w"
  shows "\<exists>st'. on_sync_output D st out = Ret st' \<and> manager_ok inv up st' w \<and>
    sync_requests st' = sync_requests st"
proof (cases out)
  case (Inr hs)
  have i: "inv (cn_chain st)" using assms by (simp add: manager_ok_def)
  obtain b where b: "add_headers B (cn_chain st) hs = Ret b"
    using add_headers_total [OF i] by blast
  from add_headers_grows [OF i b] tip_eq [of b] tree b Inr assms show ?thesis
    by (simp add: on_sync_output_def tip_or_panic_def manager_ok_def)
qed (use assms in \<open>simp add: on_sync_output_def\<close>)

lemma poll_sync_requests_total:
  "manager_ok inv up st w \<Longrightarrow> \<exists>st' w'. poll_sync_requests D st w = Ret (st', w') \<and> manager_ok inv up st' w'"
proof (induction "length (sync_requests st)" arbitrary: st w rule: less_induct)
  case less
  then obtain r q w1 where
    p: "poll_syncers D (nd_woken D w (length (sync_requests st))) (sync_requests st) w =
      Ret (r, q, w1)" and q: "limits_ok q" "up w1 (broadcast_requests st)"
    using poll_syncers_total [OF refl, of "sync_requests st" w "broadcast_requests st"]
    unfolding manager_ok_def by blast
  let ?st = "st\<lparr>sync_requests := q\<rparr>"
  have run: "manager_ok inv up ?st w1" using less.prems q by (simp add: manager_ok_def)
  show ?case
  proof (cases r)
    case None
    with run show ?thesis by (subst poll_sync_requests.simps) (simp add: p)
  next
    case (Some out)
    from on_sync_output_total [OF run, of out] obtain st1 where
      o: "on_sync_output D ?st out = Ret st1" and "manager_ok inv up st1 w1"
      and s: "sync_requests st1 = q" by auto
    have "length (sync_requests st1) < length (sync_requests st)"
      using poll_syncers_length [OF p] Some s by simp
    from less.hyps [OF this \<open>manager_ok inv up st1 w1\<close>] show ?thesis
      by (subst poll_sync_requests.simps) (simp add: p Some o)
  qed
qed

lemma poll_total:
  assumes "manager_ok inv up st w"
  shows "\<exists>st' w'. chain_net_poll D st w = Ret (Pending, st', w') \<and> manager_ok inv up st' w'"
proof -
  obtain st1 w1 where 1: "poll_events D (event_recv st) st w = Ret (st1, w1)" "manager_ok inv up st1 w1"
    using poll_events_total [OF assms] by blast
  obtain st2 w2 where 2: "poll_closest_peers D st1 w1 = Ret (st2, w2)" "manager_ok inv up st2 w2"
    using poll_closest_peers_total [OF 1(2)] by blast
  obtain st3 w3 where 3: "poll_sync_requests D st2 w2 = Ret (st3, w3)" "manager_ok inv up st3 w3"
    using poll_sync_requests_total [OF 2(2)] by blast
  obtain q w4 where 4: "poll_broadcasts (nd_provider D) (broadcast_requests st3) w3 = Ret (q, w4)"
    "up w4 q"
    using poll_broadcasts_total 3(2) unfolding manager_ok_def by blast
  from 1 2 3 4 show ?thesis by (simp add: chain_net_poll_def manager_ok_def)
qed

end

section \<open>A synchronisation that failed is never retried\<close>

text \<open>
  The flag \<open>pending_sync_request\<close> is only reset when a synchronisation succeeds. When none
  is left that could, no later event starts another one.
\<close>

definition sync_stuck :: "('b, 'fut) chain_net \<Rightarrow> bool" where
  "sync_stuck st \<longleftrightarrow> pending_sync_request st \<and> closest_peers_request_for_sync st = None \<and>
     sync_requests st = []"

lemma start_sync_stuck: "pending_sync_request st \<Longrightarrow> start_sync D st w h = (st, w)"
  by (simp add: start_sync_def)

lemma on_event_stuck:
  "sync_stuck st \<Longrightarrow> on_event D st w e = Ret (st', w') \<Longrightarrow> sync_stuck st'"
  by (cases e) (auto simp: sync_stuck_def on_new_header_def push_broadcast_def start_sync_def
      Let_def elim!: obind_RetE split: sum.splits error.splits added_block_result.splits
      if_splits prod.splits)

lemma poll_events_stuck:
  "sync_stuck st \<Longrightarrow> poll_events D es st w = Ret (st', w') \<Longrightarrow> sync_stuck st'"
proof (induction es arbitrary: st w)
  case (Cons e es)
  from Cons.prems(2) obtain st1 w1 where
    e: "on_event D (st\<lparr>event_recv := es\<rparr>) w e = Ret (st1, w1)"
    and es: "poll_events D es st1 w1 = Ret (st', w')" by auto
  have "sync_stuck (st\<lparr>event_recv := es\<rparr>)" using Cons.prems(1) by (simp add: sync_stuck_def)
  from Cons.IH [OF on_event_stuck [OF this e] es] show ?case .
qed simp

lemma poll_stuck:
  assumes "sync_stuck st" and "chain_net_poll D st w = Ret (r, st', w')"
  shows "sync_stuck st'"
proof -
  from assms(2) obtain st1 w1 st2 w2 st3 w3 q where
    1: "poll_events D (event_recv st) st w = Ret (st1, w1)"
    and 2: "poll_closest_peers D st1 w1 = Ret (st2, w2)"
    and 3: "poll_sync_requests D st2 w2 = Ret (st3, w3)"
    and st': "st' = st3\<lparr>broadcast_requests := q\<rparr>"
    by (auto simp: chain_net_poll_def elim!: obind_RetE)
  have s: "sync_stuck st1" using poll_events_stuck [OF assms(1) 1] .
  then have "st2 = st1" using 2 by (simp add: sync_stuck_def poll_closest_peers_def)
  with s 3 have "st3 = st1\<lparr>sync_requests := []\<rparr>"
    by (subst (asm) poll_sync_requests.simps) (auto simp: sync_stuck_def)
  with s st' show ?thesis by (simp add: sync_stuck_def)
qed

text \<open>
  A run of the manager: between two polls other tasks act (events arrive, the shared chain
  and pool change, the world moves on).
\<close>

inductive manager_run ::
  "('b, 'w, 'fut) net_deps \<Rightarrow> ('b, 'fut) chain_net \<Rightarrow> 'w \<Rightarrow> ('b, 'fut) chain_net \<Rightarrow> 'w \<Rightarrow> bool"
  for D st0 w0 where
  start: "manager_run D st0 w0 st0 w0"
| others: "manager_run D st0 w0 st w \<Longrightarrow>
    manager_run D st0 w0
      (st\<lparr>cn_chain := b, cn_pool := pool, event_recv := event_recv st @ es\<rparr>) w'"
| polled: "manager_run D st0 w0 st w \<Longrightarrow> chain_net_poll D st w = Ret (r, st', w') \<Longrightarrow>
    manager_run D st0 w0 st' w'"

lemma manager_run_stuck: "manager_run D st0 w0 st w \<Longrightarrow> sync_stuck st0 \<Longrightarrow> sync_stuck st"
proof (induction rule: manager_run.induct)
  case (others st w b pool es w')
  then show ?case by (simp add: sync_stuck_def)
next
  case (polled st w r st' w')
  then show ?case using poll_stuck [OF polled.IH [OF polled.prems] polled.hyps(2)] by simp
qed simp

text \<open>How it gets there: no peers, or an error, in answer to the request for peers.\<close>

lemma no_peers_stuck:
  assumes "closest_peers_request_for_sync st = Some req" and "pending_sync_request st"
    and "sync_requests st = []" and "pp_poll (nd_provider D) w (pr_fut req) = (Ready r, w')"
    and "r = Inr [] \<or> (\<exists>e. r = Inl e)"
    and "poll_closest_peers D st w = Ret (st', v)"
  shows "sync_stuck st'"
  using assms by (auto simp: poll_closest_peers_def peers_request_poll_def send_sync_requests_def
      sync_stuck_def Let_def elim!: obind_RetE)

end
