(* ===== verification/Provider.thy ===== *)
theory Provider
  imports Sync_Header Messages
begin

text \<open>
  The network provider (\<^verbatim>\<open>src/src/net/provider.rs\<close>): every operation opens a oneshot
  channel, sends a command with its sender to the network task and returns a future on its
  receiver. The world of the provider is the command queue and the channels.
\<close>

section \<open>Commands and futures\<close>

record net_world =
  command_open :: bool
  commands :: "network_provider_message list"
  channels :: chans

text \<open>
  The futures the operations return, by what they do with the receiver. The request in a
  \<open>HeadersFut\<close> is for specifications only. \<open>Failed\<close> is an \<open>async fn\<close> that ended before it
  waited.
\<close>

datatype net_fut =
    HeadersFut handle headers_request
  | PeersFut handle
  | BroadcastFut handle
  | ListenFut handle
  | DialFut handle
  | AddrsFut handle
  | Failed request_error

definition send_command ::
  "net_world \<Rightarrow> network_provider_message \<Rightarrow> request_error + net_world" where
  "send_command w cmd =
     (if command_open w then Inr (w\<lparr>commands := commands w @ [cmd]\<rparr>)
      else Inl (from_send_error ''channel closed''))"

text \<open>A failed send gives the command back, and dropping it drops the sender in it.\<close>

definition np_start_listening :: "net_world \<Rightarrow> multiaddr \<Rightarrow> (net_fut \<times> net_world) outcome" where
  "np_start_listening w addr =
     (let (tx, cs) = oneshot_channel None (channels w) in
      obind (expect ''Receiver not to be dropped.''
        (send_command (w\<lparr>channels := cs\<rparr>) (StartListening addr tx))) (\<lambda>w'.
      Ret (ListenFut tx, w')))"

definition np_dial :: "net_world \<Rightarrow> peer_id \<Rightarrow> multiaddr \<Rightarrow> net_fut \<times> net_world" where
  "np_dial w p addr =
     (let (tx, cs) = oneshot_channel None (channels w) in
      case send_command (w\<lparr>channels := cs\<rparr>) (Dial p addr tx) of
        Inl e \<Rightarrow> (Failed e, w\<lparr>channels := drop_receiver tx (drop_sender tx cs)\<rparr>)
      | Inr w' \<Rightarrow> (DialFut tx, w'))"

definition np_listen_addrs :: "net_world \<Rightarrow> net_fut \<times> net_world" where
  "np_listen_addrs w =
     (let (tx, cs) = oneshot_channel None (channels w) in
      case send_command (w\<lparr>channels := cs\<rparr>) (ListenAddrs tx) of
        Inl e \<Rightarrow> (Failed e, w\<lparr>channels := drop_receiver tx (drop_sender tx cs)\<rparr>)
      | Inr w' \<Rightarrow> (AddrsFut tx, w'))"

definition np_get_closest_peers :: "net_world \<Rightarrow> net_fut \<times> net_world" where
  "np_get_closest_peers w =
     (let (tx, cs) = oneshot_channel None (channels w) in
      case send_command (w\<lparr>channels := cs\<rparr>) (GetClosestPeers tx) of
        Inl e \<Rightarrow> (PeersFut tx, w\<lparr>channels := drop_sender tx cs\<rparr>)
      | Inr w' \<Rightarrow> (PeersFut tx, w'))"

definition np_get_headers ::
  "net_world \<Rightarrow> peer_id \<Rightarrow> headers_request \<Rightarrow> net_fut \<times> net_world" where
  "np_get_headers w p r =
     (let (tx, cs) = oneshot_channel (Some r) (channels w) in
      case send_command (w\<lparr>channels := cs\<rparr>)
          (GetHeaders \<lparr>ghr_peer = p, ghr_request = r, ghr_sender = tx\<rparr>) of
        Inl e \<Rightarrow> (HeadersFut tx r, w\<lparr>channels := drop_sender tx cs\<rparr>)
      | Inr w' \<Rightarrow> (HeadersFut tx r, w'))"

definition np_broadcast_block_header ::
  "net_world \<Rightarrow> header \<Rightarrow> (net_fut \<times> net_world) outcome" where
  "np_broadcast_block_header w h =
     (let (tx, cs) = oneshot_channel None (channels w) in
      obind (expect ''Receiver not to be dropped.''
        (send_command (w\<lparr>channels := cs\<rparr>) (BroadcastBlockHeader h tx))) (\<lambda>w'.
      Ret (BroadcastFut tx, w')))"

definition np_broadcast_transactions ::
  "net_world \<Rightarrow> transaction list \<Rightarrow> (net_fut \<times> net_world) outcome" where
  "np_broadcast_transactions w txs =
     (let (tx, cs) = oneshot_channel None (channels w) in
      obind (expect ''Receiver not to be dropped.''
        (send_command (w\<lparr>channels := cs\<rparr>) (BroadcastTransactions tx txs))) (\<lambda>w'.
      Ret (BroadcastFut tx, w')))"

section \<open>Polling the futures\<close>

text \<open>
  A channel only carries replies of its own type, so the last clause of each function is for
  replies that do not occur.
\<close>

fun poll_headers_fut :: "chans \<Rightarrow> net_fut \<Rightarrow> headers_response request_response poll" where
  "poll_headers_fut cs (HeadersFut c r) =
     (case poll_receiver c cs of
        Ready (Inr (HeadersReply v)) \<Rightarrow> Ready v
      | Ready (Inl e) \<Rightarrow> Ready (Inl e)
      | _ \<Rightarrow> Pending)"
| "poll_headers_fut cs (Failed e) = Ready (Inl e)"
| "poll_headers_fut cs _ = Pending"

fun poll_peers_fut :: "chans \<Rightarrow> net_fut \<Rightarrow> peer_id list request_response poll" where
  "poll_peers_fut cs (PeersFut c) =
     (case poll_receiver c cs of
        Ready (Inr (PeersReply v)) \<Rightarrow> Ready v
      | Ready (Inl e) \<Rightarrow> Ready (Inl e)
      | _ \<Rightarrow> Pending)"
| "poll_peers_fut cs (Failed e) = Ready (Inl e)"
| "poll_peers_fut cs _ = Pending"

text \<open>
  The futures with the value \<open>()\<close>: those of a broadcast and of \<open>start_listening\<close> expect an
  answer, the one of \<open>dial\<close> passes the error on.
\<close>

fun poll_unit_fut :: "chans \<Rightarrow> net_fut \<Rightarrow> unit request_response poll outcome" where
  "poll_unit_fut cs (BroadcastFut c) =
     (case poll_receiver c cs of
        Ready (Inr (UnitReply v)) \<Rightarrow> Ret (Ready v)
      | Ready (Inl e) \<Rightarrow> Panic ''Sender not to be dropped''
      | _ \<Rightarrow> Ret Pending)"
| "poll_unit_fut cs (ListenFut c) =
     (case poll_receiver c cs of
        Ready (Inr (UnitReply v)) \<Rightarrow> Ret (Ready v)
      | Ready (Inl e) \<Rightarrow> Panic ''Sender not to be dropped.''
      | _ \<Rightarrow> Ret Pending)"
| "poll_unit_fut cs (DialFut c) =
     (case poll_receiver c cs of
        Ready (Inr (UnitReply v)) \<Rightarrow> Ret (Ready v)
      | Ready (Inl e) \<Rightarrow> Ret (Ready (Inl e))
      | _ \<Rightarrow> Ret Pending)"
| "poll_unit_fut cs (Failed e) = Ret (Ready (Inl e))"
| "poll_unit_fut cs _ = Ret Pending"

text \<open>
  \<open>FuturesUnordered\<close> yields some future that is ready; which one is the choice of \<open>pick\<close>
  (a choice that is not ready is replaced by the first one that is).
\<close>

definition pick_ready :: "('w \<Rightarrow> nat list \<Rightarrow> nat) \<Rightarrow> 'w \<Rightarrow> nat list \<Rightarrow> nat option" where
  "pick_ready pick w rs =
     (if rs = [] then None else Some (if pick w rs \<in> set rs then pick w rs else hd rs))"

lemma pick_ready_None [simp]: "pick_ready pick w rs = None \<longleftrightarrow> rs = []"
  by (simp add: pick_ready_def)

lemma pick_ready_Some: "pick_ready pick w rs = Some i \<Longrightarrow> i \<in> set rs"
  by (auto simp: pick_ready_def split: if_splits)

definition np_poll_headers ::
  "(net_world \<Rightarrow> nat list \<Rightarrow> nat) \<Rightarrow> net_world \<Rightarrow> net_fut list \<Rightarrow>
     (nat \<times> headers_response request_response) option \<times> net_world" where
  "np_poll_headers pick w fs =
     (case pick_ready pick w
         (filter (\<lambda>i. poll_headers_fut (channels w) (fs ! i) \<noteq> Pending) [0..<length fs]) of
        None \<Rightarrow> (None, w)
      | Some i \<Rightarrow> (case poll_headers_fut (channels w) (fs ! i) of
            Ready r \<Rightarrow> (Some (i, r), w) | Pending \<Rightarrow> (None, w)))"

definition np_poll_broadcasts ::
  "(net_world \<Rightarrow> nat list \<Rightarrow> nat) \<Rightarrow> net_world \<Rightarrow> net_fut list \<Rightarrow>
     ((nat \<times> unit request_response) option \<times> net_world) outcome" where
  "np_poll_broadcasts pick w fs =
     (case pick_ready pick w
         (filter (\<lambda>i. poll_unit_fut (channels w) (fs ! i) \<noteq> Ret Pending) [0..<length fs]) of
        None \<Rightarrow> Ret (None, w)
      | Some i \<Rightarrow> obind (poll_unit_fut (channels w) (fs ! i)) (\<lambda>p. case p of
            Ready r \<Rightarrow> Ret (Some (i, r), w) | Pending \<Rightarrow> Ret (None, w)))"

fun fut_channel :: "net_fut \<Rightarrow> handle option" where
  "fut_channel (HeadersFut c r) = Some c"
| "fut_channel (PeersFut c) = Some c"
| "fut_channel (BroadcastFut c) = Some c"
| "fut_channel (ListenFut c) = Some c"
| "fut_channel (DialFut c) = Some c"
| "fut_channel (AddrsFut c) = Some c"
| "fut_channel (Failed e) = None"

definition np_drop :: "net_world \<Rightarrow> net_fut list \<Rightarrow> net_world" where
  "np_drop w fs = w\<lparr>channels := fold (\<lambda>f cs. case fut_channel f of
     None \<Rightarrow> cs | Some c \<Rightarrow> drop_receiver c cs) fs (channels w)\<rparr>"

definition network_provider ::
  "(net_world \<Rightarrow> nat list \<Rightarrow> nat) \<Rightarrow> (net_world, net_fut) provider" where
  "network_provider pick = \<lparr>hp_get_headers = np_get_headers, hp_poll_next = np_poll_headers pick,
     hp_drop = np_drop, pp_get_closest_peers = np_get_closest_peers,
     pp_poll = (\<lambda>w f. (poll_peers_fut (channels w) f, w)),
     bp_broadcast_block_header = np_broadcast_block_header,
     bp_broadcast_transactions = np_broadcast_transactions,
     bp_poll_next = np_poll_broadcasts pick\<rparr>"

lemma network_provider_simps [simp]:
  "hp_get_headers (network_provider pick) = np_get_headers"
  "hp_poll_next (network_provider pick) = np_poll_headers pick"
  "hp_drop (network_provider pick) = np_drop"
  "pp_get_closest_peers (network_provider pick) = np_get_closest_peers"
  "pp_poll (network_provider pick) = (\<lambda>w f. (poll_peers_fut (channels w) f, w))"
  "bp_broadcast_block_header (network_provider pick) = np_broadcast_block_header"
  "bp_broadcast_transactions (network_provider pick) = np_broadcast_transactions"
  "bp_poll_next (network_provider pick) = np_poll_broadcasts pick"
  by (simp_all add: network_provider_def)

text \<open>Sending the headers a peer asked for back to the network task, which may be gone.\<close>

definition net_respond ::
  "handle \<Rightarrow> get_block_headers_response request_response \<Rightarrow> net_world \<Rightarrow> net_world" where
  "net_respond c v w = (case oneshot_send c (BlockHeadersReply v) (channels w) of
     Inl _ \<Rightarrow> w | Inr cs \<Rightarrow> w\<lparr>channels := cs\<rparr>)"

section \<open>The provider as a source of headers\<close>

text \<open>
  The network task fills channels that wait: a channel opened for a request with the peer's
  answer to it, or with an error; it may also drop senders and open channels of its own.
\<close>

definition honest_reply ::
  "(headers_request \<Rightarrow> headers_response) \<Rightarrow> headers_request option \<Rightarrow> reply option \<Rightarrow> bool" where
  "honest_reply answer r v \<longleftrightarrow>
     (\<forall>hs q. v = Some (HeadersReply (Inr hs)) \<longrightarrow> r = Some q \<longrightarrow> hs = answer q)"

definition net_env ::
  "(headers_request \<Rightarrow> headers_response) \<Rightarrow> net_world \<Rightarrow> net_world \<Rightarrow> bool" where
  "net_env answer w w' \<longleftrightarrow> asked_log (channels w') = asked_log (channels w) \<and>
     length (channels w) \<le> length (channels w') \<and>
     (\<forall>c < length (channels w). asked (channels w' ! c) = asked (channels w ! c) \<and>
       (sent (channels w' ! c) = sent (channels w ! c) \<or>
        honest_reply answer (asked (channels w ! c)) (sent (channels w' ! c))))"

fun fut_request :: "net_fut \<Rightarrow> headers_request" where
  "fut_request (HeadersFut c r) = r"
| "fut_request _ = \<lparr>limit = 0, start_block = 0\<rparr>"

fun fut_ok :: "(headers_request \<Rightarrow> headers_response) \<Rightarrow> chans \<Rightarrow> net_fut \<Rightarrow> bool" where
  "fut_ok answer cs (HeadersFut c r) \<longleftrightarrow> c < length cs \<and> asked (cs ! c) = Some r \<and>
     honest_reply answer (Some r) (sent (cs ! c))"
| "fut_ok answer cs _ \<longleftrightarrow> False"

definition futs_ok ::
  "(headers_request \<Rightarrow> headers_response) \<Rightarrow> net_world \<Rightarrow> net_fut list \<Rightarrow> bool" where
  "futs_ok answer w fs \<longleftrightarrow> (\<forall>f \<in> set fs. fut_ok answer (channels w) f)"

lemma fut_ok_append: "fut_ok answer cs f \<Longrightarrow> fut_ok answer (cs @ ds) f"
  by (cases f) (auto simp: nth_append)

lemma np_get_headers_result:
  assumes "np_get_headers w p r = (f, w')"
  shows "f = HeadersFut (length (channels w)) r"
    and "\<exists>c. channels w' = channels w @ [c] \<and> asked c = Some r \<and> sent c = None"
  using assms
  by (auto simp: np_get_headers_def oneshot_channel_def send_command_def drop_sender_def Let_def
      split: if_splits)

lemma np_poll_headers_same: "np_poll_headers pick w fs = (x, w') \<Longrightarrow> w' = w"
  by (auto simp: np_poll_headers_def split: option.splits poll.splits)

lemma np_poll_headers_Some:
  assumes "np_poll_headers pick w fs = (Some (i, r), w')"
  shows "i < length fs" and "poll_headers_fut (channels w) (fs ! i) = Ready r"
  using assms pick_ready_Some [of pick w]
  by (fastforce simp: np_poll_headers_def split: option.splits poll.splits)+

lemma poll_headers_fut_answer:
  assumes "fut_ok answer cs f" and "poll_headers_fut cs f = Ready (Inr hs)"
  shows "hs = answer (fut_request f)"
  using assms
  by (cases f) (auto simp: poll_receiver_def honest_reply_def
      split: poll.splits sum.splits reply.splits option.splits if_splits)

interpretation net: headers_source "network_provider pick" "futs_ok answer" fut_request answer
  "\<lambda>w. asked_log (channels w)" "net_env answer" "\<lambda>a b. mset a = mset b" for pick answer
proof unfold_locales
  fix w p r f w' fs
  assume get: "hp_get_headers (network_provider pick) w p r = (f, w')"
  note g = np_get_headers_result [OF get [unfolded network_provider_simps]]
  show "fut_request f = r \<and> asked_log (channels w') = asked_log (channels w) @ [r]"
    using g by (auto simp: asked_log_def)
  show "futs_ok answer w' (fs @ [f])" if "futs_ok answer w fs"
    using g that by (auto simp: futs_ok_def honest_reply_def fut_ok_append)
next
  fix w fs w'
  assume "futs_ok answer w fs" "hp_poll_next (network_provider pick) w fs = (None, w')"
  then show "futs_ok answer w' fs" using np_poll_headers_same by fastforce
next
  fix w fs i y w'
  assume "futs_ok answer w fs" "hp_poll_next (network_provider pick) w fs = (Some (i, y), w')"
  then show "futs_ok answer w' (remove_nth i fs)"
    using np_poll_headers_same by (fastforce simp: futs_ok_def remove_nth_def
        dest: in_set_takeD in_set_dropD)
next
  fix w fs w'
  assume "futs_ok answer w fs" and env: "net_env answer w w'"
  have "fut_ok answer (channels w') f" if "fut_ok answer (channels w) f" for f
    using that env by (cases f) (auto simp: net_env_def)
  with \<open>futs_ok answer w fs\<close> show "futs_ok answer w' fs" by (auto simp: futs_ok_def)
next
  fix w fs x w'
  assume "hp_poll_next (network_provider pick) w fs = (x, w')"
  then show "asked_log (channels w') = asked_log (channels w)"
    using np_poll_headers_same by fastforce
next
  fix w fs i y w'
  assume "hp_poll_next (network_provider pick) w fs = (Some (i, y), w')"
  then have i: "i < length fs" using np_poll_headers_Some(1) by simp
  then have "map fut_request fs ! i = fut_request (fs ! i)" by simp
  moreover have "remove_nth i (map fut_request fs) = map fut_request (remove_nth i fs)"
    by (simp add: remove_nth_def take_map drop_map)
  ultimately show "i < length fs \<and>
      mset (map fut_request fs) = mset (fut_request (fs ! i) # map fut_request (remove_nth i fs))"
    using i mset_remove_nth [of i "map fut_request fs"] by simp
next
  fix w fs i hs w'
  assume "futs_ok answer w fs" "hp_poll_next (network_provider pick) w fs = (Some (i, Inr hs), w')"
  then show "hs = answer (fut_request (fs ! i))"
    using np_poll_headers_Some [of pick w fs i "Inr hs" w']
      poll_headers_fut_answer [of answer "channels w" "fs ! i" hs]
    by (simp add: futs_ok_def)
next
  fix w w'
  assume "net_env answer w w'"
  then show "asked_log (channels w') = asked_log (channels w)" by (simp add: net_env_def)
qed simp_all

end
