(* ===== verification/Chain_Db.thy ===== *)
theory Chain_Db
  imports Block_Tree
begin

text \<open>
  \<open>Chain\<close>, the implementation of \<open>BlockTree\<close> on a redb database
  (\<^verbatim>\<open>src/src/blocktree.rs\<close>, lines 26 to 322). The state is the database itself; the
  broadcast provider the struct also holds is an argument of the operation that uses it
  (theory \<open>Miner\<close>). A read or write guard of the \<open>RwLock\<close> around the database is never
  held across a panic while writing, so the lock is never poisoned and the
  \<open>expect("db available")\<close> calls return.
\<close>

section \<open>Operations\<close>

text \<open>The four \<open>From\<close> conversions of redb's errors, which all keep the error's text.\<close>

definition db_err :: "string \<Rightarrow> error" where
  "db_err e = DatabaseError e"

definition chain_genesis :: "ext \<Rightarrow> header" where
  "chain_genesis X =
     \<lparr>number = 0, parent_hash = ''genesis'', state_root = ''0x'', timestamp = 1705551177,
      nonce = 17012,
      hash = hex_encode X (calculate_hash X 0 1705551177 ''genesis'' ''0x'' ''0x'' 17012)\<rparr>"

definition chain_get_header_by_block_number ::
  "ext \<Rightarrow> ('db, 'txn) redb \<Rightarrow> 'db \<Rightarrow> u64 \<Rightarrow> (error + header) outcome" where
  "chain_get_header_by_block_number X R db block_number =
     (case sbind (redb_begin_read R db) (\<lambda>read_txn.
           sbind (redb_open_table R read_txn HEADER) (\<lambda>table.
           redb_get_header R table block_number)) of
        Inl e \<Rightarrow> Ret (Inl (db_err e))
      | Inr (Some buf) \<Rightarrow>
          obind (expect ''decode header'' (header_decode X buf)) (\<lambda>h. Ret (Inr h))
      | Inr None \<Rightarrow> Ret (Inl BlockHeaderNotFound))"

definition chain_get_header_by_hash ::
  "ext \<Rightarrow> ('db, 'txn) redb \<Rightarrow> 'db \<Rightarrow> string \<Rightarrow> (error + header) outcome" where
  "chain_get_header_by_hash X R db k =
     (case sbind (redb_begin_read R db) (\<lambda>read_txn.
           sbind (redb_open_table R read_txn HASH) (\<lambda>table.
           redb_get_hash R table k)) of
        Inl e \<Rightarrow> Ret (Inl (db_err e))
      | Inr (Some block_number) \<Rightarrow> chain_get_header_by_block_number X R db block_number
      | Inr None \<Rightarrow> Ret (Inl BlockHeaderNotFound))"

definition chain_tip :: "ext \<Rightarrow> ('db, 'txn) redb \<Rightarrow> 'db \<Rightarrow> (error + header) outcome" where
  "chain_tip X R db =
     (case sbind (redb_begin_read R db) (\<lambda>read_txn.
           sbind (redb_open_table R read_txn HEADER) (\<lambda>table.
           redb_last_header R table)) of
        Inl e \<Rightarrow> Ret (Inl (db_err e))
      | Inr entry \<Rightarrow>
          obind (expect_some ''at least one block in database'' entry) (\<lambda>(_, buf).
          obind (expect ''decode header'' (header_decode X buf)) (\<lambda>h. Ret (Inr h))))"

definition validate_adjacent_block_header ::
  "ext \<Rightarrow> ('db, 'txn) redb \<Rightarrow> 'db \<Rightarrow> header \<Rightarrow> (error + unit) outcome" where
  "validate_adjacent_block_header X R db h =
     (if h = chain_genesis X then Ret (Inr ())
      else obind (u64_sub (overflow_checks X) (number h) 1) (\<lambda>n.
           obind (chain_get_header_by_block_number X R db n) (\<lambda>r. case r of
             Inl e \<Rightarrow> Ret (Inl e)
           | Inr parent_header \<Rightarrow>
               if hash parent_header \<noteq> parent_hash h then Ret (Inl Invalid)
               else obind (u64_add (overflow_checks X) (number parent_header) 1) (\<lambda>m.
                 if m \<noteq> number h then Ret (Inl Invalid) else Ret (Inr ())))))"

text \<open>The write transaction of \<open>try_add_block_header\<close>.\<close>

definition write_header :: "ext \<Rightarrow> ('db, 'txn) redb \<Rightarrow> 'db \<Rightarrow> header \<Rightarrow> string + 'db" where
  "write_header X R db h =
     sbind (redb_begin_write R db) (\<lambda>t.
     sbind (redb_open_table R t HEADER) (\<lambda>t.
     sbind (redb_insert_header R t (number h) (header_encode X h)) (\<lambda>t.
     sbind (redb_open_table R t HASH) (\<lambda>t.
     sbind (redb_insert_hash R t (hash h) (number h)) (\<lambda>t.
     redb_commit R db t)))))"

definition chain_try_add_block_header ::
  "ext \<Rightarrow> ('db, 'txn) redb \<Rightarrow> 'db \<Rightarrow> header \<Rightarrow>
     ((error + added_block_result) \<times> 'db) outcome" where
  "chain_try_add_block_header X R db h =
     obind (validate_adjacent_block_header X R db h) (\<lambda>v. case v of
       Inl e \<Rightarrow> Ret (Inl e, db)
     | Inr _ \<Rightarrow> obind (chain_tip X R db) (\<lambda>t. case t of
       Inl e \<Rightarrow> Ret (Inl e, db)
     | Inr old_tip \<Rightarrow> (case write_header X R db h of
       Inl e \<Rightarrow> Ret (Inl (db_err e), db)
     | Inr db' \<Rightarrow> obind (chain_tip X R db') (\<lambda>t'. case t' of
       Inl e \<Rightarrow> Ret (Inl e, db')
     | Inr new_tip \<Rightarrow>
         Ret (Inr (if number old_tip < number new_tip then ExtendTip else AlreadyInChain),
              db')))))"

text \<open>\<open>Chain::new\<close> up to the start of the miner: open the file and store the genesis.\<close>

definition chain_open :: "ext \<Rightarrow> ('db, 'txn) redb \<Rightarrow> string \<Rightarrow> 'db outcome" where
  "chain_open X R path =
     obind (expect ''create db'' (redb_create R path)) (\<lambda>db.
     let genesis = chain_genesis X in
     obind (expect ''writable'' (redb_begin_write R db)) (\<lambda>t.
     obind (expect ''open table'' (redb_open_table R t HEADER)) (\<lambda>t.
     obind (expect ''insert genesis''
       (redb_insert_header R t (number genesis) (header_encode X genesis))) (\<lambda>t.
     obind (expect ''open table'' (redb_open_table R t HASH)) (\<lambda>t.
     obind (expect ''insert genesis''
       (redb_insert_hash R t (hash genesis) (number genesis))) (\<lambda>t.
     expect ''commit genesis'' (redb_commit R db t)))))))"

definition chain_tree :: "ext \<Rightarrow> ('db, 'txn) redb \<Rightarrow> 'db block_tree" where
  "chain_tree X R = \<lparr>
     bt_try_add_block_header = chain_try_add_block_header X R,
     bt_get_header_by_block_number = chain_get_header_by_block_number X R,
     bt_get_header_by_hash = chain_get_header_by_hash X R,
     bt_tip = chain_tip X R,
     bt_genesis = chain_genesis X\<rparr>"

lemma chain_open_write:
  assumes "redb_create R path = Inr db0"
  shows "chain_open X R path = Ret db \<longleftrightarrow> write_header X R db0 (chain_genesis X) = Inr db"
  using assms
  by (auto simp: chain_open_def write_header_def Let_def expect_Ret_iff obind_Ret_iff sbind_Inr_iff)

lemma chain_tree_simps [simp]:
  "bt_try_add_block_header (chain_tree X R) = chain_try_add_block_header X R"
  "bt_get_header_by_block_number (chain_tree X R) = chain_get_header_by_block_number X R"
  "bt_get_header_by_hash (chain_tree X R) = chain_get_header_by_hash X R"
  "bt_tip (chain_tree X R) = chain_tip X R"
  "bt_genesis (chain_tree X R) = chain_genesis X"
  by (simp_all add: chain_tree_def)

lemma chain_genesis_number [simp]: "number (chain_genesis X) = 0"
  by (simp add: chain_genesis_def)

section \<open>What the tables hold\<close>

definition headers_of :: "ext \<Rightarrow> tables \<Rightarrow> header_map" where
  "headers_of X T n =
     (case fst T n of None \<Rightarrow> None
      | Some buf \<Rightarrow> (case header_decode X buf of Inl e \<Rightarrow> None | Inr h \<Rightarrow> Some h))"

text \<open>
  The invariant of the database: every row of \<open>HEADER\<close> decodes, the headers form a chain
  without gaps stored under their own numbers, and \<open>HASH\<close> points to stored headers only.
\<close>

definition wf_tables :: "ext \<Rightarrow> tables \<Rightarrow> bool" where
  "wf_tables X T \<longleftrightarrow> (\<forall>n buf. fst T n = Some buf \<longrightarrow> (\<exists>h. header_decode X buf = Inr h)) \<and>
     wf_headers (headers_of X T) \<and> (\<forall>k n. snd T k = Some n \<longrightarrow> fst T n \<noteq> None)"

definition put_header_row :: "ext \<Rightarrow> header \<Rightarrow> tables \<Rightarrow> tables" where
  "put_header_row X h T =
     ((fst T)(number h \<mapsto> header_encode X h), (snd T)(hash h \<mapsto> number h))"

lemma wf_tables_headers: "wf_tables X T \<Longrightarrow> wf_headers (headers_of X T)"
  by (simp add: wf_tables_def)

lemma headers_of_None: "wf_tables X T \<Longrightarrow> headers_of X T n = None \<longleftrightarrow> fst T n = None"
  unfolding wf_tables_def headers_of_def by (fastforce split: option.splits sum.splits)

lemma headers_of_Some:
  "headers_of X T n = Some h \<longleftrightarrow> (\<exists>buf. fst T n = Some buf \<and> header_decode X buf = Inr h)"
  by (auto simp: headers_of_def split: option.splits sum.splits)

lemma dom_headers_of: "wf_tables X T \<Longrightarrow> dom (headers_of X T) = dom (fst T)"
  using headers_of_None [of X T] by (auto simp: dom_def)

context header_codec
begin

lemma headers_of_put: "headers_of X (put_header_row X h T) = (headers_of X T)(number h \<mapsto> h)"
  by (auto simp: headers_of_def put_header_row_def decode_encode fun_eq_iff)

lemma wf_tables_put:
  assumes wf: "wf_tables X T" and h: "wf_headers ((headers_of X T)(number h \<mapsto> h))"
  shows "wf_tables X (put_header_row X h T)"
proof -
  have "wf_headers (headers_of X (put_header_row X h T))"
    using h by (simp add: headers_of_put)
  moreover have "\<exists>h'. header_decode X buf = Inr h'"
    if "fst (put_header_row X h T) n = Some buf" for n buf
    using that wf decode_encode [of h]
    by (cases "n = number h") (auto simp: put_header_row_def wf_tables_def)
  moreover have "fst (put_header_row X h T) n \<noteq> None"
    if "snd (put_header_row X h T) k = Some n" for k n
    using that wf by (cases "k = hash h") (auto simp: put_header_row_def wf_tables_def)
  ultimately show ?thesis unfolding wf_tables_def by blast
qed

end

section \<open>The chain implements the contract\<close>

locale chain_store = redb_store R db_ok txn_ok stored view + header_codec X
  for R :: "('db, 'txn) redb" and db_ok txn_ok stored view X
begin

lemma read_table:
  assumes "db_ok db"
    and "sbind (redb_begin_read R db) (\<lambda>t. sbind (redb_open_table R t name) f) = Inr r"
  obtains t where "txn_ok t" and "view t = stored db" and "f t = Inr r"
proof -
  from assms(2) obtain t1 t2 where t1: "redb_begin_read R db = Inr t1"
    and t2: "redb_open_table R t1 name = Inr t2" and "f t2 = Inr r"
    by (elim sbind_InrE)
  with begin_read [OF assms(1) t1] open_table [OF _ t2] show ?thesis
    by (intro that) auto
qed

lemma get_result:
  assumes ok: "db_ok db" and wf: "wf_tables X (stored db)"
  shows "\<exists>r. chain_get_header_by_block_number X R db n = Ret r \<and>
    (db_fault r \<or> r = found (headers_of X (stored db) n))"
proof (cases "sbind (redb_begin_read R db) (\<lambda>t. sbind (redb_open_table R t HEADER) (\<lambda>t.
    redb_get_header R t n))")
  case (Inl e)
  then show ?thesis by (simp add: chain_get_header_by_block_number_def db_err_def)
next
  case (Inr row)
  then have row: "row = fst (stored db) n"
    by (auto elim!: read_table [OF ok] dest: get_header)
  show ?thesis
  proof (cases row)
    case None
    with Inr row show ?thesis
      by (simp add: chain_get_header_by_block_number_def headers_of_def found_def)
  next
    case (Some buf)
    with row wf obtain h where "header_decode X buf = Inr h"
      unfolding wf_tables_def by metis
    with Inr row [symmetric] Some show ?thesis
      by (simp add: chain_get_header_by_block_number_def headers_of_def found_def)
  qed
qed

lemma tip_row:
  assumes wf: "wf_tables X (stored db)"
  shows "\<exists>buf. last_entry (fst (stored db)) = Some (tip_number (headers_of X (stored db)), buf) \<and>
    header_decode X buf = Inr (tip_header (headers_of X (stored db)))"
proof -
  let ?T = "stored db"
  from tip_header_lookup [OF wf_tables_headers [OF wf]] obtain buf where
    "fst ?T (tip_number (headers_of X ?T)) = Some buf"
    and "header_decode X buf = Inr (tip_header (headers_of X ?T))"
    by (auto simp: headers_of_Some)
  then show ?thesis
    by (auto simp: last_entry_def tip_number_def dom_headers_of [OF wf])
qed

lemma chain_tip_result:
  assumes ok: "db_ok db" and wf: "wf_tables X (stored db)"
  shows "\<exists>r. chain_tip X R db = Ret r \<and>
    (db_fault r \<or> r = Inr (tip_header (headers_of X (stored db))))"
proof (cases "sbind (redb_begin_read R db) (\<lambda>t. sbind (redb_open_table R t HEADER) (\<lambda>t.
    redb_last_header R t))")
  case (Inl e)
  then show ?thesis by (simp add: chain_tip_def db_err_def)
next
  case (Inr row)
  then have "row = last_entry (fst (stored db))"
    by (auto elim!: read_table [OF ok] dest: last_header)
  with Inr tip_row [OF wf] show ?thesis by (auto simp: chain_tip_def)
qed

lemma write_result:
  assumes "db_ok db" and "write_header X R db h = Inr db'"
  shows "db_ok db' \<and> stored db' = put_header_row X h (stored db)"
proof -
  from assms(2) obtain t1 t2 t3 t4 t5 where
    "redb_begin_write R db = Inr t1" "redb_open_table R t1 HEADER = Inr t2"
    "redb_insert_header R t2 (number h) (header_encode X h) = Inr t3"
    "redb_open_table R t3 HASH = Inr t4" "redb_insert_hash R t4 (hash h) (number h) = Inr t5"
    "redb_commit R db t5 = Inr db'"
    unfolding write_header_def by (elim sbind_InrE)
  note t = this
  note v1 = begin_write [OF assms(1) t(1)]
  note v2 = open_table [OF conjunct1 [OF v1] t(2)]
  note v3 = insert_header [OF conjunct1 [OF v2] t(3)]
  note v4 = open_table [OF conjunct1 [OF v3] t(4)]
  note v5 = insert_hash [OF conjunct1 [OF v4] t(5)]
  show ?thesis
    using v1 v2 v3 v4 v5 commit [OF assms(1) conjunct1 [OF v5] t(6)]
    by (simp add: put_header_row_def)
qed

text \<open>
  Validation agrees with its specification; the second of its two checks never fires,
  because a header is stored under its own number.
\<close>

lemma validate_result:
  assumes ok: "db_ok db" and wf: "wf_tables X (stored db)"
  shows "validate_adjacent_block_header X R db h =
      parent_spec (overflow_checks X) (chain_genesis X) (headers_of X (stored db)) h \<or>
    (\<exists>e. validate_adjacent_block_header X R db h = Ret (Inl (DatabaseError e)))"
proof -
  let ?m = "headers_of X (stored db)"
  consider "h = chain_genesis X" | "h \<noteq> chain_genesis X" "overflow_checks X" "number h = 0"
    | "h \<noteq> chain_genesis X" "u64_sub (overflow_checks X) (number h) 1 = Ret (number h - 1)"
      "\<not> (overflow_checks X \<and> number h = 0)"
    by (auto simp: u64_sub_def word_less_1)
  then show ?thesis
  proof cases
    case 3
    obtain r where r: "chain_get_header_by_block_number X R db (number h - 1) = Ret r"
      and "db_fault r \<or> r = found (?m (number h - 1))"
      using get_result [OF ok wf] by blast
    then consider (fault) e where "r = Inl (DatabaseError e)"
      | (none) "r = Inl BlockHeaderNotFound" "?m (number h - 1) = None"
      | (parent) p where "r = Inr p" "?m (number h - 1) = Some p"
      by (cases r rule: db_fault.cases; cases "?m (number h - 1)") (auto simp: found_def)
    then show ?thesis
    proof cases
      case (parent p)
      then have "number p = number h - 1"
        using wf_headersD(2) wf_tables_headers [OF wf] by blast
      then have "u64_add (overflow_checks X) (number p) 1 = Ret (number h)"
        using 3 u64_pred_le [of "number h"] by (auto simp: u64_add_def)
      with 3 r parent show ?thesis
        by (auto simp: validate_adjacent_block_header_def parent_spec_def)
    qed (use 3 r in \<open>auto simp: validate_adjacent_block_header_def parent_spec_def\<close>)
  qed (auto simp: validate_adjacent_block_header_def parent_spec_def u64_sub_def)
qed

text \<open>Adding a header acts on the stored headers as its specification says.\<close>

lemma try_add_result:
  fixes h :: header
  assumes ok: "db_ok db" and wf: "wf_tables X (stored db)"
  defines "spec \<equiv> add_spec (overflow_checks X) (chain_genesis X) (headers_of X (stored db)) h"
  obtains (fault) e db' where
      "chain_try_add_block_header X R db h = Ret (Inl (DatabaseError e), db')"
      "db' = db \<or> db_ok db' \<and> stored db' = put_header_row X h (stored db) \<and>
        (\<exists>q. spec = Ret (Inr q, headers_of X (stored db')))"
  | (rejected) e where "chain_try_add_block_header X R db h = Ret (Inl e, db)"
      "spec = Ret (Inl e, headers_of X (stored db))"
  | (added) q db' where "chain_try_add_block_header X R db h = Ret (Inr q, db')"
      "db_ok db'" "stored db' = put_header_row X h (stored db)"
      "spec = Ret (Inr q, headers_of X (stored db'))"
  | (panics) s where "chain_try_add_block_header X R db h = Panic s" "spec = Panic s"
proof -
  let ?m = "headers_of X (stored db)"
  let ?p = "parent_spec (overflow_checks X) (chain_genesis X) ?m h"
  let ?v = "validate_adjacent_block_header X R db h"
  consider (vfault) e where "?v = Ret (Inl (DatabaseError e))"
    | (vrej) e where "?v = Ret (Inl e)" "?p = Ret (Inl e)"
    | (vok) "?v = Ret (Inr ())" "?p = Ret (Inr ())"
    | (vpanic) s where "?v = Panic s" "?p = Panic s"
    using validate_result [OF ok wf, of h]
    by (cases rule: parent_spec_cases [of h "chain_genesis X" "overflow_checks X" ?m]) auto
  then show thesis
  proof cases
    case (vfault e)
    then show ?thesis by (intro fault [of e db]) (simp_all add: chain_try_add_block_header_def)
  next
    case vrej
    then show ?thesis
      by (intro rejected) (simp_all add: chain_try_add_block_header_def spec_def add_spec_def)
  next
    case vpanic
    then show ?thesis
      by (intro panics) (simp_all add: chain_try_add_block_header_def spec_def add_spec_def)
  next
    case vok
    let ?q = "if tip_number ?m < number h then ExtendTip else AlreadyInChain"
    have spec: "spec = Ret (Inr ?q, ?m(number h \<mapsto> h))"
      using vok by (simp add: spec_def add_spec_def)
    have wfm: "wf_headers (?m(number h \<mapsto> h))"
      using parent_spec_wf [OF wf_tables_headers [OF wf] chain_genesis_number vok(2)] .
    obtain t where t: "chain_tip X R db = Ret t" "db_fault t \<or> t = Inr (tip_header ?m)"
      using chain_tip_result [OF ok wf] by blast
    show ?thesis
    proof (cases "db_fault t")
      case True
      with t vok show ?thesis
        by (cases t rule: db_fault.cases) (auto simp: chain_try_add_block_header_def intro: fault)
    next
      case tip: False
      show ?thesis
      proof (cases "write_header X R db h")
        case (Inl e)
        with tip t vok show ?thesis
          by (intro fault [of e db]) (auto simp: chain_try_add_block_header_def db_err_def)
      next
        case (Inr db')
        from write_result [OF ok Inr] have w: "db_ok db'"
          "stored db' = put_header_row X h (stored db)" by simp_all
        have hs: "headers_of X (stored db') = ?m(number h \<mapsto> h)"
          by (simp add: w headers_of_put)
        have wf': "wf_tables X (stored db')"
          by (simp add: w wf_tables_put [OF wf wfm])
        obtain t' where t': "chain_tip X R db' = Ret t'"
          "db_fault t' \<or> t' = Inr (tip_header (headers_of X (stored db')))"
          using chain_tip_result [OF w(1) wf'] by blast
        show ?thesis
        proof (cases "db_fault t'")
          case True
          with t t' tip vok Inr w hs spec show ?thesis
            by (cases t' rule: db_fault.cases)
              (auto simp: chain_try_add_block_header_def intro!: fault)
        next
          case False
          have "number (tip_header ?m) < number (tip_header (headers_of X (stored db'))) \<longleftrightarrow>
              tip_number ?m < number h"
            using wf_tables_headers [OF wf] wf_tables_headers [OF wf']
            by (simp add: hs tip_number_upd less_max_iff_disj)
          with False t t' tip vok Inr w hs spec show ?thesis
            by (intro added [of ?q db']) (auto simp: chain_try_add_block_header_def)
        qed
      qed
    qed
  qed
qed

end

text \<open>The parameters of the chain, as the invariant of a database and its abstract value.\<close>

sublocale chain_store \<subseteq> bt: block_tree_contract "chain_tree X R" "overflow_checks X"
  "\<lambda>db. db_ok db \<and> wf_tables X (stored db)" "\<lambda>db. headers_of X (stored db)"
proof
  fix b n
  assume inv: "db_ok b \<and> wf_tables X (stored b)"
  note ok = conjunct1 [OF inv] and wf = conjunct2 [OF inv]
  show "wf_headers (headers_of X (stored b))"
    using wf by (rule wf_tables_headers)
  show "\<exists>r. bt_get_header_by_block_number (chain_tree X R) b n = Ret r \<and>
      (db_fault r \<or> r = found (headers_of X (stored b) n))"
    using get_result [OF ok wf] by simp
  show "\<exists>r. bt_tip (chain_tree X R) b = Ret r \<and>
      (db_fault r \<or> r = Inr (tip_header (headers_of X (stored b))))"
    using chain_tip_result [OF ok wf] by simp
  fix h
  have wf': "wf_tables X (put_header_row X h (stored b))"
    if "add_spec (overflow_checks X) (chain_genesis X) (headers_of X (stored b)) h =
      Ret (Inr q, (headers_of X (stored b))(number h \<mapsto> h))" for q
    using wf_tables_put [OF wf] add_spec_wf [OF wf_tables_headers [OF wf] _ that] by simp
  show "bt_try_add_block_header (chain_tree X R) b h \<noteq> Diverge"
    by (cases rule: try_add_result [OF ok wf, of h]) auto
  show "add_spec (overflow_checks X) (bt_genesis (chain_tree X R)) (headers_of X (stored b)) h =
      Panic s" if "bt_try_add_block_header (chain_tree X R) b h = Panic s" for s
    using that by (cases rule: try_add_result [OF ok wf, of h]) auto
  show "(db_ok b' \<and> wf_tables X (stored b')) \<and> (if db_fault r
      then headers_of X (stored b') = headers_of X (stored b) \<or>
        (\<exists>q. add_spec (overflow_checks X) (bt_genesis (chain_tree X R))
          (headers_of X (stored b)) h = Ret (Inr q, headers_of X (stored b')))
      else add_spec (overflow_checks X) (bt_genesis (chain_tree X R))
          (headers_of X (stored b)) h = Ret (r, headers_of X (stored b')))"
    if "bt_try_add_block_header (chain_tree X R) b h = Ret (r, b')" for r b'
    using that inv wf'
    by (cases rule: try_add_result [OF ok wf, of h])
      (auto simp: headers_of_put dest: add_spec_no_fault)
qed simp

context chain_store
begin

lemma by_hash_result:
  assumes ok: "db_ok db" and wf: "wf_tables X (stored db)"
  shows "\<exists>r. chain_get_header_by_hash X R db k = Ret r \<and> (db_fault r \<or>
    r = found (Option.bind (snd (stored db) k) (headers_of X (stored db))))"
proof (cases "sbind (redb_begin_read R db) (\<lambda>t. sbind (redb_open_table R t HASH) (\<lambda>t.
    redb_get_hash R t k))")
  case (Inl e)
  then show ?thesis by (simp add: chain_get_header_by_hash_def db_err_def)
next
  case (Inr row)
  then have row: "row = snd (stored db) k"
    by (auto elim!: read_table [OF ok] dest: get_hash)
  show ?thesis
  proof (cases row)
    case None
    with Inr row show ?thesis by (simp add: chain_get_header_by_hash_def found_def)
  next
    case (Some n)
    with Inr row [symmetric] get_result [OF ok wf, of n] show ?thesis
      by (auto simp: chain_get_header_by_hash_def)
  qed
qed

text \<open>Opening the chain stores the genesis and keeps what a good database holds already.\<close>

lemma open_result:
  assumes "redb_create R path = Inr db0" and "chain_open X R path = Ret db"
  shows "db_ok db" and "stored db = put_header_row X (chain_genesis X) (stored db0)"
proof -
  from assms have "write_header X R db0 (chain_genesis X) = Inr db"
    by (simp add: chain_open_write)
  from write_result [OF create [OF assms(1)] this]
  show "db_ok db" "stored db = put_header_row X (chain_genesis X) (stored db0)" by simp_all
qed

lemma open_inv:
  assumes "redb_create R path = Inr db0" and "chain_open X R path = Ret db"
    and T: "stored db0 = (Map.empty, Map.empty) \<or> wf_tables X (stored db0)"
  shows "wf_tables X (stored db)" and "headers_of X (stored db) =
    (headers_of X (stored db0))(0 \<mapsto> chain_genesis X)"
proof -
  let ?g = "chain_genesis X"
  note st = open_result(2) [OF assms(1,2)]
  show h: "headers_of X (stored db) = (headers_of X (stored db0))(0 \<mapsto> ?g)"
    by (simp add: st headers_of_put)
  from T show "wf_tables X (stored db)"
  proof
    assume "wf_tables X (stored db0)"
    then show ?thesis
      unfolding st by (intro wf_tables_put wf_headers_upd wf_tables_headers) simp_all
  next
    assume e: "stored db0 = (Map.empty, Map.empty)"
    then have "headers_of X (stored db) = [0 \<mapsto> ?g]"
      by (simp add: h headers_of_def fun_eq_iff)
    then have "wf_headers (headers_of X (stored db))"
      by (auto simp: wf_headers_def split: if_splits)
    then show ?thesis
      unfolding wf_tables_def using decode_encode [of ?g]
      by (auto simp: st e put_header_row_def split: if_splits)
  qed
qed

end

section \<open>A database on which no call fails\<close>

locale reliable_chain_store =
  reliable_redb_store R db_ok txn_ok stored view + header_codec X
  for R :: "('db, 'txn) redb" and db_ok txn_ok stored view X

sublocale reliable_chain_store \<subseteq> chain_store
  by unfold_locales

context reliable_chain_store
begin

lemma read_total:
  assumes ok: "db_ok db" and "\<And>t. txn_ok t \<Longrightarrow> \<exists>r. f t = Inr r"
  shows "\<exists>r. sbind (redb_begin_read R db) (\<lambda>t. sbind (redb_open_table R t name) f) = Inr r"
proof -
  obtain t where t: "redb_begin_read R db = Inr t" using begin_read_total [OF ok] by blast
  obtain t' where t': "redb_open_table R t name = Inr t'"
    using open_table_total begin_read [OF ok t] by blast
  from assms(2) [of t'] open_table [OF _ t'] begin_read [OF ok t] t t' show ?thesis by auto
qed

lemma get_total:
  assumes "db_ok db" and "wf_tables X (stored db)"
  shows "chain_get_header_by_block_number X R db n = Ret (found (headers_of X (stored db) n))"
proof -
  obtain r where "sbind (redb_begin_read R db) (\<lambda>t. sbind (redb_open_table R t HEADER)
      (\<lambda>t. redb_get_header R t n)) = Inr r"
    using read_total [OF assms(1), of "\<lambda>t. redb_get_header R t n"] get_header_total by blast
  then have "\<not> (\<exists>e. chain_get_header_by_block_number X R db n = Ret (Inl (DatabaseError e)))"
    by (auto simp: chain_get_header_by_block_number_def split: option.splits elim!: obind_RetE)
  with get_result [OF assms, of n] show ?thesis by (auto simp: db_fault_iff)
qed

lemma tip_total:
  assumes "db_ok db" and "wf_tables X (stored db)"
  shows "chain_tip X R db = Ret (Inr (tip_header (headers_of X (stored db))))"
proof -
  obtain r where "sbind (redb_begin_read R db) (\<lambda>t. sbind (redb_open_table R t HEADER)
      (\<lambda>t. redb_last_header R t)) = Inr r"
    using read_total [OF assms(1), of "\<lambda>t. redb_last_header R t"] last_header_total by blast
  then have "\<not> (\<exists>e. chain_tip X R db = Ret (Inl (DatabaseError e)))"
    by (auto simp: chain_tip_def elim!: obind_RetE)
  with chain_tip_result [OF assms] show ?thesis by (auto simp: db_fault_iff)
qed

lemma by_hash_total:
  assumes "db_ok db" and "wf_tables X (stored db)"
  shows "chain_get_header_by_hash X R db k =
    Ret (found (Option.bind (snd (stored db) k) (headers_of X (stored db))))"
proof -
  obtain r where r: "sbind (redb_begin_read R db) (\<lambda>t. sbind (redb_open_table R t HASH)
      (\<lambda>t. redb_get_hash R t k)) = Inr r"
    using read_total [OF assms(1), of "\<lambda>t. redb_get_hash R t k"] get_hash_total by blast
  then have "snd (stored db) k = r"
    by (auto elim!: read_table [OF assms(1)] dest: get_hash)
  with r show ?thesis
    by (cases r) (simp_all add: chain_get_header_by_hash_def get_total [OF assms] found_def)
qed

lemma write_total:
  assumes ok: "db_ok db"
  shows "\<exists>db'. write_header X R db h = Inr db'"
proof -
  obtain t1 where t1: "redb_begin_write R db = Inr t1" using begin_write_total [OF ok] by blast
  note v1 = conjunct1 [OF begin_write [OF ok t1]]
  obtain t2 where t2: "redb_open_table R t1 HEADER = Inr t2" using open_table_total [OF v1] by blast
  note v2 = conjunct1 [OF open_table [OF v1 t2]]
  obtain t3 where t3: "redb_insert_header R t2 (number h) (header_encode X h) = Inr t3"
    using insert_header_total [OF v2] by blast
  note v3 = conjunct1 [OF insert_header [OF v2 t3]]
  obtain t4 where t4: "redb_open_table R t3 HASH = Inr t4" using open_table_total [OF v3] by blast
  note v4 = conjunct1 [OF open_table [OF v3 t4]]
  obtain t5 where t5: "redb_insert_hash R t4 (hash h) (number h) = Inr t5"
    using insert_hash_total [OF v4] by blast
  note v5 = conjunct1 [OF insert_hash [OF v4 t5]]
  show ?thesis
    using commit_total [OF ok v5] t1 t2 t3 t4 t5 by (simp add: write_header_def)
qed

lemma add_no_db_error:
  assumes ok: "db_ok db" and wf: "wf_tables X (stored db)"
  shows "chain_try_add_block_header X R db h \<noteq> Ret (Inl (DatabaseError e), db')"
proof
  assume a: "chain_try_add_block_header X R db h = Ret (Inl (DatabaseError e), db')"
  let ?m = "headers_of X (stored db)"
  have v: "validate_adjacent_block_header X R db h \<noteq> Ret (Inl (DatabaseError e))" for e
    using get_total [OF assms]
    by (auto simp: validate_adjacent_block_header_def found_def
        split: if_splits option.splits elim!: obind_RetE)
  from validate_result [OF assms, of h] v a
  have p: "parent_spec (overflow_checks X) (chain_genesis X) ?m h = Ret (Inr ())"
    by (cases rule: parent_spec_cases [of h "chain_genesis X" "overflow_checks X" ?m])
      (auto simp: chain_try_add_block_header_def)
  with validate_result [OF assms, of h] v
  have "validate_adjacent_block_header X R db h = Ret (Inr ())" by auto
  moreover obtain db1 where w: "write_header X R db h = Inr db1" using write_total [OF ok] by blast
  moreover have "wf_headers (?m(number h \<mapsto> h))"
    using parent_spec_wf [OF wf_tables_headers [OF wf] chain_genesis_number p] .
  then have "wf_tables X (stored db1)"
    using write_result [OF ok w] wf_tables_put [OF wf] by simp
  ultimately show False
    using a tip_total [OF assms] tip_total [of db1] write_result [OF ok w]
    by (simp add: chain_try_add_block_header_def)
qed

end

sublocale reliable_chain_store \<subseteq> rbt: reliable_block_tree "chain_tree X R" "overflow_checks X"
  "\<lambda>db. db_ok db \<and> wf_tables X (stored db)" "\<lambda>db. headers_of X (stored db)"
proof
  fix b n r
  assume inv: "db_ok b \<and> wf_tables X (stored b)"
  then show "\<not> db_fault r" if "bt_get_header_by_block_number (chain_tree X R) b n = Ret r"
    using that get_total [of b n] by auto
  from inv show "\<not> db_fault t" if "bt_tip (chain_tree X R) b = Ret t" for t
    using that tip_total [of b] by auto
  from inv show "\<not> db_fault a"
    if "bt_try_add_block_header (chain_tree X R) b h = Ret (a, b')" for h a b'
    using that add_no_db_error [of b h] by (auto simp: db_fault_iff)
qed

text \<open>The facts the properties of the chain state over the definitions.\<close>

context chain_store
begin

lemma as_contract: "block_tree_contract (chain_tree X R) (overflow_checks X)
    (\<lambda>db. db_ok db \<and> wf_tables X (stored db)) (\<lambda>db. headers_of X (stored db))"
  by (rule bt.block_tree_contract_axioms)

lemma add_keeps_inv:
  assumes "db_ok db" and "wf_tables X (stored db)"
    and "chain_try_add_block_header X R db h = Ret (r, db')"
  shows "db_ok db' \<and> wf_tables X (stored db') \<and>
    tip_number (headers_of X (stored db)) \<le> tip_number (headers_of X (stored db'))"
  using bt.add_inv [of db h r db'] bt.add_tip_mono [of db h r db'] assms by simp

lemma add_accepted:
  assumes "db_ok db" and "wf_tables X (stored db)"
    and "chain_try_add_block_header X R db h = Ret (Inr q, db')"
  shows "db_ok db'" and "wf_tables X (stored db')"
    and "stored db' = put_header_row X h (stored db)"
    and "headers_of X (stored db') = (headers_of X (stored db))(number h \<mapsto> h)"
    and "number h = 0 \<or> (\<exists>p. headers_of X (stored db) (number h - 1) = Some p \<and>
      hash p = parent_hash h)"
proof -
  note inv = add_keeps_inv [OF assms]
  from assms(3) have "stored db' = put_header_row X h (stored db) \<and>
      add_spec (overflow_checks X) (chain_genesis X) (headers_of X (stored db)) h =
        Ret (Inr q, headers_of X (stored db'))"
    by (cases rule: try_add_result [OF assms(1,2), of h]) auto
  with add_spec_Inr [of "overflow_checks X" "chain_genesis X" "headers_of X (stored db)" h q]
    inv show "db_ok db'" "wf_tables X (stored db')" "stored db' = put_header_row X h (stored db)"
    "headers_of X (stored db') = (headers_of X (stored db))(number h \<mapsto> h)"
    "number h = 0 \<or> (\<exists>p. headers_of X (stored db) (number h - 1) = Some p \<and>
      hash p = parent_hash h)"
    by auto
qed

lemma add_linked_iff:
  assumes "db_ok db" and "wf_tables X (stored db)"
    and "chain_try_add_block_header X R db h = Ret (Inr q, db')"
    and "linked (headers_of X (stored db))"
  shows "linked (headers_of X (stored db')) \<longleftrightarrow>
    (\<forall>c. number h + 1 \<noteq> 0 \<longrightarrow> headers_of X (stored db) (number h + 1) = Some c \<longrightarrow>
      parent_hash c = hash h)"
  unfolding add_accepted(4) [OF assms(1-3)]
  by (rule linked_upd_iff [OF assms(4) add_accepted(5) [OF assms(1-3)]])

end

context reliable_chain_store
begin

lemma as_block_tree: "reliable_block_tree (chain_tree X R) (overflow_checks X)
    (\<lambda>db. db_ok db \<and> wf_tables X (stored db)) (\<lambda>db. headers_of X (stored db))"
  by (rule rbt.reliable_block_tree_axioms)

lemma add_refines:
  assumes "db_ok db" and "wf_tables X (stored db)"
  shows "case add_spec (overflow_checks X) (chain_genesis X) (headers_of X (stored db)) h of
      Ret (r, m) \<Rightarrow> (\<exists>db'. chain_try_add_block_header X R db h = Ret (r, db') \<and>
        headers_of X (stored db') = m)
    | Panic s \<Rightarrow> chain_try_add_block_header X R db h = Panic s
    | Diverge \<Rightarrow> False"
  using add_no_db_error [OF assms, of h]
  by (cases rule: try_add_result [OF assms, of h]) auto

lemma read_back:
  assumes inv: "db_ok db" "wf_tables X (stored db)"
    and add: "chain_try_add_block_header X R db h = Ret (Inr q, db')"
  shows "chain_get_header_by_block_number X R db' n =
      (if n = number h then Ret (Inr h) else chain_get_header_by_block_number X R db n)"
    and "chain_get_header_by_hash X R db' (hash h) = Ret (Inr h)"
  using add_accepted [OF inv add] get_total [OF inv] get_total [of db'] by_hash_total [of db']
  by (simp_all add: found_def put_header_row_def)

lemma stale_index:
  assumes inv: "db_ok db" "wf_tables X (stored db)"
    and "snd (stored db) (hash a) = Some (number b)" and "hash b \<noteq> hash a"
    and add: "chain_try_add_block_header X R db b = Ret (Inr q, db')"
  shows "chain_get_header_by_hash X R db' (hash a) = Ret (Inr b)"
  using add_accepted [OF inv add] by_hash_total [of db' "hash a"] assms(3,4)
  by (simp add: found_def put_header_row_def)

lemma open_total:
  assumes "redb_create R path = Inr db0"
    and "stored db0 = (Map.empty, Map.empty) \<or> wf_tables X (stored db0)"
  shows "\<exists>db. chain_open X R path = Ret db \<and> db_ok db \<and> wf_tables X (stored db) \<and>
    headers_of X (stored db) = (headers_of X (stored db0))(0 \<mapsto> chain_genesis X)"
proof -
  obtain db where w: "write_header X R db0 (chain_genesis X) = Inr db"
    using write_total [OF create [OF assms(1)]] by blast
  then have "chain_open X R path = Ret db" by (simp add: chain_open_write [OF assms(1)])
  with open_result [OF assms(1) this] open_inv [OF assms(1) this assms(2)] show ?thesis by blast
qed

lemma zero_header:
  assumes inv: "db_ok db" "wf_tables X (stored db)"
    and h: "number h = 0" "h \<noteq> chain_genesis X"
    and full: "tip_number (headers_of X (stored db)) < n"
  shows "chain_try_add_block_header X R db h =
    (if overflow_checks X then Panic ''attempt to subtract with overflow''
     else Ret (Inl BlockHeaderNotFound, db))"
proof -
  have "\<not> (- 1 :: u64) \<le> tip_number (headers_of X (stored db))"
    using full word_n1_ge [of n] by order
  then have "headers_of X (stored db) (- 1) = None"
    using wf_headers_iff_le [OF wf_tables_headers [OF inv(2)], of "- 1"] by auto
  then show ?thesis
    using get_total [OF inv, of "- 1"] h
    by (simp add: chain_try_add_block_header_def validate_adjacent_block_header_def u64_sub_def
        found_def)
qed

lemma mined:
  assumes inv: "db_ok db" "wf_tables X (stored db)"
    and room: "tip_number (headers_of X (stored db)) < n"
  defines "t \<equiv> tip_header (headers_of X (stored db))"
  shows "\<exists>h db'. bt_mine_block X (chain_tree X R) db inp = Ret (Mined h, db') \<and>
    number h = number t + 1 \<and> parent_hash h = hash t \<and> chain_tip X R db' = Ret (Inr h) \<and>
    hash h = hex_encode X (calculate_hash X (number h) (now inp) (hash t)
      (hex_encode X (sha256 X (random_bytes inp))) ''a block data'' (random_nonce inp)) \<and>
    timestamp h = 0 \<and> state_root h = '''' \<and>
    (linked (headers_of X (stored db)) \<longrightarrow> linked (headers_of X (stored db')))"
proof -
  let ?m = "headers_of X (stored db)"
  note wf = wf_tables_headers [OF inv(2)]
  define h where "h = mined_header X inp t (tip_number ?m + 1)"
  obtain db' where m: "bt_mine_block X (chain_tree X R) db inp = Ret (Mined h, db')"
    using rbt.mine_succeeds [of db n X inp] inv room unfolding h_def t_def by auto
  note facts = bt.mine_Mined [OF conjI [OF inv] m]
  have above: "?m (number h + 1) = None" if "number h + 1 \<noteq> 0"
  proof -
    have "tip_number ?m < number h + 1"
      using that facts(4) room by unat_arith
    then show ?thesis by (rule above_tip)
  qed
  have "linked (?m(number h \<mapsto> h))" if "linked ?m"
  proof -
    have "number h = 0 \<or> (\<exists>p. ?m (number h - 1) = Some p \<and> hash p = parent_hash h)"
      using facts(4,5) tip_header_lookup [OF wf] by simp
    then show ?thesis using linked_upd_iff [OF that] above by simp
  qed
  with m facts tip_total [of db'] wf show ?thesis
    by (auto simp: h_def t_def mined_header_def mine_block_def Let_def)
qed

lemma tip_greatest:
  assumes inv: "db_ok db" "wf_tables X (stored db)"
  shows "\<exists>t. chain_tip X R db = Ret (Inr t) \<and>
    (\<forall>n. (\<exists>h. chain_get_header_by_block_number X R db n = Ret (Inr h) \<and> number h = n) \<longleftrightarrow>
      n \<le> number t)"
proof (intro exI conjI allI)
  let ?m = "headers_of X (stored db)"
  note wf = wf_tables_headers [OF inv(2)]
  show "chain_tip X R db = Ret (Inr (tip_header ?m))"
    by (rule tip_total [OF inv])
  fix n
  show "(\<exists>h. chain_get_header_by_block_number X R db n = Ret (Inr h) \<and> number h = n) \<longleftrightarrow>
      n \<le> number (tip_header ?m)"
    using wf_headers_iff_le [OF wf, of n] wf_headersD(2) [OF wf, of n] wf
    by (cases "?m n") (auto simp: get_total [OF inv] found_def)
qed

end

interpretation mem_chain: reliable_chain_store "mem_redb mem_empty" mem_good mem_good
  mem_view mem_view "demo_ext checks" for checks
  by unfold_locales

end
