(* ===== verification/Chain_Properties.thy ===== *)
theory Chain_Properties
  imports Chain_Db
begin

text \<open>
  The properties of the block store \<open>Chain\<close>. They hold for every database and codec that
  behave as documented (the locale predicates \<open>chain_store\<close> and \<open>reliable_chain_store\<close>),
  and each has a witness on the in-memory instance.
\<close>

section \<open>Example data\<close>

definition demo_chain :: "bool \<Rightarrow> mem_db" where
  "demo_chain checks = (let g = chain_genesis (demo_ext checks) in
     \<lparr>header_table = [(0, put_header g)], hash_table = [(hash g, 0)], fault = None\<rparr>)"

definition demo_header :: "u64 \<Rightarrow> string \<Rightarrow> string \<Rightarrow> header" where
  "demo_header n parent h =
     \<lparr>number = n, parent_hash = parent, state_root = '''', timestamp = 0, nonce = 0, hash = h\<rparr>"

lemma demo_header_simps [simp]:
  "number (demo_header n p h) = n" "parent_hash (demo_header n p h) = p"
  "hash (demo_header n p h) = h" "state_root (demo_header n p h) = ''''"
  "timestamp (demo_header n p h) = 0" "nonce (demo_header n p h) = 0"
  by (simp_all add: demo_header_def)

lemma demo_header_not_genesis [simp]:
  "demo_header n p h \<noteq> chain_genesis X" "chain_genesis X \<noteq> demo_header n p h"
  by (auto simp: demo_header_def chain_genesis_def)

lemma demo_open: "chain_open (demo_ext c) (mem_redb mem_empty) path = Ret (demo_chain c)"
  by (simp add: chain_open_def Let_def write_header_def mem_redb_def mem_call_def mem_empty_def
      btm_insert_def demo_chain_def demo_ext_def Let_def)

lemma demo_chain_ok: "mem_good (demo_chain c)"
  and demo_chain_wf: "wf_tables (demo_ext c) (mem_view (demo_chain c))"
  and demo_chain_headers:
    "headers_of (demo_ext c) (mem_view (demo_chain c)) = [0 \<mapsto> chain_genesis (demo_ext c)]"
proof -
  have create: "redb_create (mem_redb mem_empty) path = Inr mem_empty" for path
    by (simp add: mem_redb_def)
  have e: "mem_view mem_empty = (Map.empty, Map.empty)"
    by (simp add: mem_view_def mem_empty_def)
  note inv = mem_chain.open_inv [OF create demo_open disjI1 [OF e]]
  show "mem_good (demo_chain c)" by (rule mem_chain.open_result(1) [OF create demo_open])
  show "wf_tables (demo_ext c) (mem_view (demo_chain c))" by (rule inv(1))
  show "headers_of (demo_ext c) (mem_view (demo_chain c)) = [0 \<mapsto> chain_genesis (demo_ext c)]"
    unfolding inv(2) by (simp add: e headers_of_def fun_eq_iff)
qed

lemma tip_number_single [simp]: "tip_number [n \<mapsto> h] = n"
  by (simp add: tip_number_def)

lemmas demo_chain_facts = mem_chain.reliable_chain_store_axioms demo_chain_ok demo_chain_wf

definition demo_a1 :: "bool \<Rightarrow> header" where
  "demo_a1 c = demo_header 1 (hash (chain_genesis (demo_ext c))) ''a1''"

definition demo_a2 :: header where
  "demo_a2 = demo_header 2 ''a1'' ''a2''"

definition demo_b1 :: "bool \<Rightarrow> header" where
  "demo_b1 c = demo_header 1 (hash (chain_genesis (demo_ext c))) ''b1''"

text \<open>The example chain with the two blocks \<open>a1\<close> and \<open>a2\<close> on the genesis.\<close>

definition demo_chain2 :: "bool \<Rightarrow> mem_db" where
  "demo_chain2 c =
     demo_chain c\<lparr>header_table := header_table (demo_chain c) @
         [(1, put_header (demo_a1 c)), (2, put_header demo_a2)],
       hash_table := btm_put ''a2'' 2 (btm_put ''a1'' 1 (hash_table (demo_chain c)))\<rparr>"

lemma demo_view2: "mem_view (demo_chain2 c) =
    put_header_row (demo_ext c) demo_a2 (put_header_row (demo_ext c) (demo_a1 c)
      (mem_view (demo_chain c)))"
  by (simp add: mem_view_def demo_chain2_def demo_chain_def put_header_row_def demo_ext_def
      demo_a1_def demo_a2_def Let_def fun_eq_iff btm_get_put btm_wf_put btm_wf_Cons)

lemma demo_chain2_headers: "headers_of (demo_ext c) (mem_view (demo_chain2 c)) =
    [0 \<mapsto> chain_genesis (demo_ext c), 1 \<mapsto> demo_a1 c, 2 \<mapsto> demo_a2]"
  by (simp add: demo_view2 demo.headers_of_put demo_chain_headers demo_a1_def demo_a2_def)

lemma demo_chain2_ok: "mem_good (demo_chain2 c)"
proof -
  have "btm_wf (hash_table (demo_chain c))"
    using demo_chain_ok by (simp add: mem_good_def mem_ok_def)
  then have "btm_wf (hash_table (demo_chain2 c))"
    unfolding demo_chain2_def by (simp del: btm_put.simps add: btm_wf_put)
  then show ?thesis
    by (simp add: mem_good_def mem_ok_def demo_chain2_def demo_chain_def Let_def btm_wf_Cons)
qed

lemma demo_chain2_wf: "wf_tables (demo_ext c) (mem_view (demo_chain2 c))"
proof -
  have 1: "wf_headers ((headers_of (demo_ext c) (mem_view (demo_chain c)))
      (number (demo_a1 c) \<mapsto> demo_a1 c))"
    by (rule wf_headers_upd [OF wf_tables_headers [OF demo_chain_wf]])
      (simp add: demo_a1_def demo_chain_headers)
  note wf1 = demo.wf_tables_put [OF demo_chain_wf 1]
  have 2: "wf_headers ((headers_of (demo_ext c) (put_header_row (demo_ext c) (demo_a1 c)
      (mem_view (demo_chain c)))) (number demo_a2 \<mapsto> demo_a2))"
    by (rule wf_headers_upd [OF wf_tables_headers [OF wf1]])
      (simp add: demo_a1_def demo_a2_def demo.headers_of_put demo_chain_headers)
  show ?thesis unfolding demo_view2 by (rule demo.wf_tables_put [OF wf1 2])
qed

lemma demo_chain2_tip: "tip_number (headers_of (demo_ext c) (mem_view (demo_chain2 c))) = 2"
  by (rule tip_number_unique) (auto simp: demo_chain2_headers split: if_splits)

lemmas demo_chain2_facts = mem_chain.reliable_chain_store_axioms demo_chain2_ok demo_chain2_wf

lemma mem_chain_store:
  "chain_store (mem_redb mem_empty) mem_ok mem_ok mem_view mem_view (demo_ext c)"
  by unfold_locales

lemma demo_a1_spec: "add_spec c (chain_genesis (demo_ext c'))
    (headers_of (demo_ext c') (mem_view (demo_chain c'))) (demo_a1 c') =
    Ret (Inr ExtendTip, [0 \<mapsto> chain_genesis (demo_ext c'), 1 \<mapsto> demo_a1 c'])"
  by (simp add: demo_chain_headers add_spec_def parent_spec_def demo_a1_def)

lemma demo_chain2_linked: "linked (headers_of (demo_ext c) (mem_view (demo_chain2 c)))"
  unfolding linked_def by (auto simp: demo_chain2_headers demo_a1_def demo_a2_def split: if_splits)

lemma demo_b1_replaces:
  "\<exists>db'. chain_try_add_block_header (demo_ext c) (mem_redb mem_empty) (demo_chain2 c)
      (demo_b1 c) = Ret (Inr AlreadyInChain, db')"
proof -
  have "parent_spec c (chain_genesis (demo_ext c))
      (headers_of (demo_ext c) (mem_view (demo_chain2 c))) (demo_b1 c) = Ret (Inr ())"
    by (simp add: parent_spec_def demo_chain2_headers demo_b1_def)
  then show ?thesis
    using mem_chain.add_refines [OF demo_chain2_ok demo_chain2_wf, of c "demo_b1 c"]
    by (auto simp: add_spec_def demo_chain2_tip demo_b1_def)
qed

section \<open>Properties\<close>

text \<open>
  C1: On a database that does not fail, \<open>try_add_block_header\<close> implements its
  specification on every header: the same result or panic, and the headers stored
  afterwards are the specified ones.
\<close>

theorem chain_add_refines:
  assumes "reliable_chain_store R db_ok txn_ok stored view X"
    and "db_ok db" and "wf_tables X (stored db)"
  shows "case add_spec (overflow_checks X) (chain_genesis X) (headers_of X (stored db)) h of
      Ret (r, m) \<Rightarrow> (\<exists>db'. chain_try_add_block_header X R db h = Ret (r, db') \<and>
        headers_of X (stored db') = m)
    | Panic s \<Rightarrow> chain_try_add_block_header X R db h = Panic s
    | Diverge \<Rightarrow> False"
  by (rule reliable_chain_store.add_refines [OF assms])

theorem chain_add_refines_witness:
  "\<exists>db'. chain_try_add_block_header (demo_ext True) (mem_redb mem_empty) (demo_chain True)
      (demo_a1 True) = Ret (Inr ExtendTip, db') \<and>
    headers_of (demo_ext True) (mem_view db') =
      [0 \<mapsto> chain_genesis (demo_ext True), 1 \<mapsto> demo_a1 True]"
  using chain_add_refines [OF demo_chain_facts [of True], of "demo_a1 True"]
  by (simp add: demo_a1_spec)

text \<open>
  C7: Every outcome of \<open>try_add_block_header\<close>, database errors included, keeps the
  invariant of the store (all rows decode, the chain has no gap, each header is stored under
  its number, the hash index has no dangling entry), and the tip never moves down.
\<close>

theorem chain_add_keeps_invariant:
  assumes "chain_store R db_ok txn_ok stored view X"
    and "db_ok db" and "wf_tables X (stored db)"
    and "chain_try_add_block_header X R db h = Ret (r, db')"
  shows "db_ok db' \<and> wf_tables X (stored db') \<and>
    tip_number (headers_of X (stored db)) \<le> tip_number (headers_of X (stored db'))"
  by (rule chain_store.add_keeps_inv [OF assms])

theorem chain_add_keeps_invariant_witness:
  "let db = (demo_chain False)\<lparr>fault := Some Commit\<rparr> in
    chain_try_add_block_header (demo_ext False) (mem_redb mem_empty) db (demo_a1 False) =
      Ret (Inl (DatabaseError ''I/O error''), db) \<and>
    wf_tables (demo_ext False) (mem_view db)"
proof -
  let ?db = "(demo_chain False)\<lparr>fault := Some Commit\<rparr>"
  have v: "mem_view ?db = mem_view (demo_chain False)" by (simp add: mem_view_def)
  have ok: "mem_ok ?db" using demo_chain_ok by (simp add: mem_good_def mem_ok_def)
  have wf: "wf_tables (demo_ext False) (mem_view ?db)" by (simp add: v demo_chain_wf)
  have add: "chain_try_add_block_header (demo_ext False) (mem_redb mem_empty) ?db (demo_a1 False)
      = Ret (Inl (DatabaseError ''I/O error''), ?db)"
    by (simp add: chain_try_add_block_header_def validate_adjacent_block_header_def
        chain_get_header_by_block_number_def chain_tip_def write_header_def mem_redb_def
        mem_call_def demo_chain_def demo_a1_def demo_ext_def Let_def take_put_header
        btm_last_def db_err_def)
  show ?thesis
    using chain_add_keeps_invariant [OF mem_chain_store ok wf add] add by (simp add: Let_def)
qed

text \<open>
  C17: What an accepted header does to the links of the chain: they stay intact exactly when
  the block stored at the next number, if there is one, names the new header as its
  parent. Extending the tip is always safe; replacing a block below the tip is not.
\<close>

theorem chain_add_linked_iff:
  assumes "chain_store R db_ok txn_ok stored view X"
    and "db_ok db" and "wf_tables X (stored db)"
    and "chain_try_add_block_header X R db h = Ret (Inr q, db')"
    and "linked (headers_of X (stored db))"
  shows "linked (headers_of X (stored db')) \<longleftrightarrow>
    (\<forall>c. number h + 1 \<noteq> 0 \<longrightarrow> headers_of X (stored db) (number h + 1) = Some c \<longrightarrow>
      parent_hash c = hash h)"
  by (rule chain_store.add_linked_iff [OF assms])

theorem chain_add_linked_iff_witness:
  "linked (headers_of (demo_ext True) (mem_view (demo_chain2 True))) \<and>
   (\<exists>db'. chain_try_add_block_header (demo_ext True) (mem_redb mem_empty) (demo_chain2 True)
      (demo_b1 True) = Ret (Inr AlreadyInChain, db') \<and>
    \<not> linked (headers_of (demo_ext True) (mem_view db')))"
proof -
  obtain db' where add: "chain_try_add_block_header (demo_ext True) (mem_redb mem_empty)
      (demo_chain2 True) (demo_b1 True) = Ret (Inr AlreadyInChain, db')"
    using demo_b1_replaces by blast
  have c2: "headers_of (demo_ext True) (mem_view (demo_chain2 True)) 2 = Some demo_a2"
    by (simp add: demo_chain2_headers)
  have "\<not> linked (headers_of (demo_ext True) (mem_view db'))"
    using chain_add_linked_iff [OF mem_chain.chain_store_axioms demo_chain2_facts(2,3) add
        demo_chain2_linked] c2
    by (simp add: demo_a2_def demo_b1_def)
  with add demo_chain2_linked show ?thesis by blast
qed

text \<open>
  C18: A header that was accepted can be read back by its number and by its hash, and no other
  number's answer changes.
\<close>

theorem chain_add_read_back:
  assumes "reliable_chain_store R db_ok txn_ok stored view X"
    and "db_ok db" and "wf_tables X (stored db)"
    and "chain_try_add_block_header X R db h = Ret (Inr q, db')"
  shows "chain_get_header_by_block_number X R db' n =
      (if n = number h then Ret (Inr h) else chain_get_header_by_block_number X R db n) \<and>
    chain_get_header_by_hash X R db' (hash h) = Ret (Inr h)"
  using reliable_chain_store.read_back [OF assms] by blast

theorem chain_add_read_back_witness:
  "\<exists>db'. chain_try_add_block_header (demo_ext True) (mem_redb mem_empty) (demo_chain True)
      (demo_a1 True) = Ret (Inr ExtendTip, db') \<and>
    chain_get_header_by_hash (demo_ext True) (mem_redb mem_empty) db' ''a1'' =
      Ret (Inr (demo_a1 True))"
proof -
  obtain db' where add: "chain_try_add_block_header (demo_ext True) (mem_redb mem_empty)
      (demo_chain True) (demo_a1 True) = Ret (Inr ExtendTip, db')"
    using mem_chain.add_refines [OF demo_chain_ok demo_chain_wf, of True "demo_a1 True"]
    by (auto simp: demo_a1_spec)
  with chain_add_read_back [OF demo_chain_facts [of True] add, of 1] show ?thesis
    by (auto simp: demo_a1_def)
qed

text \<open>
  C20: After a different header has replaced the one stored at its number, the hash index still
  answers the old hash, with the new header: \<open>get_header_by_hash\<close> returns a header whose
  hash is not the one asked for.
\<close>

theorem chain_stale_hash_index:
  assumes "reliable_chain_store R db_ok txn_ok stored view X"
    and "db_ok db" and "wf_tables X (stored db)"
    and "snd (stored db) (hash a) = Some (number b)" and "hash b \<noteq> hash a"
    and "chain_try_add_block_header X R db b = Ret (Inr q, db')"
  shows "chain_get_header_by_hash X R db' (hash a) = Ret (Inr b)"
  by (rule reliable_chain_store.stale_index [OF assms])

theorem chain_stale_hash_index_witness:
  "chain_get_header_by_hash (demo_ext True) (mem_redb mem_empty) (demo_chain2 True) ''a1'' =
      Ret (Inr (demo_a1 True)) \<and>
   (\<exists>db'. chain_try_add_block_header (demo_ext True) (mem_redb mem_empty) (demo_chain2 True)
      (demo_b1 True) = Ret (Inr AlreadyInChain, db') \<and>
    chain_get_header_by_hash (demo_ext True) (mem_redb mem_empty) db' ''a1'' =
      Ret (Inr (demo_b1 True)))"
proof -
  obtain db' where add: "chain_try_add_block_header (demo_ext True) (mem_redb mem_empty)
      (demo_chain2 True) (demo_b1 True) = Ret (Inr AlreadyInChain, db')"
    using demo_b1_replaces by blast
  have idx: "snd (mem_view (demo_chain2 True)) (hash (demo_a1 True)) = Some (number (demo_b1 True))"
    by (simp add: demo_view2 put_header_row_def demo_a1_def demo_a2_def demo_b1_def)
  have "chain_get_header_by_hash (demo_ext True) (mem_redb mem_empty) (demo_chain2 True) ''a1'' =
      Ret (Inr (demo_a1 True))"
    using mem_chain.by_hash_total [OF demo_chain2_ok demo_chain2_wf, of True "''a1''"] idx
    by (simp add: demo_chain2_headers demo_a1_def demo_b1_def found_def)
  with chain_stale_hash_index [OF demo_chain2_facts [of True] idx _ add] add show ?thesis
    by (auto simp: demo_a1_def demo_b1_def)
qed

text \<open>
  C19: \<open>Chain::new\<close> on a database file that opens returns a chain whose invariant holds.
  On an empty file it holds the genesis alone; on a file that already holds a chain, all its
  other headers are kept and number 0 is the genesis again.
\<close>

theorem chain_open_establishes:
  assumes "reliable_chain_store R db_ok txn_ok stored view X"
    and "redb_create R path = Inr db0"
    and "stored db0 = (Map.empty, Map.empty) \<or> wf_tables X (stored db0)"
  shows "\<exists>db. chain_open X R path = Ret db \<and> db_ok db \<and> wf_tables X (stored db) \<and>
    headers_of X (stored db) = (headers_of X (stored db0))(0 \<mapsto> chain_genesis X)"
  by (rule reliable_chain_store.open_total [OF assms])

theorem chain_open_establishes_witness:
  "\<exists>db. chain_open (demo_ext True) (mem_redb mem_empty) ''./db.redb'' = Ret db \<and>
    wf_tables (demo_ext True) (mem_view db)"
proof -
  have "redb_create (mem_redb mem_empty) ''./db.redb'' = Inr mem_empty"
    "mem_view mem_empty = (Map.empty, Map.empty)"
    by (simp_all add: mem_redb_def mem_view_def mem_empty_def)
  with chain_open_establishes [OF mem_chain.reliable_chain_store_axioms [of True]]
  show ?thesis by blast
qed

text \<open>
  \<open>tip\<close> returns the stored header with the greatest number, and a number has a header
  exactly when it is at most the tip's: the chain has no gaps.
\<close>

lemma chain_tip_greatest:
  assumes "reliable_chain_store R db_ok txn_ok stored view X"
    and "db_ok db" and "wf_tables X (stored db)"
  shows "\<exists>t. chain_tip X R db = Ret (Inr t) \<and>
    (\<forall>n. (\<exists>h. chain_get_header_by_block_number X R db n = Ret (Inr h) \<and> number h = n) \<longleftrightarrow>
      n \<le> number t)"
  by (rule reliable_chain_store.tip_greatest [OF assms])

text \<open>
  C21: A header numbered 0 that is not the genesis is not rejected as invalid. A build with
  overflow checks panics on it, since validation computes \<open>header.number - 1\<close>; a build
  without reports that the parent is missing.
\<close>

theorem chain_zero_header:
  assumes "reliable_chain_store R db_ok txn_ok stored view X"
    and "db_ok db" and "wf_tables X (stored db)"
    and "number h = 0" and "h \<noteq> chain_genesis X"
    and "tip_number (headers_of X (stored db)) < n"
  shows "chain_try_add_block_header X R db h =
    (if overflow_checks X then Panic ''attempt to subtract with overflow''
     else Ret (Inl BlockHeaderNotFound, db))"
  by (rule reliable_chain_store.zero_header [OF assms])

theorem chain_zero_header_witness:
  "chain_try_add_block_header (demo_ext True) (mem_redb mem_empty) (demo_chain True)
      (demo_header 0 ''p'' ''x'') = Panic ''attempt to subtract with overflow''"
proof -
  have "tip_number (headers_of (demo_ext True) (mem_view (demo_chain True))) < 1"
    by (simp add: demo_chain_headers)
  from chain_zero_header [OF demo_chain_facts [of True] _ _ this, of "demo_header 0 ''p'' ''x''"]
  show ?thesis by simp
qed

text \<open>
  Mining on a chain that is not full yields a header that extends the tip: its number is
  the successor of the tip's, its parent hash the tip's hash, it becomes the tip, and the
  links stay intact. Its hash is computed from the clock and a random state root, which the
  header itself does not carry: there they are 0 and empty.
\<close>

lemma chain_mine_extends:
  assumes "reliable_chain_store R db_ok txn_ok stored view X"
    and "db_ok db" and "wf_tables X (stored db)"
    and "tip_number (headers_of X (stored db)) < n"
  shows "\<exists>h db'. bt_mine_block X (chain_tree X R) db inp = Ret (Mined h, db') \<and>
    number h = number (tip_header (headers_of X (stored db))) + 1 \<and>
    parent_hash h = hash (tip_header (headers_of X (stored db))) \<and>
    chain_tip X R db' = Ret (Inr h) \<and>
    hash h = hex_encode X (calculate_hash X (number h) (now inp)
      (hash (tip_header (headers_of X (stored db))))
      (hex_encode X (sha256 X (random_bytes inp))) ''a block data'' (random_nonce inp)) \<and>
    timestamp h = 0 \<and> state_root h = '''' \<and>
    (linked (headers_of X (stored db)) \<longrightarrow> linked (headers_of X (stored db')))"
  by (rule reliable_chain_store.mined [OF assms])

end
