(* ===== verification/Sync_Properties.thy ===== *)
theory Sync_Properties
  imports Sync_Header
begin

text \<open>
  The batches a synchronisation is cut into, the two providers of the tests of
  \<^verbatim>\<open>src/src/tasks/sync_header.rs\<close>, and what polling the future returns.
\<close>

section \<open>The batches cover the range\<close>

definition req_numbers :: "headers_request \<Rightarrow> u64 list" where
  "req_numbers r = map (\<lambda>i. start_block r + of_nat i) [0..<unat (limit r)]"

definition numbers_after :: "u64 \<Rightarrow> u64 \<Rightarrow> u64 list" where
  "numbers_after lo hi = map (\<lambda>i. lo + 1 + of_nat i) [0..<unat hi - unat lo]"

lemma length_numbers_after [simp]: "length (numbers_after lo hi) = unat hi - unat lo"
  by (simp add: numbers_after_def)

lemma nth_numbers_after: "i < unat hi - unat lo \<Longrightarrow> numbers_after lo hi ! i = lo + 1 + of_nat i"
  by (simp add: numbers_after_def)

lemma numbers_after_append:
  assumes "lo \<le> mid" and "mid \<le> hi"
  shows "numbers_after lo hi = numbers_after lo mid @ numbers_after mid hi"
proof -
  let ?a = "unat mid - unat lo" and ?b = "unat hi - unat mid"
  have le: "unat lo \<le> unat mid" "unat mid \<le> unat hi"
    using assms by (simp_all add: word_le_nat_alt)
  then have len: "unat hi - unat lo = ?a + ?b" by simp
  have split: "[0..<?a + ?b] = [0..<?a] @ map (\<lambda>i. i + ?a) [0..<?b]"
    unfolding map_add_upt using upt_add_eq_append [of 0 ?a ?b] by (simp add: add.commute)
  have mid: "(of_nat ?a :: u64) = mid - lo" using le by (simp add: of_nat_diff)
  show ?thesis
    unfolding numbers_after_def len split map_append map_map
    by (simp add: mid algebra_simps)
qed

lemma req_numbers_after:
  assumes "lo < hi" and "lim \<le> hi - lo"
  shows "req_numbers \<lparr>limit = lim, start_block = lo + 1\<rparr> = numbers_after lo (lo + lim)"
proof -
  have le: "lo \<le> hi" using assms(1) by simp
  have "unat lo + unat lim \<le> unat hi"
    using le assms(2) by (simp add: word_le_nat_alt unat_sub)
  also have "unat hi < 2 ^ 64" using unsigned_less [of hi] by simp
  finally have "unat (lo + lim) = unat lo + unat lim" by (simp add: unat_word_ariths)
  then show ?thesis by (simp add: req_numbers_def numbers_after_def)
qed

lemma plan_numbers:
  "0 < lim \<Longrightarrow> lo \<le> hi \<Longrightarrow>
    concat (map req_numbers (plan lim lo hi)) = numbers_after lo hi \<and>
    (\<forall>r \<in> set (plan lim lo hi). 0 < limit r \<and> limit r \<le> lim)"
proof (induction lim lo hi rule: plan.induct)
  case (1 lim lo hi)
  show ?case
  proof (cases "lo < hi")
    case False
    with "1.prems" show ?thesis by (simp add: plan_done numbers_after_def)
  next
    case True
    let ?d = "min (hi - lo) lim"
    have le: "lo \<le> lo + ?d" "lo + ?d \<le> hi"
      using u64_add_diff_ok(2,3) [of lo hi ?d] True by simp_all
    have pos: "0 < ?d" using True "1.prems"(1) by (auto simp: min_def word_gt_0)
    from "1.IH" [OF conjI [OF "1.prems"(1) True] "1.prems"(1) le(2)] pos
      req_numbers_after [OF True min.cobounded1] numbers_after_append [OF le]
    show ?thesis by (simp add: plan_step [OF "1.prems"(1) True])
  qed
qed

section \<open>The providers of the tests\<close>

text \<open>
  The futures of the tests are ready when they are made, and \<open>FuturesUnordered\<close> polls
  new futures in the order they were pushed; the world is the list of the requests made.
\<close>

definition mock_headers :: "headers_request \<Rightarrow> headers_response" where
  "mock_headers r =
     map (\<lambda>i. header_default\<lparr>number := of_nat i + start_block r\<rparr>) [0..<unat (limit r)]"

definition ready_provider ::
  "(headers_request \<Rightarrow> headers_response) \<Rightarrow>
     (headers_request list, headers_request) headers_provider" where
  "ready_provider answer = \<lparr>hp_get_headers = (\<lambda>w peer r. (r, w @ [r])),
     hp_poll_next = (\<lambda>w fs. (case fs of [] \<Rightarrow> None | f # _ \<Rightarrow> Some (0, Inr (answer f)), w)),
     hp_drop = (\<lambda>w fs. w)\<rparr>"

definition mock_headers_provider :: "(headers_request list, headers_request) headers_provider" where
  "mock_headers_provider = ready_provider mock_headers"

definition empty_provider :: "(headers_request list, headers_request) headers_provider" where
  "empty_provider = ready_provider (\<lambda>r. [])"

interpretation ready: headers_source "ready_provider answer" "\<lambda>w fs. True" "\<lambda>f. f" answer
  "\<lambda>w. w" "(=)" "(=)" for answer
  by unfold_locales
    (auto simp: ready_provider_def remove_nth_def split: list.splits)

lemma plan_limit: "0 < lim \<Longrightarrow> r \<in> set (plan lim lo hi) \<Longrightarrow> 0 < limit r \<and> limit r \<le> lim"
  using plan_numbers [of lim lo hi] plan_done [of hi lo lim] by (cases "lo \<le> hi") auto

lemma mock_headers_plan:
  assumes "0 < lim" and "lo \<le> hi"
  shows "concat (map mock_headers (plan lim lo hi)) =
    map (\<lambda>n. header_default\<lparr>number := n\<rparr>) (numbers_after lo hi)"
proof -
  have "mock_headers = (\<lambda>r. map (\<lambda>n. header_default\<lparr>number := n\<rparr>) (req_numbers r))"
    by (auto simp: mock_headers_def req_numbers_def fun_eq_iff add.commute)
  then have "concat (map mock_headers rs) =
      map (\<lambda>n. header_default\<lparr>number := n\<rparr>) (concat (map req_numbers rs))" for rs
    by (simp add: map_concat comp_def)
  with plan_numbers [OF assms] show ?thesis by simp
qed

lemma ready_drain:
  "(\<And>f. f \<in> set (in_progress_queue s) \<Longrightarrow> answer f \<noteq> []) \<Longrightarrow>
   drain_responses (ready_provider answer) w s =
     (Inr (), s\<lparr>in_progress_queue := [],
       queued_headers := queued_headers s @ concat (map answer (in_progress_queue s))\<rparr>, w)"
proof (induction "in_progress_queue s" arbitrary: s)
  case Nil
  then show ?case
    by (subst drain_responses.simps) (simp add: ready_provider_def flip: Nil.hyps)
next
  case (Cons f fs)
  let ?s = "s\<lparr>in_progress_queue := fs, queued_headers := queued_headers s @ answer f\<rparr>"
  have "answer f \<noteq> []" using Cons.prems Cons.hyps(2) by (metis list.set_intros(1))
  then have "drain_responses (ready_provider answer) w s =
      drain_responses (ready_provider answer) w ?s"
    by (subst drain_responses.simps)
      (simp add: ready_provider_def remove_nth_def on_header_response_def flip: Cons.hyps(2))
  also have "\<dots> = (Inr (), ?s\<lparr>in_progress_queue := [],
      queued_headers := queued_headers ?s @ concat (map answer fs)\<rparr>, w)"
    using Cons.hyps(1) [of ?s] Cons.prems Cons.hyps(2) [symmetric] by simp
  finally show ?case by (simp flip: Cons.hyps(2))
qed

lemma ready_poll:
  assumes fresh: "sync_fresh s" and answers: "\<And>r. r \<in> set (plan (request_limit s)
    (local_head_block s) (target_head s)) \<Longrightarrow> answer r \<noteq> []"
  shows "\<exists>s'. sync_poll checks (ready_provider answer) s w =
    Ret (Ready (Inr (concat (map answer
      (plan (request_limit s) (local_head_block s) (target_head s))))), s',
      w @ plan (request_limit s) (local_head_block s) (target_head s))"
proof -
  let ?P = "ready_provider answer"
  define I where "I s w \<longleftrightarrow> (\<forall>f \<in> set (in_progress_queue s) \<union>
      set (plan (request_limit s) (local_head_block s) (target_head s)). answer f \<noteq> [])"
    for s :: "headers_request sync_header" and w :: "headers_request list"
  have d: "drain_responses ?P w s = (Inr (), s\<lparr>in_progress_queue := [],
      queued_headers := queued_headers s @ concat (map answer (in_progress_queue s))\<rparr>, w)"
    if "I s w" for s w
    using that by (intro ready_drain) (auto simp: I_def)
  have keep: "I s1 w1" if "issue_requests checks ?P w s False = Ret (p, s1, w1)"
    "0 < request_limit s" "I s w" for s w p s1 w1
  proof -
    from ready.issue_source [OF that(1,2) TrueI] obtain fs where
      "in_progress_queue s1 = in_progress_queue s @ fs"
      "plan (request_limit s) (local_head_block s) (target_head s) =
        fs @ plan (request_limit s1) (local_head_block s1) (target_head s1)"
      by auto
    with that(3) show ?thesis by (auto simp: I_def)
  qed
  have lim: "0 < request_limit s" using fresh by (simp add: sync_fresh_def)
  obtain r s' w' where loop: "sync_loop checks ?P s w = Some (Ret (r, s', w'))"
    using sync_loop_returns [OF lim, of checks ?P w] by auto
  have "I s w" using fresh answers by (simp add: I_def sync_fresh_def)
  from sync_loop_induct [where I = I, OF loop lim this] d keep
  have "in_progress_queue s' = [] \<and> r = Ready (Inr (queued_headers s'))"
    by (fastforce simp: I_def)
  then have poll: "sync_poll checks ?P s w = Ret (Ready (Inr (queued_headers s')), s', w')"
    using loop by (simp add: sync_poll_loop)
  from ready.run_result [OF sync_run.start fresh TrueI poll] poll show ?thesis by auto
qed

text \<open>
  With the provider of the tests, awaiting the synchroniser returns at the first poll, for
  every range, batch size and number of concurrent requests: the headers after the local head
  up to the target in order, and the requests made are the batches of the plan.
\<close>

lemma mock_poll:
  assumes "sync_fresh s" and "local_head_block s \<le> target_head s"
  shows "\<exists>s'. sync_poll checks mock_headers_provider s w =
    Ret (Ready (Inr (map (\<lambda>n. header_default\<lparr>number := n\<rparr>)
        (numbers_after (local_head_block s) (target_head s)))), s',
      w @ plan (request_limit s) (local_head_block s) (target_head s))"
proof -
  have lim: "0 < request_limit s" using assms(1) by (simp add: sync_fresh_def)
  have "mock_headers r \<noteq> []"
    if "r \<in> set (plan (request_limit s) (local_head_block s) (target_head s))" for r
    using plan_limit [OF lim that] by (simp add: mock_headers_def word_less_nat_alt)
  then have "\<exists>s'. sync_poll checks (ready_provider mock_headers) s w =
    Ret (Ready (Inr (concat (map mock_headers
      (plan (request_limit s) (local_head_block s) (target_head s))))), s',
      w @ plan (request_limit s) (local_head_block s) (target_head s))"
    by (rule ready_poll [OF assms(1)])
  moreover note mock_headers_plan [OF lim assms(2)]
  ultimately show ?thesis by (simp only: mock_headers_provider_def)
qed

text \<open>A provider that answers with no headers makes the synchroniser fail at the first poll.\<close>

lemma empty_sync_fails:
  assumes "sync_fresh s" and "local_head_block s < target_head s"
  shows "\<exists>s' w'. sync_poll checks empty_provider s w = Ret (Ready (Inl EmptyResponse), s', w')"
proof -
  let ?P = "ready_provider (\<lambda>r. [])"
  have "\<exists>e. drain_responses ?P w s = (e, s, w) \<and> in_progress_queue s = [] \<and> e = Inr ()"
    using assms(1) by (subst drain_responses.simps) (simp add: ready_provider_def sync_fresh_def)
  then have d: "drain_responses ?P w s = (Inr (), s, w)" by simp
  obtain p s2 w2 where i: "issue_requests checks ?P w s False = Ret (p, s2, w2)"
    using issue_requests_returns [of checks ?P w s False] by blast
  note post = issue_requests_Ret [OF i]
  have e: "in_progress_queue s = []" "0 < unat (max_concurrent_limit s)"
    using assms(1) by (simp_all add: sync_fresh_def word_less_nat_alt)
  have p: p using post(9,10) assms(2) e by (cases p) auto
  have "length (in_progress_queue s2) \<noteq> 0"
  proof
    assume "length (in_progress_queue s2) = 0"
    with ready.issue_source [OF i _ TrueI] assms(1) post(1,2)
    have same: "plan (request_limit s) (local_head_block s) (target_head s) =
        plan (request_limit s) (local_head_block s2) (target_head s)"
      by (auto simp: sync_fresh_def)
    have pos: "0 < request_limit s" using assms(1) by (simp add: sync_fresh_def)
    with post(12) [OF p] have "local_head_block s \<noteq> local_head_block s2" by auto
    with same plan_step [OF pos assms(2)] plan.simps [of "request_limit s" "local_head_block s2"]
    show False by (auto split: if_splits)
  qed
  then obtain f fs where q: "in_progress_queue s2 = f # fs" by (cases "in_progress_queue s2") auto
  have "drain_responses ?P w2 s2 = (Inl EmptyResponse, s2\<lparr>in_progress_queue := fs\<rparr>, w2)"
    by (subst drain_responses.simps)
      (simp add: q ready_provider_def on_header_response_def remove_nth_def)
  from sync_loop_error [OF this] sync_loop_round [OF d i] p
  show ?thesis by (simp add: sync_poll_def empty_provider_def)
qed

section \<open>Properties\<close>

text \<open>The set-up of the tests, and one with the largest target there is.\<close>

definition demo_sync :: "headers_request sync_header" where
  "demo_sync = \<lparr>in_progress_queue = [], queued_headers = [], max_concurrent_limit = 10,
     local_head_block = 0, request_limit = 7, target_head = 18446744073709551615,
     sync_peer_id = ''peer''\<rparr>"

definition test_sync :: "headers_request sync_header" where
  "test_sync = demo_sync\<lparr>target_head := 1000\<rparr>"

text \<open>
  C22: Polling the synchroniser always returns, in both build profiles and whatever the
  provider does, when its batch size is positive: the loop ends and its arithmetic neither
  overflows nor underflows.
\<close>

theorem sync_poll_total:
  assumes "0 < request_limit s"
  shows "\<exists>r s' w'. sync_poll checks P s w = Ret (r, s', w')"
  using sync_loop_returns [OF assms, of checks P w] by (auto simp: sync_poll_loop)

theorem sync_poll_total_witness:
  "\<exists>r s' w'. sync_poll True empty_provider demo_sync [] = Ret (r, s', w')"
  by (rule sync_poll_total) (simp add: demo_sync_def)

text \<open>
  C23: A poll never leaves more requests in flight than the configured number, never moves the
  local head backwards and never moves it past the target, whatever the provider answers
  and whatever the poll returns.
\<close>

theorem sync_poll_bounds:
  assumes "0 < request_limit s" and "sync_poll checks P s w = Ret (r, s', w')"
    and "length (in_progress_queue s) \<le> unat (max_concurrent_limit s)"
    and "local_head_block s \<le> target_head s"
  shows "length (in_progress_queue s') \<le> unat (max_concurrent_limit s) \<and>
    local_head_block s \<le> local_head_block s' \<and> local_head_block s' \<le> target_head s"
proof -
  define I where "I t v \<longleftrightarrow> target_head t = target_head s \<and>
    max_concurrent_limit t = max_concurrent_limit s \<and>
    length (in_progress_queue t) \<le> unat (max_concurrent_limit s) \<and>
    local_head_block s \<le> local_head_block t \<and> local_head_block t \<le> target_head s"
    for t :: "'a sync_header" and v :: 'b
  have d: "I t1 v1" if "I t v" "drain_responses P v t = (q, t1, v1)" for t v q t1 v1
    using drain_responses_keeps [OF that(2)] that(1) by (simp add: I_def)
  have i: "I t1 v1" if "I t v" "issue_requests checks P v t False = Ret (p, t1, v1)" for t v p t1 v1
    using issue_requests_Ret [OF that(2)] that(1) by (auto simp: I_def intro: order.trans)
  have "I s w" using assms(3,4) by (simp add: I_def)
  then have "I s' w'"
    by (rule sync_poll_invariant [where I = I, OF assms(2,1)]) (erule (1) d, erule (1) i)
  then show ?thesis by (simp add: I_def)
qed

theorem sync_poll_bounds_witness:
  "\<exists>r s' w'. sync_poll True mock_headers_provider test_sync [] = Ret (r, s', w') \<and>
    length (in_progress_queue s') \<le> 10 \<and> local_head_block s' \<le> 1000"
proof -
  obtain r s' w' where poll: "sync_poll True mock_headers_provider test_sync [] = Ret (r, s', w')"
    using sync_loop_returns [of test_sync True mock_headers_provider "[]"]
    by (auto simp: sync_poll_loop test_sync_def demo_sync_def)
  from sync_poll_bounds [OF _ poll] poll show ?thesis
    by (simp add: test_sync_def demo_sync_def)
qed

text \<open>
  Building a synchroniser panics exactly when no provider or no peer was set (the missing
  provider is reported first); otherwise the future starts with no requests and no headers,
  and with the limits given to the builder.
\<close>

lemma sync_build_result:
  "sync_build b = (case (b_provider b, b_peer_id b) of
     (None, _) \<Rightarrow> Panic ''Provider is required''
   | (Some p, None) \<Rightarrow> Panic ''Peer id is required''
   | (Some p, Some peer) \<Rightarrow> Ret (p, \<lparr>in_progress_queue = [], queued_headers = [],
       max_concurrent_limit = b_max_concurrent_limit b, local_head_block = b_local_head_block b,
       request_limit = b_request_limit b, target_head = b_target_head b, sync_peer_id = peer\<rparr>))"
  by (simp add: sync_build_def split: option.splits)

end
