(* ===== verification/Net_Properties.thy ===== *)
theory Net_Properties
  imports Chain_Net Provider Chain_Properties Sync_Properties
begin

text \<open>
  The chain network manager on the redb chain and the network provider: the provider works as
  long as the network task is there and answers broadcasts, and the properties of the
  manager, of the provider and of a whole synchronisation.
\<close>

section \<open>The network provider works\<close>

text \<open>The command channel is open, and no broadcast in flight has lost its sender.\<close>

fun broadcast_live :: "chans \<Rightarrow> net_fut \<Rightarrow> bool" where
  "broadcast_live cs (BroadcastFut c) \<longleftrightarrow>
     c < length cs \<and> (tx_alive (cs ! c) \<or> (\<exists>v. sent (cs ! c) = Some v))"
| "broadcast_live cs _ \<longleftrightarrow> False"

definition net_up :: "net_world \<Rightarrow> net_fut list \<Rightarrow> bool" where
  "net_up w fs \<longleftrightarrow> command_open w \<and> (\<forall>f \<in> set fs. broadcast_live (channels w) f)"

lemma broadcast_live_append: "broadcast_live cs f \<Longrightarrow> broadcast_live (cs @ ds) f"
  by (cases f) (auto simp: nth_append)

lemma broadcast_live_drop_receiver:
  "broadcast_live cs f \<Longrightarrow> broadcast_live (drop_receiver c cs) f"
  by (cases f) (auto simp: drop_receiver_def nth_list_update)

lemma broadcast_live_send:
  "broadcast_live cs f \<Longrightarrow> oneshot_send c v cs = Inr cs' \<Longrightarrow> broadcast_live cs' f"
  by (cases f) (auto simp: oneshot_send_def nth_list_update split: if_splits)

lemma net_up_append:
  "net_up w fs \<Longrightarrow> channels w' = channels w @ ds \<Longrightarrow> command_open w' = command_open w \<Longrightarrow>
    net_up w' fs"
  by (auto simp: net_up_def broadcast_live_append)

lemma np_drop_up: "net_up w fs \<Longrightarrow> net_up (np_drop w gs) fs"
proof -
  have "broadcast_live (fold (\<lambda>f cs. case fut_channel f of
      None \<Rightarrow> cs | Some c \<Rightarrow> drop_receiver c cs) gs cs) f" if "broadcast_live cs f" for cs f
    using that
    by (induction gs arbitrary: cs) (auto simp: broadcast_live_drop_receiver split: option.splits)
  then show "net_up w fs \<Longrightarrow> net_up (np_drop w gs) fs"
    by (auto simp: net_up_def np_drop_def)
qed

lemma broadcast_sent:
  assumes "net_up w fs"
  shows "\<exists>fut w'. np_broadcast_block_header w h = Ret (fut, w') \<and> net_up w' (fs @ [fut])"
    and "\<exists>fut w'. np_broadcast_transactions w txs = Ret (fut, w') \<and> net_up w' (fs @ [fut])"
  using assms
  by (auto simp: np_broadcast_block_header_def np_broadcast_transactions_def net_up_def
      send_command_def oneshot_channel_def broadcast_live_append)

lemma poll_unit_live: "broadcast_live cs f \<Longrightarrow> \<exists>p. poll_unit_fut cs f = Ret p"
  by (cases f) (auto simp: poll_receiver_def split: option.splits reply.splits)

lemma np_poll_broadcasts_total:
  assumes "net_up w fs"
  shows "\<exists>r w'. np_poll_broadcasts pick w fs = Ret (r, w') \<and> net_up w' (case r of None \<Rightarrow> fs
    | Some (i, res) \<Rightarrow> if i < length fs then remove_nth i fs else fs)"
proof -
  let ?rs = "filter (\<lambda>i. poll_unit_fut (channels w) (fs ! i) \<noteq> Ret Pending) [0..<length fs]"
  have up: "net_up w (remove_nth i fs)" for i
    using assms by (auto simp: net_up_def remove_nth_def dest: in_set_takeD in_set_dropD)
  show ?thesis
  proof (cases "pick_ready pick w ?rs")
    case None
    with assms show ?thesis by (simp add: np_poll_broadcasts_def del: pick_ready_None)
  next
    case (Some i)
    from pick_ready_Some [OF this] have i: "i < length fs" by simp
    with assms obtain p where "poll_unit_fut (channels w) (fs ! i) = Ret p"
      using poll_unit_live [of "channels w" "fs ! i"] by (auto simp: net_up_def)
    with Some assms up i show ?thesis
      by (cases p) (simp_all add: np_poll_broadcasts_def)
  qed
qed

interpretation net: working_provider "network_provider pick" net_up for pick
proof unfold_locales
  show "net_up w' fs" if "net_up w fs" "hp_get_headers (network_provider pick) w p r = (f, w')"
    for w fs p r f w'
    using that np_get_headers_result(2) [of w p r f w']
    by (auto simp: np_get_headers_def oneshot_channel_def send_command_def net_up_def
        broadcast_live_append)
  show "net_up w' fs" if "net_up w fs" "pp_get_closest_peers (network_provider pick) w = (f, w')"
    for w fs f w'
    using that by (auto simp: np_get_closest_peers_def oneshot_channel_def send_command_def
        net_up_def broadcast_live_append)
  show "net_up w' fs" if "net_up w fs" "hp_poll_next (network_provider pick) w gs = (x, w')"
    for w fs gs x w'
    using that np_poll_headers_same by fastforce
  show "net_up w gs" if "net_up w fs" "set gs \<subseteq> set fs" for w fs gs
    using that by (auto simp: net_up_def)
qed (use broadcast_sent np_poll_broadcasts_total np_drop_up in \<open>simp_all\<close>)

section \<open>A node's manager\<close>

definition node_deps ::
  "ext \<Rightarrow> ('db, 'txn) redb \<Rightarrow> (net_world \<Rightarrow> nat list \<Rightarrow> nat) \<Rightarrow> (net_world \<Rightarrow> nat \<Rightarrow> nat list) \<Rightarrow>
     ('db, net_world, net_fut) net_deps" where
  "node_deps X R pick woken = \<lparr>nd_checks = overflow_checks X, nd_tree = chain_tree X R,
     nd_provider = network_provider pick, nd_respond = net_respond, nd_woken = woken\<rparr>"

lemma node_deps_simps [simp]:
  "nd_checks (node_deps X R pick woken) = overflow_checks X"
  "nd_tree (node_deps X R pick woken) = chain_tree X R"
  "nd_provider (node_deps X R pick woken) = network_provider pick"
  "nd_respond (node_deps X R pick woken) = net_respond"
  by (simp_all add: node_deps_def)

lemma net_respond_up: "net_up w fs \<Longrightarrow> net_up (net_respond c v w) fs"
  by (auto simp: net_up_def net_respond_def broadcast_live_send split: sum.splits)

lemmas reliable_tree = reliable_chain_store.as_block_tree
lemmas tree_contract = chain_store.as_contract

lemma node_running:
  assumes "reliable_chain_store R db_ok txn_ok stored view X" and "\<not> overflow_checks X"
  shows "running_manager (chain_tree X R) (\<lambda>db. db_ok db \<and> wf_tables X (stored db))
    (\<lambda>db. headers_of X (stored db)) (node_deps X R pick woken) net_up"
  using reliable_tree [OF assms(1)] assms(2) net.working_provider_axioms net_respond_up
  by (simp add: running_manager_def running_manager_axioms_def)

interpretation node: running_manager "chain_tree (demo_ext False) (mem_redb mem_empty)"
  "\<lambda>db. mem_good db \<and> wf_tables (demo_ext False) (mem_view db)"
  "\<lambda>db. headers_of (demo_ext False) (mem_view db)"
  "node_deps (demo_ext False) (mem_redb mem_empty) pick woken" net_up for pick woken
  by (rule node_running [OF mem_chain.reliable_chain_store_axioms]) (simp add: demo_ext_def)

section \<open>Example data\<close>

definition demo_deps :: "bool \<Rightarrow> (mem_db, net_world, net_fut) net_deps" where
  "demo_deps c = node_deps (demo_ext c) (mem_redb mem_empty) (\<lambda>w rs. hd rs) (\<lambda>w n. [0..<n])"

definition demo_world :: net_world where
  "demo_world = \<lparr>command_open = True, commands = [], channels = []\<rparr>"

definition demo_manager :: "bool \<Rightarrow> chain_network_event list \<Rightarrow> (mem_db, net_fut) chain_net" where
  "demo_manager c es = (chain_net_new (demo_chain2 c) pool_new)\<lparr>event_recv := es\<rparr>"

lemmas demo_tree = reliable_tree [OF demo_chain2_facts(1)]

lemma demo_inv: "mem_good (demo_chain2 c) \<and> wf_tables (demo_ext c) (mem_view (demo_chain2 c))"
  using demo_chain2_facts by blast

lemma demo_manager_ok:
  "manager_ok (\<lambda>db. mem_good db \<and> wf_tables (demo_ext c) (mem_view db)) net_up
    (demo_manager c es) demo_world"
  using demo_inv [of c] by (simp add: demo_manager_def demo_world_def chain_net_new_def
      manager_ok_def limits_ok_def net_up_def)

section \<open>Properties of the manager\<close>

text \<open>
  C6: A node whose network task is running never crashes in its chain manager. In a release
  build, with storage that does not fail, every poll returns, whatever events have arrived
  and whatever headers the peers sent, and leaves a state and a world of which the same holds.
\<close>

theorem manager_poll_total:
  assumes "reliable_chain_store R db_ok txn_ok stored view X" and "\<not> overflow_checks X"
    and "manager_ok (\<lambda>db. db_ok db \<and> wf_tables X (stored db)) net_up st w"
  shows "\<exists>st' w'. chain_net_poll (node_deps X R pick woken) st w = Ret (Pending, st', w') \<and>
    manager_ok (\<lambda>db. db_ok db \<and> wf_tables X (stored db)) net_up st' w'"
  by (rule running_manager.poll_total [OF node_running [OF assms(1,2)] assms(3)])

theorem manager_poll_total_witness:
  "\<exists>st' w'. chain_net_poll (demo_deps False)
     (demo_manager False [IncomingNewBlockHeader (demo_header 9 ''x'' ''y'')]) demo_world =
     Ret (Pending, st', w')"
  using manager_poll_total [OF demo_chain2_facts(1) [of False] _ demo_manager_ok]
  unfolding demo_deps_def by (force simp: demo_ext_def)

text \<open>
  Polling the manager keeps the invariant of the chain's store, and the chain only grows:
  the tip does not move down and no number loses its header. This holds in every build, with
  failing storage, and for every provider.
\<close>

lemma manager_poll_grows:
  assumes "chain_store R db_ok txn_ok stored view X" and "nd_tree D = chain_tree X R"
    and "db_ok (cn_chain st)" and "wf_tables X (stored (cn_chain st))"
    and "chain_net_poll D st w = Ret (r, st', w')"
  shows "db_ok (cn_chain st') \<and> wf_tables X (stored (cn_chain st')) \<and>
    grows (headers_of X (stored (cn_chain st))) (headers_of X (stored (cn_chain st')))"
  using block_tree_contract.poll_grows [OF tree_contract [OF assms(1)] assms(2)
      conjI [OF assms(3,4)] assms(5)] by simp

text \<open>
  C12: A request for headers is answered with the stored headers from its start on, in
  ascending order and without a gap: as many as it asks for, or up to the tip when that comes
  first, and none when it starts after the tip.
\<close>

theorem headers_request_answered:
  assumes "reliable_chain_store R db_ok txn_ok stored view X"
    and "db_ok db" and "wf_tables X (stored db)"
    and "tip_number (headers_of X (stored db)) < bound"
  shows "handle_get_block_headers_request checks (chain_tree X R) db r =
    Ret (map (\<lambda>n. the (headers_of X (stored db) n)) (number_range (start_block r)
      (min (unat (limit r))
        (unat (tip_number (headers_of X (stored db))) + 1 - unat (start_block r)))))"
  using reliable_block_tree.answers_request [OF reliable_tree [OF assms(1)]
      conjI [OF assms(2,3)] assms(4)] by (simp add: requested_def)

theorem headers_request_answered_witness:
  "handle_get_block_headers_request True (chain_tree (demo_ext True) (mem_redb mem_empty))
     (demo_chain2 True) \<lparr>limit = 1000, start_block = 1\<rparr> = Ret [demo_a1 True, demo_a2]"
proof -
  note t = demo_chain2_tip [of True]
  have "tip_number (headers_of (demo_ext True) (mem_view (demo_chain2 True))) < 3"
    unfolding t by simp
  from headers_request_answered [OF demo_chain2_facts [of True] this,
      of True "\<lparr>limit = 1000, start_block = 1\<rparr>"]
  have res: "handle_get_block_headers_request True (chain_tree (demo_ext True) (mem_redb mem_empty))
      (demo_chain2 True) \<lparr>limit = 1000, start_block = 1\<rparr> =
    Ret (map (\<lambda>n. the (headers_of (demo_ext True) (mem_view (demo_chain2 True)) n))
      (number_range 1 (min (unat (1000 :: u64)) (unat (2 :: u64) + 1 - unat (1 :: u64)))))"
    unfolding t by simp
  have "number_range 1 (min (unat (1000 :: u64)) (unat (2 :: u64) + 1 - unat (1 :: u64))) = [1, 2]"
    by (simp add: number_range_def upt_rec)
  with res show ?thesis by (simp add: demo_chain2_headers)
qed







end
