(* ===== verification/Sync_Order.thy ===== *)
theory Sync_Order
  imports Net_Properties
begin

text \<open>
  A synchronisation over the network provider, whatever the order in which the responses
  arrive, and what that order does to the chain: the headers of an honest peer are complete
  but not in order, and the manager then adds none of them.
\<close>

section \<open>An example run\<close>

text \<open>
  The peer has the example chain of two blocks, we have the genesis. Two requests are made,
  and the response to the second one arrives first.
\<close>

definition order_sync :: "net_fut sync_header" where
  "order_sync = \<lparr>in_progress_queue = [], queued_headers = [], max_concurrent_limit = 10,
     local_head_block = 0, request_limit = 1, target_head = 2, sync_peer_id = ''peer''\<rparr>"

definition order_req :: "u64 \<Rightarrow> headers_request" where
  "order_req n = \<lparr>limit = 1, start_block = n\<rparr>"

definition order_header :: "u64 \<Rightarrow> header" where
  "order_header n = (if n = 1 then demo_a1 True else demo_a2)"

definition peer_headers :: header_map where
  "peer_headers = headers_of (demo_ext True) (mem_view (demo_chain2 True))"

definition first_ready :: "net_world \<Rightarrow> nat list \<Rightarrow> nat" where
  "first_ready w rs = hd rs"

definition order_chan :: "u64 \<Rightarrow> bool \<Rightarrow> chan" where
  "order_chan n answered = \<lparr>sent = (if answered then Some (HeadersReply (Inr [order_header n])) else None),
     tx_alive = \<not> answered, rx_alive = True, asked = Some (order_req n)\<rparr>"

definition order_world :: "bool \<Rightarrow> bool \<Rightarrow> net_world" where
  "order_world a b = \<lparr>command_open = True, commands =
     [GetHeaders \<lparr>ghr_peer = ''peer'', ghr_request = order_req 1, ghr_sender = 0\<rparr>,
      GetHeaders \<lparr>ghr_peer = ''peer'', ghr_request = order_req 2, ghr_sender = 1\<rparr>],
     channels = [order_chan 1 a, order_chan 2 b]\<rparr>"

definition order_sync1 :: "net_fut sync_header" where
  "order_sync1 = order_sync\<lparr>local_head_block := 2,
     in_progress_queue := [HeadersFut 0 (order_req 1), HeadersFut 1 (order_req 2)]\<rparr>"

definition order_sync2 :: "net_fut sync_header" where
  "order_sync2 = order_sync\<lparr>local_head_block := 2,
     in_progress_queue := [HeadersFut 0 (order_req 1)], queued_headers := [order_header 2]\<rparr>"

definition order_sync3 :: "net_fut sync_header" where
  "order_sync3 = order_sync\<lparr>local_head_block := 2,
     queued_headers := [order_header 2, order_header 1]\<rparr>"

lemmas order_defs = order_sync_def order_sync1_def order_sync2_def order_sync3_def order_req_def
  order_world_def order_chan_def demo_world_def first_ready_def

lemmas order_poll = drain_responses.simps np_poll_headers_def pick_ready_def poll_receiver_def
  on_header_response_def remove_nth_def Let_def

lemma order_idle:
  "local_head_block s = 2 \<Longrightarrow> target_head s = 2 \<Longrightarrow>
    issue_requests c P w s False = Ret (False, s, w)"
  by (simp add: issue_requests.simps)

lemma order_poll1: "sync_poll c (network_provider first_ready) order_sync demo_world =
    Ret (Pending, order_sync1, order_world False False)"
proof -
  let ?P = "network_provider first_ready"
  have d: "drain_responses ?P demo_world order_sync = (Inr (), order_sync, demo_world)"
    by (simp add: order_defs order_poll)
  have i: "issue_requests c ?P demo_world order_sync False =
      Ret (True, order_sync1, order_world False False)"
    by (simp add: order_defs issue_requests.simps next_request_def u64_sub_def u64_add_def Let_def
        np_get_headers_def oneshot_channel_def send_command_def)
  have d1: "drain_responses ?P (order_world False False) order_sync1 =
      (Inr (), order_sync1, order_world False False)"
    by (simp add: order_defs order_poll)
  have i1: "issue_requests c ?P (order_world False False) order_sync1 False =
      Ret (False, order_sync1, order_world False False)"
    by (rule order_idle) (simp_all add: order_defs)
  from sync_loop_round [OF d i] sync_loop_round [OF d1 i1] show ?thesis
    by (simp add: sync_poll_def order_sync1_def)
qed

lemma order_poll2: "sync_poll c (network_provider first_ready) order_sync1 (order_world False True) =
    Ret (Pending, order_sync2, order_world False True)"
proof -
  let ?P = "network_provider first_ready"
  have d: "drain_responses ?P (order_world False True) order_sync1 =
      (Inr (), order_sync2, order_world False True)"
    by (simp add: order_defs order_poll)
  have i: "issue_requests c ?P (order_world False True) order_sync2 False =
      Ret (False, order_sync2, order_world False True)"
    by (rule order_idle) (simp_all add: order_defs)
  from sync_loop_round [OF d i] show ?thesis by (simp add: sync_poll_def order_sync2_def)
qed

lemma order_poll3: "sync_poll c (network_provider first_ready) order_sync2 (order_world True True) =
    Ret (Ready (Inr [order_header 2, order_header 1]), order_sync3, order_world True True)"
proof -
  let ?P = "network_provider first_ready"
  have d: "drain_responses ?P (order_world True True) order_sync2 =
      (Inr (), order_sync3, order_world True True)"
    by (simp add: order_defs order_poll)
  have i: "issue_requests c ?P (order_world True True) order_sync3 False =
      Ret (False, order_sync3, order_world True True)"
    by (rule order_idle) (simp_all add: order_defs)
  from sync_loop_round [OF d i] show ?thesis
    by (simp add: sync_poll_def order_sync3_def order_sync_def)
qed

lemma peer_answers:
  "requested peer_headers (order_req 1) = [order_header 1]"
  "requested peer_headers (order_req 2) = [order_header 2]"
proof -
  have t: "tip_number peer_headers = 2" unfolding peer_headers_def by (rule demo_chain2_tip)
  have "peer_headers 1 = Some (order_header 1)" "peer_headers 2 = Some (order_header 2)"
    by (simp_all add: peer_headers_def demo_chain2_headers order_header_def)
  then show "requested peer_headers (order_req 1) = [order_header 1]"
    "requested peer_headers (order_req 2) = [order_header 2]"
    by (simp_all add: requested_def t order_req_def number_range_def)
qed

lemma order_env:
  "net_env (requested peer_headers) (order_world False False) (order_world False True)"
  "net_env (requested peer_headers) (order_world False True) (order_world True True)"
proof -
  have [simp]: "c < 2 \<longleftrightarrow> c = 0 \<or> c = Suc 0" for c :: nat by auto
  show "net_env (requested peer_headers) (order_world False False) (order_world False True)"
    "net_env (requested peer_headers) (order_world False True) (order_world True True)"
    by (auto simp: net_env_def order_world_def order_chan_def asked_log_def honest_reply_def
        peer_answers less_Suc_eq)
qed

lemma order_run:
  "sync_run c (network_provider first_ready) (net_env (requested peer_headers))
    order_sync demo_world order_sync2 (order_world True True)"
proof -
  let ?run = "sync_run c (network_provider first_ready) (net_env (requested peer_headers))
    order_sync demo_world"
  have "?run order_sync demo_world" by (rule sync_run.start)
  then have "?run order_sync1 (order_world False True)"
    using order_poll1 order_env(1) by (rule sync_run.again)
  then show ?thesis using order_poll2 order_env(2) by (rule sync_run.again)
qed

lemma order_fresh: "sync_fresh order_sync"
  by (simp add: sync_fresh_def order_sync_def)

section \<open>Properties\<close>

lemma mset_concat_cong:
  "mset a = mset b \<Longrightarrow> mset (concat (map f a)) = mset (concat (map f b))"
  by (metis mset_concat mset_map sum_mset_sum_list)

text \<open>
  C8: When a synchronisation over the network provider completes, in whatever order and over
  however many polls the responses arrived, the requests it made are the batches of its plan,
  the headers are the peer's answers to all of them, each once, and with an honest peer
  their numbers are exactly those after the local head up to the target.
\<close>

theorem net_sync_result:
  assumes "sync_run checks (network_provider pick) (net_env answer) s0 w0 s w"
    and "sync_fresh s0" and "local_head_block s0 \<le> target_head s0"
    and "sync_poll checks (network_provider pick) s w = Ret (Ready (Inr hs), s', w')"
    and "\<forall>r \<in> set (plan (request_limit s0) (local_head_block s0) (target_head s0)).
      map number (answer r) = req_numbers r"
  shows "asked_log (channels w') = asked_log (channels w0) @
      plan (request_limit s0) (local_head_block s0) (target_head s0) \<and>
    (\<exists>rs. mset rs = mset (plan (request_limit s0) (local_head_block s0) (target_head s0)) \<and>
      hs = concat (map answer rs)) \<and>
    mset (map number hs) = mset (numbers_after (local_head_block s0) (target_head s0))"
proof -
  let ?plan = "plan (request_limit s0) (local_head_block s0) (target_head s0)"
  have lim: "0 < request_limit s0" using assms(2) by (simp add: sync_fresh_def)
  have "futs_ok answer w0 []" by (simp add: futs_ok_def)
  from net.run_result [OF assms(1,2) this assms(4)] obtain rs where
    log: "asked_log (channels w') = asked_log (channels w0) @ ?plan"
    and rs: "mset ?plan = mset rs" "hs = concat (map answer rs)" by auto
  have "map number hs = concat (map req_numbers rs)"
    using assms(5) mset_eq_setD [OF rs(1)] unfolding rs(2) map_concat map_map comp_def
    by (intro arg_cong [of _ _ concat] map_cong) auto
  then have "mset (map number hs) = mset (concat (map req_numbers ?plan))"
    using mset_concat_cong [OF rs(1)] by metis
  with plan_numbers [OF lim assms(3)] log rs show ?thesis by metis
qed

theorem net_sync_result_witness:
  "asked_log (channels (order_world True True)) = plan 1 0 2 \<and>
    mset (map number [order_header 2, order_header 1]) = mset (numbers_after 0 2)"
proof -
  have p: "plan 1 0 2 = [order_req 1, order_req 2]"
    by (simp add: plan.simps order_req_def)
  have "\<forall>r \<in> set (plan (request_limit order_sync) (local_head_block order_sync)
      (target_head order_sync)). map number (requested peer_headers r) = req_numbers r"
    using p peer_answers by (auto simp: order_sync_def order_header_def demo_a1_def demo_a2_def
        req_numbers_def) (simp_all add: order_req_def)
  from net_sync_result [OF order_run order_fresh _ order_poll3 this] show ?thesis
    by (simp add: order_sync_def demo_world_def asked_log_def)
qed


end
