(* ===== verification/Convergence.thy ===== *)
theory Convergence
  imports Sync_Order
begin

text \<open>
  Synchronising with a peer: the batches a synchroniser asks for, answered by the peer's
  manager, are the peer's headers one after the other, and adding them makes the local
  chain equal to the peer's up to the target.
\<close>

lemma req_numbers_range: "req_numbers r = number_range (start_block r) (unat (limit r))"
  by (simp add: req_numbers_def number_range_def)

lemma plan_within:
  "r \<in> set (plan lim lo hi) \<Longrightarrow> \<exists>l. start_block r = l + 1 \<and> l < hi \<and> limit r \<le> hi - l"
proof (induction lim lo hi rule: plan.induct)
  case (1 lim lo hi)
  show ?case
  proof (cases "0 < lim \<and> lo < hi")
    case True
    with "1.prems" consider "r = \<lparr>limit = min (hi - lo) lim, start_block = lo + 1\<rparr>"
      | "r \<in> set (plan lim (lo + min (hi - lo) lim) hi)"
      by (auto simp: plan_step)
    then show ?thesis
    proof cases
      case 1
      with True show ?thesis by (intro exI [of _ lo]) simp
    next
      case 2
      from "1.IH" [OF True this] show ?thesis .
    qed
  next
    case False
    with "1.prems" show ?thesis by (simp add: plan.simps [of lim lo hi])
  qed
qed

lemma requested_within:
  assumes "start_block r = l + 1" and "l < hi" and "limit r \<le> hi - l" and "hi \<le> tip_number m"
  shows "requested m r = map (\<lambda>n. the (m n)) (req_numbers r)"
proof -
  have "l \<le> hi" using assms(2) by simp
  then have "unat (limit r) \<le> unat hi - unat l"
    using assms(3) by (simp add: word_le_nat_alt unat_sub)
  moreover have "unat hi \<le> unat (tip_number m)" using assms(4) by (simp add: word_le_nat_alt)
  ultimately have "min (unat (limit r)) (unat (tip_number m) + 1 - unat (start_block r)) =
      unat (limit r)"
    unfolding assms(1) u64_succ_unat [OF assms(2)] by simp
  then show ?thesis by (simp add: requested_def req_numbers_range)
qed

lemma plan_requested:
  assumes "0 < lim" and "lo \<le> hi" and "hi \<le> tip_number m"
  shows "concat (map (requested m) (plan lim lo hi)) = map (\<lambda>n. the (m n)) (numbers_after lo hi)"
proof -
  have "map (requested m) (plan lim lo hi) =
      map (\<lambda>r. map (\<lambda>n. the (m n)) (req_numbers r)) (plan lim lo hi)"
    using plan_within requested_within [OF _ _ _ assms(3)] by (intro map_cong) blast+
  also have "concat \<dots> = map (\<lambda>n. the (m n)) (concat (map req_numbers (plan lim lo hi)))"
    by (simp add: map_concat comp_def)
  finally show ?thesis using plan_numbers [OF assms(1,2)] by simp
qed

lemma numbers_after_step: "lo < hi \<Longrightarrow> numbers_after lo hi = (lo + 1) # numbers_after (lo + 1) hi"
proof -
  assume lt: "lo < hi"
  have "numbers_after lo (lo + 1) = [lo + 1]"
    by (simp add: numbers_after_def u64_succ_unat [OF lt])
  with numbers_after_append [of lo "lo + 1" hi] u64_succ_le [OF lt] show ?thesis by simp
qed

text \<open>The headers of a linked chain after \<open>lo\<close> extend it, and storing them copies it.\<close>

lemma remote_headers:
  assumes wf: "wf_headers m" and l: "linked m"
  shows "lo \<le> hi \<Longrightarrow> hi \<le> tip_number m \<Longrightarrow>
    extends (the (m lo)) (map (\<lambda>n. the (m n)) (numbers_after lo hi)) \<and>
    store_all (m |` {..lo}) (map (\<lambda>n. the (m n)) (numbers_after lo hi)) = m |` {..hi}"
proof (induction "unat hi - unat lo" arbitrary: lo rule: less_induct)
  case less
  show ?case
  proof (cases "lo < hi")
    case False
    with less.prems show ?thesis by (simp add: numbers_after_def)
  next
    case True
    note s = u64_succ_le [OF True] and u = u64_succ_unat [OF True]
    have "lo \<le> tip_number m" "lo + 1 \<le> tip_number m" using s less.prems by auto
    then obtain p h where p: "m lo = Some p" "number p = lo" and h: "m (lo + 1) = Some h"
      "number h = lo + 1"
      using wf_headers_iff_le [OF wf] wf_headersD(2) [OF wf] by (metis not_None_eq)
    have ne: "lo + 1 \<noteq> 0" and lt: "lo < lo + 1" using u by (auto simp: word_less_nat_alt)
    with l p h have "parent_hash h = hash p" unfolding linked_def
      by (metis add_diff_cancel_right')
    moreover have "unat hi - unat (lo + 1) < unat hi - unat lo"
      using True u by (simp add: word_less_nat_alt)
    note IH = less.hyps [OF this _ less.prems(2)]
    moreover have "(m |` {..lo})(lo + 1 \<mapsto> h) = m |` {..lo + 1}"
    proof
      fix n
      have "n \<le> lo + 1 \<longleftrightarrow> n \<le> lo \<or> n = lo + 1" using lt u by unat_arith
      then show "((m |` {..lo})(lo + 1 \<mapsto> h)) n = (m |` {..lo + 1}) n"
        using h by (auto simp: restrict_map_def)
    qed
    ultimately show ?thesis using s p h lt by (simp add: numbers_after_step [OF True])
  qed
qed

lemma tip_restrict:
  assumes "wf_headers m" and "lo \<le> tip_number m"
  shows "tip_header (m |` {..lo}) = the (m lo)"
proof -
  have "m lo \<noteq> None" using wf_headers_iff_le [OF assms(1)] assms(2) by blast
  then have "tip_number (m |` {..lo}) = lo"
    by (intro tip_number_unique) (auto simp: restrict_map_def split: if_splits)
  then show ?thesis by (simp add: tip_header_def)
qed

end
