(* ===== verification/Chain_Race.thy ===== *)
theory Chain_Race
  imports Chain_Net Chain_Properties
begin

text \<open>
  Several tasks hold a clone of the same \<open>Chain\<close> (the chain manager, the miner, the RPC
  server), and \<open>try_add_block_header\<close> takes the lock of the database anew for each of its
  parts: the validation, the old tip, the write transaction and the new tip. Here the parts are
  the steps of a task, and the steps of many tasks interleave.
\<close>

section \<open>The steps of an addition\<close>

datatype add_pc =
    Validating
  | ReadingTip
  | Writing header
  | Comparing header
  | Finished "error + added_block_result"
  | Crashed string

fun add_step :: "ext \<Rightarrow> ('db, 'txn) redb \<Rightarrow> header \<Rightarrow> add_pc \<times> 'db \<Rightarrow> add_pc \<times> 'db" where
  "add_step X R h (Validating, db) =
     (case validate_adjacent_block_header X R db h of
        Ret (Inr _) \<Rightarrow> (ReadingTip, db)
      | Ret (Inl e) \<Rightarrow> (Finished (Inl e), db)
      | Panic s \<Rightarrow> (Crashed s, db)
      | Diverge \<Rightarrow> (Validating, db))"
| "add_step X R h (ReadingTip, db) =
     (case chain_tip X R db of
        Ret (Inr old_tip) \<Rightarrow> (Writing old_tip, db)
      | Ret (Inl e) \<Rightarrow> (Finished (Inl e), db)
      | Panic s \<Rightarrow> (Crashed s, db)
      | Diverge \<Rightarrow> (ReadingTip, db))"
| "add_step X R h (Writing old_tip, db) =
     (case write_header X R db h of
        Inr db' \<Rightarrow> (Comparing old_tip, db')
      | Inl e \<Rightarrow> (Finished (Inl (db_err e)), db))"
| "add_step X R h (Comparing old_tip, db) =
     (case chain_tip X R db of
        Ret (Inr new_tip) \<Rightarrow> (Finished (Inr (if number old_tip < number new_tip then ExtendTip
          else AlreadyInChain)), db)
      | Ret (Inl e) \<Rightarrow> (Finished (Inl e), db)
      | Panic s \<Rightarrow> (Crashed s, db)
      | Diverge \<Rightarrow> (Comparing old_tip, db))"
| "add_step X R h (Finished r, db) = (Finished r, db)"
| "add_step X R h (Crashed s, db) = (Crashed s, db)"


section \<open>Interleaving\<close>

text \<open>The database and the tasks that add a header to it.\<close>

type_synonym add_task = "header \<times> add_pc"

inductive adds_run ::
  "ext \<Rightarrow> ('db, 'txn) redb \<Rightarrow> 'db \<Rightarrow> 'db \<Rightarrow> add_task list \<Rightarrow> bool"
  for X R db0 where
  start: "adds_run X R db0 db0 []"
| spawned: "adds_run X R db0 db ts \<Longrightarrow> adds_run X R db0 db (ts @ [(h, Validating)])"
| moved: "adds_run X R db0 db ts \<Longrightarrow> i < length ts \<Longrightarrow> ts ! i = (h, pc) \<Longrightarrow>
    add_step X R h (pc, db) = (pc', db') \<Longrightarrow> adds_run X R db0 db' (ts[i := (h, pc')])"

text \<open>
  What a task relies on between its steps: the number before its header stays taken, whoever
  else writes; and once it has written, its own number does.
\<close>

fun task_ok :: "header_map \<Rightarrow> add_task \<Rightarrow> bool" where
  "task_ok m (h, Validating) \<longleftrightarrow> True"
| "task_ok m (h, ReadingTip) \<longleftrightarrow> number h = 0 \<or> m (number h - 1) \<noteq> None"
| "task_ok m (h, Writing old) \<longleftrightarrow> (number h = 0 \<or> m (number h - 1) \<noteq> None) \<and>
     number old \<le> tip_number m"
| "task_ok m (h, Comparing old) \<longleftrightarrow> m (number h) \<noteq> None \<and> number old \<le> tip_number m"
| "task_ok m (h, Finished r) \<longleftrightarrow> (\<forall>q. r = Inr q \<longrightarrow> m (number h) \<noteq> None)"
| "task_ok m (h, Crashed s) \<longleftrightarrow> True"

lemma task_ok_grows: "task_ok m t \<Longrightarrow> grows m m' \<Longrightarrow> task_ok m' t"
  by (cases "(m, t)" rule: task_ok.cases) (auto simp: grows_def)

lemma grows_upd: "wf_headers m \<Longrightarrow> grows m (m(n \<mapsto> h))"
  by (auto simp: grows_def tip_number_upd)

context chain_store
begin

lemma add_step_ok:
  assumes ok: "db_ok db" and wf: "wf_tables X (stored db)"
    and task: "task_ok (headers_of X (stored db)) (h, pc)"
    and step: "add_step X R h (pc, db) = (pc', db')"
  shows "db_ok db' \<and> wf_tables X (stored db') \<and>
    grows (headers_of X (stored db)) (headers_of X (stored db')) \<and>
    task_ok (headers_of X (stored db')) (h, pc')"
proof -
  let ?m = "headers_of X (stored db)"
  obtain t where t: "chain_tip X R db = Ret t" "db_fault t \<or> t = Inr (tip_header ?m)"
    using chain_tip_result [OF ok wf] by blast
  show ?thesis
  proof (cases pc)
    case Validating
    have "number h = 0 \<or> ?m (number h - 1) \<noteq> None"
      if "validate_adjacent_block_header X R db h = Ret (Inr u)" for u
      using validate_result [OF ok wf, of h] that
      by (cases rule: parent_spec_cases [of h "chain_genesis X" "overflow_checks X" ?m]) auto
    with Validating step ok wf show ?thesis by (auto split: outcome.splits sum.splits)
  next
    case ReadingTip
    with step t ok wf task wf_tables_headers [OF wf] show ?thesis
      by (cases t rule: db_fault.cases) auto
  next
    case (Writing old)
    show ?thesis
    proof (cases "write_header X R db h")
      case (Inl e)
      with step Writing ok wf show ?thesis by auto
    next
      case (Inr db1)
      note w = write_result [OF ok Inr] and wfm = wf_tables_headers [OF wf]
      have hs: "headers_of X (stored db1) = ?m(number h \<mapsto> h)"
        by (simp add: w headers_of_put)
      have "wf_headers (?m(number h \<mapsto> h))"
        using task Writing by (intro wf_headers_upd [OF wfm]) simp
      moreover have "number old \<le> tip_number (?m(number h \<mapsto> h))"
        using task Writing tip_number_upd [OF wfm] by (simp add: le_max_iff_disj)
      ultimately show ?thesis
        using step Writing Inr w wf_tables_put [OF wf] grows_upd [OF wfm] hs by auto
    qed
  next
    case (Comparing old)
    with step t ok wf task show ?thesis by (cases t rule: db_fault.cases) auto
  next
    case (Finished r)
    with step ok wf task show ?thesis by auto
  next
    case (Crashed s)
    with step ok wf task show ?thesis by auto
  qed
qed

lemma adds_run_ok:
  assumes "adds_run X R db0 db ts" and "db_ok db0" and "wf_tables X (stored db0)"
  shows "db_ok db \<and> wf_tables X (stored db) \<and>
    grows (headers_of X (stored db0)) (headers_of X (stored db)) \<and>
    (\<forall>t \<in> set ts. task_ok (headers_of X (stored db)) t)"
  using assms
proof (induction rule: adds_run.induct)
  case (moved db ts i h pc pc' db')
  then have "task_ok (headers_of X (stored db)) (h, pc)" by (metis nth_mem)
  with moved add_step_ok [OF _ _ this moved.hyps(4)] have
    s: "db_ok db'" "wf_tables X (stored db')"
      "grows (headers_of X (stored db)) (headers_of X (stored db'))"
      "task_ok (headers_of X (stored db')) (h, pc')" by auto
  moreover have "task_ok (headers_of X (stored db')) t" if "t \<in> set (ts[i := (h, pc')])" for t
    using that s(3,4) moved task_ok_grows set_update_subset_insert [of ts i "(h, pc')"] by blast
  ultimately show ?case using moved grows_trans by blast
qed auto

end


context reliable_chain_store
begin

text \<open>The steps of a task whose header is the child of the tip.\<close>

lemma child_steps:
  assumes ok: "db_ok db" and wf: "wf_tables X (stored db)"
    and p: "(headers_of X (stored db)) (number h - 1) = Some p" "parent_hash h = hash p"
    and "number h \<noteq> 0"
  shows "add_step X R h (Validating, db) = (ReadingTip, db)"
    and "add_step X R h (ReadingTip, db) = (Writing (tip_header (headers_of X (stored db))), db)"
    and "\<exists>db'. add_step X R h (Writing old, db) = (Comparing old, db') \<and> db_ok db' \<and>
      wf_tables X (stored db') \<and>
      headers_of X (stored db') = (headers_of X (stored db))(number h \<mapsto> h)"
proof -
  let ?m = "headers_of X (stored db)"
  have ps: "parent_spec (overflow_checks X) (chain_genesis X) ?m h = Ret (Inr ())"
    using p assms(5) by (simp add: parent_spec_def)
  have "\<not> (\<exists>e. validate_adjacent_block_header X R db h = Ret (Inl (DatabaseError e)))"
    using get_total [OF ok wf]
    by (auto simp: validate_adjacent_block_header_def found_def
        split: if_splits option.splits elim!: obind_RetE)
  with validate_result [OF ok wf, of h] ps
  show "add_step X R h (Validating, db) = (ReadingTip, db)" by auto
  show "add_step X R h (ReadingTip, db) = (Writing (tip_header ?m), db)"
    by (simp add: tip_total [OF ok wf])
  obtain db' where w: "write_header X R db h = Inr db'" using write_total [OF ok] by blast
  have "wf_headers (?m(number h \<mapsto> h))"
    using parent_spec_wf [OF wf_tables_headers [OF wf] chain_genesis_number ps] .
  with w write_result [OF ok w] wf_tables_put [OF wf]
  show "\<exists>db'. add_step X R h (Writing old, db) = (Comparing old, db') \<and> db_ok db' \<and>
      wf_tables X (stored db') \<and> headers_of X (stored db') = ?m(number h \<mapsto> h)"
    by (auto simp: headers_of_put)
qed

lemma adds_race:
  assumes ok: "db_ok db" and wf: "wf_tables X (stored db)"
    and t: "tip_header (headers_of X (stored db)) = t" "number t < number t + 1"
    and h: "number h = number t + 1" "parent_hash h = hash t"
    and h': "number h' = number t + 1" "parent_hash h' = hash t"
  shows "\<exists>db'. adds_run X R db db'
      [(h, Finished (Inr ExtendTip)), (h', Finished (Inr ExtendTip))] \<and>
    headers_of X (stored db') = (headers_of X (stored db))(number h \<mapsto> h')"
proof -
  let ?m = "headers_of X (stored db)"
  note wfm = wf_tables_headers [OF wf]
  have tip: "?m (number t) = Some t" "tip_number ?m = number t"
    using tip_header_lookup [OF wfm] tip_header_number [OF wfm] t(1) by simp_all
  have n0: "number t + 1 \<noteq> 0" using t(2) by auto
  note s = child_steps [OF ok wf, of h t] and s' = child_steps [OF ok wf, of h' t]
  from s(3) [of t] obtain db1 where w: "add_step X R h (Writing t, db) = (Comparing t, db1)"
    and db1: "db_ok db1" "wf_tables X (stored db1)" "headers_of X (stored db1) = ?m(number h \<mapsto> h)"
    using tip h n0 by auto
  have "number t \<noteq> number t + 1" using t(2) by auto
  then have "(headers_of X (stored db1)) (number h' - 1) = Some t"
    using tip h h' by (simp add: db1(3))
  from child_steps(3) [OF db1(1,2) this, of t] obtain db2 where
    w': "add_step X R h' (Writing t, db1) = (Comparing t, db2)"
    and db2: "db_ok db2" "wf_tables X (stored db2)"
      "headers_of X (stored db2) = ?m(number h \<mapsto> h')"
    using h h' n0 db1(3) by auto
  have "number (tip_header (headers_of X (stored db2))) = number t + 1"
    using tip_header_number [OF wf_tables_headers [OF db2(2)]] tip_number_upd [OF wfm] tip t h
    by (simp add: db2(3) max_def not_le)
  then have c: "add_step X R g (Comparing t, db2) = (Finished (Inr ExtendTip), db2)" for g
    using t(2) by (simp add: tip_total [OF db2(1,2)])
  have "adds_run X R db db [(h, Validating), (h', Validating)]"
    using adds_run.spawned [OF adds_run.spawned [OF adds_run.start]] by simp
  from adds_run.moved [OF this, of 0 h Validating] s(1)
  have "adds_run X R db db [(h, ReadingTip), (h', Validating)]" using tip h n0 by simp
  from adds_run.moved [OF this, of 1 h' Validating] s'(1)
  have "adds_run X R db db [(h, ReadingTip), (h', ReadingTip)]" using tip h' n0 by simp
  from adds_run.moved [OF this, of 0 h ReadingTip] s(2)
  have "adds_run X R db db [(h, Writing t), (h', ReadingTip)]" using tip h n0 t by simp
  from adds_run.moved [OF this, of 1 h' ReadingTip] s'(2)
  have "adds_run X R db db [(h, Writing t), (h', Writing t)]" using tip h' n0 t by simp
  from adds_run.moved [OF this, of 0 h "Writing t"] w
  have "adds_run X R db db1 [(h, Comparing t), (h', Writing t)]" by simp
  from adds_run.moved [OF this, of 1 h' "Writing t"] w'
  have "adds_run X R db db2 [(h, Comparing t), (h', Comparing t)]" by simp
  from adds_run.moved [OF this, of 0 h "Comparing t"] c [of h]
  have "adds_run X R db db2 [(h, Finished (Inr ExtendTip)), (h', Comparing t)]" by simp
  from adds_run.moved [OF this, of 1 h' "Comparing t"] c [of h']
  have "adds_run X R db db2 [(h, Finished (Inr ExtendTip)), (h', Finished (Inr ExtendTip))]" by simp
  with db2(3) show ?thesis by blast
qed

end

section \<open>Properties\<close>


text \<open>
  C15: However the additions of many tasks interleave, and whatever database calls fail, the
  store keeps its invariant: every number up to the tip has a header stored under it. No
  number ever loses its header, the tip never moves down, and the number of every header
  whose addition was reported as done has a header.
\<close>

theorem concurrent_adds_safe:
  assumes "chain_store R db_ok txn_ok stored view X"
    and "db_ok db0" and "wf_tables X (stored db0)" and "adds_run X R db0 db ts"
  shows "db_ok db \<and> wf_tables X (stored db) \<and>
    grows (headers_of X (stored db0)) (headers_of X (stored db)) \<and>
    (\<forall>h q. (h, Finished (Inr q)) \<in> set ts \<longrightarrow> headers_of X (stored db) (number h) \<noteq> None)"
  using chain_store.adds_run_ok [OF assms(1,4,2,3)] by fastforce

text \<open>
  C28: Two tasks that add different children of the tip at the same time can both be told that
  they extended the tip, although only the one that wrote last is stored: the other header is
  gone, and the task that added it goes on to broadcast it.
\<close>

theorem racing_adds_both_extend:
  assumes "reliable_chain_store R db_ok txn_ok stored view X"
    and "db_ok db" and "wf_tables X (stored db)"
    and "tip_header (headers_of X (stored db)) = t" and "number t < number t + 1"
    and "number h = number t + 1" and "parent_hash h = hash t"
    and "number h' = number t + 1" and "parent_hash h' = hash t"
  shows "\<exists>db'. adds_run X R db db'
      [(h, Finished (Inr ExtendTip)), (h', Finished (Inr ExtendTip))] \<and>
    headers_of X (stored db') = (headers_of X (stored db))(number h \<mapsto> h')"
  by (rule reliable_chain_store.adds_race [OF assms])

theorem racing_adds_both_extend_witness:
  "\<exists>db'. adds_run (demo_ext True) (mem_redb mem_empty) (demo_chain True) db'
      [(demo_a1 True, Finished (Inr ExtendTip)),
       ((demo_a1 True)\<lparr>hash := ''b1''\<rparr>, Finished (Inr ExtendTip))] \<and>
    headers_of (demo_ext True) (mem_view db') 1 = Some ((demo_a1 True)\<lparr>hash := ''b1''\<rparr>)"
  using racing_adds_both_extend [OF demo_chain_facts(1-3) [of True], of "chain_genesis (demo_ext True)"
      "demo_a1 True" "(demo_a1 True)\<lparr>hash := ''b1''\<rparr>"]
  by (auto simp: demo_chain_headers tip_header_def demo_a1_def demo_header_def)

theorem concurrent_adds_safe_witness:
  "\<exists>db'. adds_run (demo_ext True) (mem_redb mem_empty) (demo_chain True) db'
      [(demo_a1 True, Validating)] \<and> wf_tables (demo_ext True) (mem_view db')"
proof -
  have c: "chain_store (mem_redb mem_empty) mem_good mem_good mem_view mem_view (demo_ext True)"
    by (rule mem_chain.chain_store_axioms)
  have "adds_run (demo_ext True) (mem_redb mem_empty) (demo_chain True) (demo_chain True)
      [(demo_a1 True, Validating)]"
    using adds_run.spawned [OF adds_run.start] by simp
  with concurrent_adds_safe [OF c demo_chain_facts(2,3) this] show ?thesis by blast
qed

end
