(* ===== verification/Chain_Lock.thy ===== *)
theory Chain_Lock
  imports Chain_Db
begin

text \<open>
  The lock around the database (\<^verbatim>\<open>src/src/blocktree.rs\<close>). \<open>get_header_by_hash\<close> keeps its
  read guard while \<open>get_header_by_block_number\<close> takes a second one, on the same thread.
  Whether a writer that waits keeps new readers out is left to the platform by the standard
  library; here it is the parameter \<open>prefer_writers\<close>. The threads are one lookup by hash and
  one write transaction of \<open>try_add_block_header\<close>, and the steps are the acquisitions and
  releases of the guards.
\<close>

section \<open>Threads and guards\<close>

datatype hash_pc = WantOuter | WantInner | HoldBoth | HashDone

datatype write_pc = WriteIdle | WriteWaiting | WriteHeld | WriteDone

fun read_guards :: "hash_pc \<Rightarrow> nat" where
  "read_guards WantInner = 1"
| "read_guards HoldBoth = 2"
| "read_guards _ = 0"

definition may_read :: "bool \<Rightarrow> write_pc \<Rightarrow> bool" where
  "may_read prefer_writers w \<longleftrightarrow> w \<noteq> WriteHeld \<and> \<not> (prefer_writers \<and> w = WriteWaiting)"

text \<open>\<open>indexed\<close> says whether the hash is in the index, so that its number is looked up.\<close>

inductive lock_step :: "bool \<Rightarrow> bool \<Rightarrow> hash_pc \<times> write_pc \<Rightarrow> hash_pc \<times> write_pc \<Rightarrow> bool"
  for prefer_writers indexed where
  outer: "may_read prefer_writers w \<Longrightarrow>
    lock_step prefer_writers indexed (WantOuter, w) (WantInner, w)"
| inner: "indexed \<Longrightarrow> may_read prefer_writers w \<Longrightarrow>
    lock_step prefer_writers indexed (WantInner, w) (HoldBoth, w)"
| missing: "\<not> indexed \<Longrightarrow> lock_step prefer_writers indexed (WantInner, w) (HashDone, w)"
| drops: "lock_step prefer_writers indexed (HoldBoth, w) (HashDone, w)"
| wants: "lock_step prefer_writers indexed (h, WriteIdle) (h, WriteWaiting)"
| acquires: "read_guards h = 0 \<Longrightarrow>
    lock_step prefer_writers indexed (h, WriteWaiting) (h, WriteHeld)"
| releases: "lock_step prefer_writers indexed (h, WriteHeld) (h, WriteDone)"

inductive_cases stuckE: "lock_step True True (WantInner, WriteWaiting) s"

section \<open>Progress\<close>

text \<open>A reader that is let in while a writer waits can always go on.\<close>

lemma no_preference_progress:
  assumes "s \<noteq> (HashDone, WriteDone)"
  shows "\<exists>s'. lock_step False indexed s s'"
proof -
  obtain h w where s: "s = (h, w)" by fastforce
  have busy: ?thesis if "w = WriteIdle \<or> w = WriteHeld"
    using that s by (auto intro: lock_step.wants lock_step.releases)
  have free: ?thesis if "w \<noteq> WriteHeld" "h \<noteq> HashDone"
  proof -
    have "may_read False w" using that(1) by (simp add: may_read_def)
    with that(2) show ?thesis
      unfolding s by (cases h; cases indexed) (auto intro: lock_step.intros)
  qed
  have "?thesis" if "w = WriteWaiting" "h = HashDone"
    using lock_step.acquires [of HashDone False indexed] that s by auto
  with busy free assms s show ?thesis by (cases w; cases "h = HashDone") auto
qed

text \<open>
  C32: A lookup by hash and an addition can block each other for ever exactly on a platform
  where a waiting writer keeps new readers out: there a run ends in a state in which the
  lookup holds its first read guard and waits for the second, the writer waits for the first,
  and neither can take a step; where readers are let in, some thread can always go on.
\<close>

theorem hash_lookup_deadlock:
  "(\<exists>s. (lock_step prefer_writers True)\<^sup>*\<^sup>* (WantOuter, WriteIdle) s \<and>
      s \<noteq> (HashDone, WriteDone) \<and> (\<nexists>s'. lock_step prefer_writers True s s')) \<longleftrightarrow> prefer_writers"
proof
  assume prefer_writers
  then have p: "prefer_writers = True" by simp
  have "lock_step True True (WantOuter, WriteIdle) (WantInner, WriteIdle)"
    by (rule lock_step.outer) (simp add: may_read_def)
  moreover have "lock_step True True (WantInner, WriteIdle) (WantInner, WriteWaiting)"
    by (rule lock_step.wants)
  moreover have "\<nexists>s'. lock_step True True (WantInner, WriteWaiting) s'"
    by (auto elim!: stuckE simp: may_read_def)
  ultimately show "\<exists>s. (lock_step prefer_writers True)\<^sup>*\<^sup>* (WantOuter, WriteIdle) s \<and>
      s \<noteq> (HashDone, WriteDone) \<and> (\<nexists>s'. lock_step prefer_writers True s s')"
    unfolding p by (intro exI [of _ "(WantInner, WriteWaiting)"])
      (auto intro: rtranclp.rtrancl_into_rtrancl)
next
  assume "\<exists>s. (lock_step prefer_writers True)\<^sup>*\<^sup>* (WantOuter, WriteIdle) s \<and>
      s \<noteq> (HashDone, WriteDone) \<and> (\<nexists>s'. lock_step prefer_writers True s s')"
  then show prefer_writers using no_preference_progress [where indexed = True]
    by (cases prefer_writers) auto
qed

end
