(* ===== verification/Miner.thy ===== *)
theory Miner
  imports Chain_Net Chain_Db
begin

text \<open>
  Mining (\<^verbatim>\<open>src/src/blocktree.rs\<close>): the start of the automatic miner in \<open>Chain::new\<close>,
  \<open>mine_and_broadcast_block\<close>, and \<open>FixedBlockTimeMiner\<close>, the task that mines a block at
  every tick of a timer and hands it to the network. The timer is tokio's: a record of the two
  calls that are made, on a state \<open>'i\<close> of its own; time passes between the polls.
\<close>

section \<open>State\<close>

text \<open>\<open>time::interval\<close>, by its period in seconds, and \<open>poll_tick\<close>.\<close>

record 'i timer =
  tm_interval :: "u64 \<Rightarrow> 'i outcome"
  tm_poll_tick :: "'i \<Rightarrow> bool \<times> 'i"

record 'fut broadcast_request =
  br_header :: header
  br_fut :: 'fut

record broadcast_outcome =
  bo_header :: header
  bo_outcome :: "unit request_response"

record ('b, 'i, 'fut) miner =
  interval :: 'i
  mi_chain :: 'b
  pending_broadcast :: "'fut broadcast_request option"

section \<open>Operations\<close>

text \<open>Polling one future is polling a set of futures that holds nothing else.\<close>

definition poll_broadcast ::
  "('w, 'fut) provider \<Rightarrow> 'w \<Rightarrow> 'fut \<Rightarrow> (unit request_response poll \<times> 'w) outcome" where
  "poll_broadcast P w f =
     obind (bp_poll_next P w [f]) (\<lambda>(r, w'). case r of
       None \<Rightarrow> Ret (Pending, w') | Some (_, v) \<Rightarrow> Ret (Ready v, w'))"

definition broadcast_request_poll ::
  "('w, 'fut) provider \<Rightarrow> 'w \<Rightarrow> 'fut broadcast_request \<Rightarrow>
     (broadcast_outcome poll \<times> 'w) outcome" where
  "broadcast_request_poll P w req =
     obind (poll_broadcast P w (br_fut req)) (\<lambda>(p, w'). case p of
       Pending \<Rightarrow> Ret (Pending, w')
     | Ready v \<Rightarrow> Ret (Ready \<lparr>bo_header = br_header req, bo_outcome = v\<rparr>, w'))"

definition miner_new :: "'i timer \<Rightarrow> 'b \<Rightarrow> u64 \<Rightarrow> ('b, 'i, 'fut) miner outcome" where
  "miner_new I b itv =
     obind (tm_interval I itv) (\<lambda>i.
     Ret \<lparr>interval = i, mi_chain = b, pending_broadcast = None\<rparr>)"

text \<open>\<open>FixedBlockTimeMiner::poll\<close>: no transactions, at every tick.\<close>

definition miner_tick ::
  "'i timer \<Rightarrow> ('b, 'i, 'fut) miner \<Rightarrow> transaction list poll \<times> ('b, 'i, 'fut) miner" where
  "miner_tick I m =
     (let (ready, i) = tm_poll_tick I (interval m) in
      (if ready then Ready [] else Pending, m\<lparr>interval := i\<rparr>))"

text \<open>
  Assigning \<open>pending_broadcast\<close> drops the request that it held, after the new one was made.
\<close>

definition miner_mine ::
  "ext \<Rightarrow> 'b block_tree \<Rightarrow> ('w, 'fut) provider \<Rightarrow> mining_inputs \<Rightarrow> ('b, 'i, 'fut) miner \<Rightarrow> 'w \<Rightarrow>
     (('b, 'i, 'fut) miner \<times> 'w) outcome" where
  "miner_mine X B P inp m w =
     obind (bt_mine_block X B (mi_chain m) inp) (\<lambda>(res, b). case res of
       Mined h \<Rightarrow> obind (bp_broadcast_block_header P w h) (\<lambda>(f, w').
         let w'' = (case pending_broadcast m of
           None \<Rightarrow> w' | Some old \<Rightarrow> hp_drop P w' [br_fut old]) in
         Ret (m\<lparr>mi_chain := b,
           pending_broadcast := Some \<lparr>br_header = h, br_fut = f\<rparr>\<rparr>, w''))
     | BlockFallingBehind \<Rightarrow> Ret (m\<lparr>mi_chain := b\<rparr>, w))"

text \<open>
  The closure that \<open>execute\<close> polls for ever. It always returns \<open>Pending\<close>; what the last
  component lists is which of the two futures were left pending with the waker of the task,
  so that they will have it polled again.
\<close>

datatype wake = OnTick | OnBroadcast

definition poll_pending_broadcast ::
  "('w, 'fut) provider \<Rightarrow> ('b, 'i, 'fut) miner \<Rightarrow> 'w \<Rightarrow> wake list \<Rightarrow>
     (('b, 'i, 'fut) miner \<times> 'w \<times> wake list) outcome" where
  "poll_pending_broadcast P m w wakes =
     (case pending_broadcast m of
        None \<Rightarrow> Ret (m, w, wakes)
      | Some req \<Rightarrow> obind (broadcast_request_poll P w req) (\<lambda>(p, w'). case p of
          Ready _ \<Rightarrow> Ret (m\<lparr>pending_broadcast := None\<rparr>, w', wakes)
        | Pending \<Rightarrow> Ret (m, w', wakes @ [OnBroadcast])))"

definition execute_poll ::
  "ext \<Rightarrow> 'b block_tree \<Rightarrow> ('w, 'fut) provider \<Rightarrow> 'i timer \<Rightarrow> mining_inputs \<Rightarrow>
     ('b, 'i, 'fut) miner \<Rightarrow> 'w \<Rightarrow> (('b, 'i, 'fut) miner \<times> 'w \<times> wake list) outcome" where
  "execute_poll X B P I inp m w =
     (let (t, m) = miner_tick I m in
      obind (case t of
          Pending \<Rightarrow> Ret (m, w, [OnTick])
        | Ready _ \<Rightarrow> obind (miner_mine X B P inp m w) (\<lambda>(m, w).
            let (t', m) = miner_tick I m in
            Ret (m, w, if t' = Pending then [OnTick] else [])))
       (\<lambda>(m, w, wakes). poll_pending_broadcast P m w wakes))"

text \<open>\<open>Chain::new\<close>, with the miner that it spawns.\<close>

definition chain_new ::
  "ext \<Rightarrow> ('db, 'txn) redb \<Rightarrow> 'i timer \<Rightarrow> string \<Rightarrow> u64 option \<Rightarrow>
     ('db \<times> ('db, 'i, 'fut) miner option) outcome" where
  "chain_new X R I path auto_mine =
     obind (chain_open X R path) (\<lambda>chain. case auto_mine of
       None \<Rightarrow> Ret (chain, None)
     | Some itv \<Rightarrow> obind (miner_new I chain itv) (\<lambda>m. Ret (chain, Some m)))"

text \<open>
  \<open>mine_and_broadcast_block\<close>. The database is shared with tasks that run while the broadcast
  is awaited, so it is a part of the state \<open>'w\<close>, read with \<open>db_of\<close> and written with \<open>set_db\<close>;
  \<open>broadcast\<close> is the operation of the provider and \<open>await\<close> waits for a future to complete.
\<close>

definition mine_and_broadcast_block ::
  "ext \<Rightarrow> 'b block_tree \<Rightarrow> ('w \<Rightarrow> 'b) \<Rightarrow> ('b \<Rightarrow> 'w \<Rightarrow> 'w) \<Rightarrow>
   ('w \<Rightarrow> header \<Rightarrow> ('fut \<times> 'w) outcome) \<Rightarrow>
   ('w \<Rightarrow> 'fut \<Rightarrow> (unit request_response \<times> 'w) outcome) \<Rightarrow> mining_inputs \<Rightarrow> 'w \<Rightarrow>
     (mine_block_result request_response \<times> 'w) outcome" where
  "mine_and_broadcast_block X B db_of set_db broadcast await inp w =
     obind (bt_mine_block X B (db_of w) inp) (\<lambda>(res, b).
     let w = set_db b w in
     case res of
       Mined h \<Rightarrow> obind (broadcast w h) (\<lambda>(f, w).
         obind (await w f) (\<lambda>(r, w). case r of
           Inl e \<Rightarrow> Ret (Inl e, w)
         | Inr _ \<Rightarrow> Ret (Inr (Mined h), w)))
     | BlockFallingBehind \<Rightarrow> Ret (Inr BlockFallingBehind, w))"

section \<open>Running the miner\<close>

text \<open>
  A schedule of polls: before each of them time passes for the timer and the world changes,
  and each has the draws of the clock and of the random numbers, in case it mines. The result
  counts the polls that found a tick.
\<close>

type_synonym ('i, 'w) schedule = "(('i \<Rightarrow> 'i) \<times> ('w \<Rightarrow> 'w) \<times> mining_inputs) list"

fun run_miner ::
  "ext \<Rightarrow> 'b block_tree \<Rightarrow> ('w, 'fut) provider \<Rightarrow> 'i timer \<Rightarrow> ('i, 'w) schedule \<Rightarrow>
     ('b, 'i, 'fut) miner \<Rightarrow> 'w \<Rightarrow> (nat \<times> ('b, 'i, 'fut) miner \<times> 'w) outcome" where
  "run_miner X B P I [] m w = Ret (0, m, w)"
| "run_miner X B P I ((pass, change, inp) # sched) m w =
     (let m = m\<lparr>interval := pass (interval m)\<rparr> in
      obind (execute_poll X B P I inp m (change w)) (\<lambda>(m', w', _).
      obind (run_miner X B P I sched m' w') (\<lambda>(n, s).
      Ret (if fst (tm_poll_tick I (interval m)) then Suc n else n, s))))"

text \<open>
  How many of the polls find a tick depends on the timer and on how time passes only; a poll
  that finds one polls the timer again.
\<close>

fun ticks_found :: "'i timer \<Rightarrow> ('i, 'w) schedule \<Rightarrow> 'i \<Rightarrow> nat" where
  "ticks_found I [] i = 0"
| "ticks_found I ((pass, change, inp) # sched) i =
     (let (t, i') = tm_poll_tick I (pass i) in
      if t then Suc (ticks_found I sched (snd (tm_poll_tick I i'))) else ticks_found I sched i')"

lemma poll_pending_interval:
  "poll_pending_broadcast P m w wk = Ret (m', w', wk') \<Longrightarrow> interval m' = interval m"
  by (auto simp: poll_pending_broadcast_def elim!: obind_RetE split: option.splits poll.splits)

lemma execute_interval:
  assumes "execute_poll X B P I inp m w = Ret (m', w', wk)" and "tm_poll_tick I (interval m) = (t, i)"
  shows "interval m' = (if t then snd (tm_poll_tick I i) else i)"
  using assms by (auto simp: execute_poll_def miner_tick_def miner_mine_def Let_def
      elim!: obind_RetE split: prod.splits if_splits mine_block_result.splits
      dest!: poll_pending_interval)

lemma run_miner_ticks:
  "run_miner X B P I sched m w = Ret (n, m', w') \<Longrightarrow> n = ticks_found I sched (interval m)"
proof (induction sched arbitrary: m w n)
  case (Cons s sched)
  obtain pass change inp where s: "s = (pass, change, inp)" by (cases s) auto
  obtain t i where t: "tm_poll_tick I (pass (interval m)) = (t, i)" by fastforce
  from Cons.prems obtain m1 w1 wk k where
    e: "execute_poll X B P I inp (m\<lparr>interval := pass (interval m)\<rparr>) (change w) = Ret (m1, w1, wk)"
    and r: "run_miner X B P I sched m1 w1 = Ret (k, m', w')" and n: "n = (if t then Suc k else k)"
    by (auto simp: s t Let_def elim!: obind_RetE)
  have "interval m1 = (if t then snd (tm_poll_tick I i) else i)"
    using execute_interval [OF e, of t i] t by simp
  with Cons.IH [OF r] n show ?case by (simp add: s t)
qed simp

text \<open>Chains of headers that extend each other.\<close>

lemma store_all_append: "store_all m (hs @ hs') = store_all (store_all m hs) hs'"
  by (simp add: store_all_def)

lemma extends_append: "extends p (hs @ hs') \<longleftrightarrow> extends p hs \<and> extends (last (p # hs)) hs'"
  by (induction hs arbitrary: p) auto

lemma extends_ConsD:
  assumes "extends p (h # hs)"
  shows "number p < number h" "number h = number p + 1" "unat (number h) = unat (number p) + 1"
    and "parent_hash h = hash p" "extends h hs"
proof -
  show lt: "number p < number h" and eq: "number h = number p + 1"
    and "parent_hash h = hash p" "extends h hs"
    using assms unfolding extends.simps by blast+
  show "unat (number h) = unat (number p) + 1" using u64_succ_unat [OF lt] eq by simp
qed

lemma extends_number: "extends p hs \<Longrightarrow> unat (number (last (p # hs))) = unat (number p) + length hs"
proof (induction hs arbitrary: p)
  case (Cons h hs)
  from Cons.IH [OF extends_ConsD(5) [OF Cons.prems]] extends_ConsD(3) [OF Cons.prems]
  show ?case by simp
qed simp

lemma store_all_tip:
  assumes "wf_headers m" and "extends (tip_header m) hs"
  shows "tip_header (store_all m hs) = last (tip_header m # hs)"
  using assms
proof (induction hs arbitrary: m)
  case (Cons h hs)
  note e = extends_ConsD [OF Cons.prems(2)]
  have "number h - 1 = tip_number m" using e(2) Cons.prems(1) by simp
  then have "m (number h - 1) \<noteq> None" using tip_number_in [OF Cons.prems(1)] by simp
  then have "wf_headers (m(number h \<mapsto> h))" by (intro wf_headers_upd [OF Cons.prems(1)] disjI2)
  moreover have "tip_header (m(number h \<mapsto> h)) = h"
    by (rule tip_header_upd [OF Cons.prems(1)]) (use e(1) Cons.prems(1) in simp)
  ultimately have "tip_header (store_all (m(number h \<mapsto> h)) hs) = last (h # hs)"
    using Cons.IH e(5) by metis
  then show ?case by simp
qed simp

declare extends.simps(2) [simp del]

context block_tree_contract
begin

text \<open>Whatever mining and its broadcasts do, the chain only grows.\<close>

lemma mine_grows:
  assumes "inv b" and "bt_mine_block X B b inp = Ret (res, b')"
  shows "inv b' \<and> grows (hdrs b) (hdrs b')"
proof -
  from assms(2) obtain h r where "bt_try_add_block_header B b h = Ret (r, b')"
    by (auto simp: bt_mine_block_def Let_def elim!: obind_RetE
        split: prod.splits sum.splits added_block_result.splits)
  with add_grows [OF assms(1)] show ?thesis by blast
qed

lemma execute_grows:
  assumes i: "inv (mi_chain m)" and e: "execute_poll X B P I inp m w = Ret (m', w', wk)"
  shows "inv (mi_chain m') \<and> grows (hdrs (mi_chain m)) (hdrs (mi_chain m'))"
proof -
  have poll: "mi_chain b = mi_chain a"
    if "poll_pending_broadcast P a v wk = Ret (b, v', wk')" for a b v v' wk wk'
    using that by (auto simp: poll_pending_broadcast_def elim!: obind_RetE
        split: option.splits poll.splits)
  have mine: "inv (mi_chain b) \<and> grows (hdrs (mi_chain a)) (hdrs (mi_chain b))"
    if "inv (mi_chain a)" "miner_mine X B P inp a v = Ret (b, v')" for a b v v'
    using that mine_grows [OF that(1)]
    by (auto simp: miner_mine_def Let_def elim!: obind_RetE split: mine_block_result.splits)
  show ?thesis
  proof (cases "fst (miner_tick I m)")
    case Pending
    with e i show ?thesis
      by (auto simp: execute_poll_def miner_tick_def dest!: poll split: prod.splits if_splits)
  next
    case (Ready txs)
    obtain t i1 where t: "tm_poll_tick I (interval m) = (t, i1)" by fastforce
    with e Ready obtain m1 w1 t' m2 wk1 where
      m1: "miner_mine X B P inp (m\<lparr>interval := i1\<rparr>) w = Ret (m1, w1)"
      and m2: "miner_tick I m1 = (t', m2)"
      and p: "poll_pending_broadcast P m2 w1 wk1 = Ret (m', w', wk)"
      by (auto simp: execute_poll_def miner_tick_def split: prod.splits if_splits
          elim!: obind_RetE)
    have "mi_chain m2 = mi_chain m1" using m2 by (auto simp: miner_tick_def split: prod.splits)
    with mine [OF _ m1] i poll [OF p] show ?thesis by simp
  qed
qed

end

definition broadcast_futs :: "('b, 'i, 'fut) miner \<Rightarrow> 'fut list" where
  "broadcast_futs m = (case pending_broadcast m of None \<Rightarrow> [] | Some req \<Rightarrow> [br_fut req])"

locale running_miner = reliable_block_tree B checks inv hdrs + working_provider P up
  for B :: "'b block_tree" and checks inv hdrs and P :: "('w, 'fut) provider" and up +
  fixes X :: ext
begin

text \<open>Polling the broadcast in flight, if there is one.\<close>

lemma poll_one:
  assumes "up w [br_fut req]"
  shows "\<exists>p w'. broadcast_request_poll P w req = Ret (p, w') \<and>
    (p = Pending \<longrightarrow> up w' [br_fut req]) \<and> up w' []"
proof -
  let ?fs = "[br_fut req]"
  obtain r w' where r: "bp_poll_next P w ?fs = Ret (r, w')"
    and u: "up w' (case r of None \<Rightarrow> ?fs
      | Some (i, res) \<Rightarrow> if i < length ?fs then remove_nth i ?fs else ?fs)"
    using broadcast_polled [OF assms] by blast
  have "up w' []" using fewer_up [OF u] by simp
  with u show ?thesis
    by (cases r) (auto simp: broadcast_request_poll_def poll_broadcast_def r)
qed

lemma poll_pending:
  assumes "up w (broadcast_futs m)"
  shows "\<exists>m' w' wk'. poll_pending_broadcast P m w wk = Ret (m', w', wk') \<and>
    mi_chain m' = mi_chain m \<and> up w' (broadcast_futs m')"
proof (cases "pending_broadcast m")
  case None
  then show ?thesis using assms by (simp add: poll_pending_broadcast_def)
next
  case (Some req)
  then have "up w [br_fut req]" using assms by (simp add: broadcast_futs_def)
  from poll_one [OF this] obtain p w' where p: "broadcast_request_poll P w req = Ret (p, w')"
    and u: "p = Pending \<longrightarrow> up w' [br_fut req]" "up w' []" by blast
  show ?thesis
    using u by (cases p) (simp_all add: poll_pending_broadcast_def Some p broadcast_futs_def)
qed

text \<open>A tick mines a block on top of the tip and sends it.\<close>

lemma mine_sent:
  assumes i: "inv (mi_chain m)" and u: "up w (broadcast_futs m)"
    and room: "tip_number (hdrs (mi_chain m)) < n"
  shows "\<exists>h b' f w'. miner_mine X B P inp m w = Ret (m\<lparr>mi_chain := b', pending_broadcast :=
        Some \<lparr>br_header = h, br_fut = f\<rparr>\<rparr>, w') \<and> inv b' \<and> up w' [f] \<and>
      extends (tip_header (hdrs (mi_chain m))) [h] \<and>
      hdrs b' = store_all (hdrs (mi_chain m)) [h]"
proof -
  obtain h b' where mine: "bt_mine_block X B (mi_chain m) inp = Ret (Mined h, b')"
    using mine_succeeds [OF i room] by blast
  note M = mine_Mined [OF i mine]
  obtain f w1 where f: "bp_broadcast_block_header P w h = Ret (f, w1)"
    and u1: "up w1 (broadcast_futs m @ [f])" using header_sent [OF u] by blast
  let ?w = "case pending_broadcast m of None \<Rightarrow> w1 | Some old \<Rightarrow> hp_drop P w1 [br_fut old]"
  have "up w1 [f]" using fewer_up [OF u1] by simp
  then have "up ?w [f]" using drop_up by (cases "pending_broadcast m") simp_all
  moreover have "extends (tip_header (hdrs (mi_chain m))) [h]"
    using M(4-6) inv_wf [OF i] inv_wf [OF M(1)] M(3) by (auto simp: extends.simps)
  moreover have "miner_mine X B P inp m w = Ret (m\<lparr>mi_chain := b', pending_broadcast :=
      Some \<lparr>br_header = h, br_fut = f\<rparr>\<rparr>, ?w)"
    by (simp add: miner_mine_def mine f Let_def)
  moreover have "hdrs b' = store_all (hdrs (mi_chain m)) [h]" using M(2) by simp
  ultimately show ?thesis using M(1) by blast
qed

lemma execute_total:
  assumes i: "inv (mi_chain m)" and u: "up w (broadcast_futs m)"
    and room: "tip_number (hdrs (mi_chain m)) < n"
  shows "\<exists>m' w' wk hs. execute_poll X B P I inp m w = Ret (m', w', wk) \<and> inv (mi_chain m') \<and>
    up w' (broadcast_futs m') \<and> extends (tip_header (hdrs (mi_chain m))) hs \<and>
    hdrs (mi_chain m') = store_all (hdrs (mi_chain m)) hs \<and>
    length hs = (if fst (tm_poll_tick I (interval m)) then 1 else 0)"
proof -
  obtain t j where t: "tm_poll_tick I (interval m) = (t, j)" by fastforce
  let ?m = "m\<lparr>interval := j\<rparr>"
  have fu: "broadcast_futs ?m = broadcast_futs m" by (simp add: broadcast_futs_def)
  show ?thesis
  proof (cases t)
    case False
    obtain m' w' wk where p: "poll_pending_broadcast P ?m w [OnTick] = Ret (m', w', wk)"
      and m': "mi_chain m' = mi_chain ?m" "up w' (broadcast_futs m')"
      using poll_pending u fu by metis
    have "execute_poll X B P I inp m w = Ret (m', w', wk)"
      by (simp add: execute_poll_def miner_tick_def t False p)
    with m' i show ?thesis
      by (intro exI [of _ m'] exI [of _ w'] exI [of _ wk] exI [of _ "[]"]) (simp add: t False)
  next
    case True
    obtain h b' f w1 where m: "miner_mine X B P inp ?m w = Ret (?m\<lparr>mi_chain := b',
        pending_broadcast := Some \<lparr>br_header = h, br_fut = f\<rparr>\<rparr>, w1)"
      and b': "inv b'" "up w1 [f]" "extends (tip_header (hdrs (mi_chain m))) [h]"
      "hdrs b' = store_all (hdrs (mi_chain m)) [h]"
      using mine_sent [of ?m w n inp] i u room fu by auto
    obtain t' k where t': "tm_poll_tick I j = (t', k)" by fastforce
    let ?m2 = "?m\<lparr>mi_chain := b', pending_broadcast :=
      Some \<lparr>br_header = h, br_fut = f\<rparr>, interval := k\<rparr>"
    have "up w1 (broadcast_futs ?m2)" using b'(2) by (simp add: broadcast_futs_def)
    from poll_pending [OF this, of "if t' then [] else [OnTick]"] obtain m' w' wk where
      p: "poll_pending_broadcast P ?m2 w1 (if t' then [] else [OnTick]) = Ret (m', w', wk)"
      and m': "mi_chain m' = b'" "up w' (broadcast_futs m')" by auto
    have "execute_poll X B P I inp m w = Ret (m', w', wk)"
      using p by (cases t') (simp_all add: execute_poll_def miner_tick_def t True m t')
    with m' b' show ?thesis
      by (intro exI [of _ m'] exI [of _ w'] exI [of _ wk] exI [of _ "[h]"])
        (simp add: t True)
  qed
qed

text \<open>Where the tip is after a chain was extended.\<close>

lemma extended_tip:
  assumes "inv b" and "inv b'" and "extends (tip_header (hdrs b)) hs"
    and "hdrs b' = store_all (hdrs b) hs"
  shows "tip_header (hdrs b') = last (tip_header (hdrs b) # hs)"
    and "unat (tip_number (hdrs b')) = unat (tip_number (hdrs b)) + length hs"
proof -
  note wf = inv_wf [OF assms(1)] and wf' = inv_wf [OF assms(2)]
  show t: "tip_header (hdrs b') = last (tip_header (hdrs b) # hs)"
    using store_all_tip [OF wf assms(3)] by (simp add: assms(4))
  show "unat (tip_number (hdrs b')) = unat (tip_number (hdrs b)) + length hs"
    using extends_number [OF assms(3)] t wf wf' by (metis tip_header_number)
qed

text \<open>Mining at every tick grows the chain by a block per tick.\<close>

lemma run_total:
  assumes "inv (mi_chain m)" and "up w (broadcast_futs m)"
    and "\<And>pass change inp w fs. (pass, change, inp) \<in> set sched \<Longrightarrow> up w fs \<Longrightarrow> up (change w) fs"
    and "unat (tip_number (hdrs (mi_chain m))) + length sched < 2 ^ 64"
  shows "\<exists>n m' w' hs. run_miner X B P I sched m w = Ret (n, m', w') \<and> inv (mi_chain m') \<and>
    up w' (broadcast_futs m') \<and> extends (tip_header (hdrs (mi_chain m))) hs \<and>
    hdrs (mi_chain m') = store_all (hdrs (mi_chain m)) hs \<and> length hs = n"
  using assms
proof (induction sched arbitrary: m w)
  case Nil
  then show ?case by (intro exI [of _ 0] exI [of _ m] exI [of _ w] exI [of _ "[]"]) simp
next
  case (Cons s sched)
  obtain pass change inp where s: "s = (pass, change, inp)" by (cases s) auto
  let ?m = "m\<lparr>interval := pass (interval m)\<rparr>" and ?b = "mi_chain m"
  have u: "up (change w) (broadcast_futs ?m)"
    using Cons.prems(3) [OF _ Cons.prems(2), of pass change inp] s
    by (simp add: broadcast_futs_def)
  have "tip_number (hdrs ?b) < 18446744073709551615"
    using Cons.prems(4) by (simp add: word_less_nat_alt)
  then obtain m1 w1 wk hs1 where e: "execute_poll X B P I inp ?m (change w) = Ret (m1, w1, wk)"
    and m1: "inv (mi_chain m1)" "up w1 (broadcast_futs m1)" "extends (tip_header (hdrs ?b)) hs1"
      "hdrs (mi_chain m1) = store_all (hdrs ?b) hs1"
    and len: "length hs1 = (if fst (tm_poll_tick I (interval ?m)) then 1 else 0)"
    using execute_total [of ?m "change w" 18446744073709551615 I inp] Cons.prems(1) u by auto
  note tip1 = extended_tip [OF Cons.prems(1) m1(1,3,4)]
  have "unat (tip_number (hdrs (mi_chain m1))) + length sched < 2 ^ 64"
    using tip1(2) len Cons.prems(4) by (simp split: if_splits)
  from Cons.IH [OF m1(1,2) _ this] Cons.prems(3) obtain n m' w' hs where
    r: "run_miner X B P I sched m1 w1 = Ret (n, m', w')"
    and m': "inv (mi_chain m')" "up w' (broadcast_futs m')"
      "extends (tip_header (hdrs (mi_chain m1))) hs"
      "hdrs (mi_chain m') = store_all (hdrs (mi_chain m1)) hs" "length hs = n"
    by (metis list.set_intros(2))
  have "run_miner X B P I (s # sched) m w = Ret (length hs1 + n, m', w')"
    using len by (simp add: s e r)
  moreover have "extends (tip_header (hdrs ?b)) (hs1 @ hs)"
    using m1(3) m'(3) tip1(1) by (simp add: extends_append)
  ultimately show ?case
    using m' m1(4) by (intro exI [of _ "length hs1 + n"] exI [of _ m'] exI [of _ w']
        exI [of _ "hs1 @ hs"]) (simp add: store_all_append)
qed

end

end
