(* ===== verification/Network.thy ===== *)
theory Network
  imports Provider Chain_Net
begin

text \<open>
  The network manager (\<^verbatim>\<open>src/src/net/network.rs\<close>): the task that owns the libp2p swarm.
  It carries out the commands of the providers, keeps the senders of the answers it owes in
  maps keyed by libp2p's identifiers, and turns swarm events into answers and into events for
  the chain manager. The swarm and its behaviours are not part of the crate: they are the
  record \<open>swarm\<close> of the operations that are called, on a state \<open>'s\<close> of their own.
\<close>

section \<open>The swarm and its events\<close>

type_synonym request_id = nat
type_synonym query_id = nat
type_synonym listener_id = nat

datatype topic = BLOCK_HEADER | TRANSACTIONS | OtherTopic string

record 's swarm =
  sw_listen_on :: "'s \<Rightarrow> multiaddr \<Rightarrow> (string + listener_id) \<times> 's"
  sw_listeners :: "'s \<Rightarrow> multiaddr list"
  sw_external_addresses :: "'s \<Rightarrow> multiaddr list"
  sw_with_p2p :: "multiaddr \<Rightarrow> peer_id \<Rightarrow> multiaddr"
  sw_dial :: "'s \<Rightarrow> multiaddr \<Rightarrow> (string + unit) \<times> 's"
  sw_local_peer_id :: "'s \<Rightarrow> peer_id"
  sw_publish :: "'s \<Rightarrow> topic \<Rightarrow> bytes \<Rightarrow> (string + unit) \<times> 's"
  sw_add_explicit_peer :: "'s \<Rightarrow> peer_id \<Rightarrow> 's"
  sw_remove_explicit_peer :: "'s \<Rightarrow> peer_id \<Rightarrow> 's"
  sw_add_address :: "'s \<Rightarrow> peer_id \<Rightarrow> multiaddr \<Rightarrow> 's"
  sw_remove_address :: "'s \<Rightarrow> peer_id \<Rightarrow> multiaddr \<Rightarrow> 's"
  sw_get_closest_peers :: "'s \<Rightarrow> peer_id \<Rightarrow> query_id \<times> 's"
  sw_bootstrap :: "'s \<Rightarrow> 's"
  sw_send_request :: "'s \<Rightarrow> peer_id \<Rightarrow> headers_request \<Rightarrow> request_id \<times> 's"
  sw_send_response :: "'s \<Rightarrow> handle \<Rightarrow> header list \<Rightarrow> 's"
  sw_txs_encode :: "transaction list \<Rightarrow> bytes"
  sw_txs_decode :: "bytes \<Rightarrow> string + transaction list"

datatype mdns_event =
    Discovered "(peer_id \<times> multiaddr) list"
  | Expired "(peer_id \<times> multiaddr) list"

text \<open>The closest-peers query fails with a timeout only.\<close>

datatype query_result =
    QueryBootstrap "string + peer_id"
  | QueryClosestPeers "unit + peer_id list"
  | QueryOther

datatype kad_event =
    RoutingUpdated peer_id
  | OutboundQueryProgressed query_id query_result
  | KadOther

datatype request_response_event =
    RequestMessage headers_request handle
  | ResponseMessage request_id headers_response
  | OutboundFailureEvent request_id string
  | InboundFailure
  | ResponseSent

datatype swarm_event =
    Mdns mdns_event
  | GossipMessage topic bytes
  | Kad kad_event
  | RequestResponse request_response_event
  | IncomingConnection
  | IncomingConnectionError
  | ConnectionClosed
  | ConnectionEstablished peer_id bool
  | OutgoingConnectionError "peer_id option" string
  | NewListenAddr listener_id multiaddr
  | OtherEvent

section \<open>State\<close>

record 's network_manager =
  nm_swarm :: 's
  event_open :: bool
  event_sender :: "chain_network_event list"
  pending_request_headers :: "request_id \<rightharpoonup> get_headers_request"
  pending_get_closest_peers :: "query_id \<rightharpoonup> handle"
  pending_dial :: "peer_id \<rightharpoonup> handle"
  pending_listening :: "listener_id \<rightharpoonup> handle"
  incoming_peer_requests :: "handle list"

definition network_manager_new :: "'s \<Rightarrow> 's network_manager" where
  "network_manager_new s = \<lparr>nm_swarm = s, event_open = True, event_sender = [],
     pending_request_headers = Map.empty, pending_get_closest_peers = Map.empty,
     pending_dial = Map.empty, pending_listening = Map.empty, incoming_peer_requests = []\<rparr>"

text \<open>Sending an answer that is expected to be wanted.\<close>

definition answer_to :: "string \<Rightarrow> handle \<Rightarrow> reply \<Rightarrow> net_world \<Rightarrow> net_world outcome" where
  "answer_to msg c v w =
     obind (expect msg (oneshot_send c v (channels w))) (\<lambda>cs. Ret (w\<lparr>channels := cs\<rparr>))"

text \<open>Inserting a sender into a map drops the one that was stored under the key.\<close>

definition drop_old :: "handle option \<Rightarrow> net_world \<Rightarrow> net_world" where
  "drop_old c w = (case c of None \<Rightarrow> w | Some c \<Rightarrow> w\<lparr>channels := drop_sender c (channels w)\<rparr>)"

section \<open>Handlers\<close>

definition handle_response_block_headers ::
  "'s swarm \<Rightarrow> 's network_manager \<Rightarrow> get_block_headers_response request_response \<Rightarrow>
     's network_manager" where
  "handle_response_block_headers S nm response =
     (case response of
        Inl e \<Rightarrow> nm
      | Inr r \<Rightarrow> nm\<lparr>nm_swarm := sw_send_response S (nm_swarm nm) (gr_channel r) (gr_headers r)\<rparr>)"

definition publish_and_answer ::
  "'s swarm \<Rightarrow> 's network_manager \<Rightarrow> net_world \<Rightarrow> topic \<Rightarrow> bytes \<Rightarrow> handle \<Rightarrow>
     ('s network_manager \<times> net_world) outcome" where
  "publish_and_answer S nm w t buf tx =
     (let (r, s) = sw_publish S (nm_swarm nm) t buf; nm' = nm\<lparr>nm_swarm := s\<rparr> in
      case r of
        Inl e \<Rightarrow> obind (answer_to ''Receiver not to be dropped'' tx
          (UnitReply (Inl (PublishError e))) w) (\<lambda>w'. Ret (nm', w'))
      | Inr _ \<Rightarrow> obind (answer_to ''Reciever not to be dropped'' tx (UnitReply (Inr ())) w)
          (\<lambda>w'. Ret (nm', w')))"

fun handle_command ::
  "ext \<Rightarrow> 's swarm \<Rightarrow> 's network_manager \<Rightarrow> net_world \<Rightarrow> network_provider_message \<Rightarrow>
     ('s network_manager \<times> net_world) outcome" where
  "handle_command X S nm w (StartListening addr tx) =
     (let (r, s) = sw_listen_on S (nm_swarm nm) addr; nm' = nm\<lparr>nm_swarm := s\<rparr> in
      case r of
        Inl e \<Rightarrow> obind (answer_to ''Reciever not dropped'' tx
          (UnitReply (Inl (TransportError e))) w) (\<lambda>w'. Ret (nm', w'))
      | Inr l \<Rightarrow> Ret (nm'\<lparr>pending_listening := (pending_listening nm)(l \<mapsto> tx)\<rparr>,
          drop_old (pending_listening nm l) w))"
| "handle_command X S nm w (ListenAddrs tx) =
     obind (answer_to ''Reciever not dropped'' tx (AddrsReply (Inr
       (sw_listeners S (nm_swarm nm) @ sw_external_addresses S (nm_swarm nm)))) w) (\<lambda>w'.
     Ret (nm, w'))"
| "handle_command X S nm w (Dial p addr tx) =
     (case pending_dial nm p of
        None \<Rightarrow>
          (let (r, s) = sw_dial S (nm_swarm nm) (sw_with_p2p S addr p) in
           case r of
             Inl e \<Rightarrow> obind (answer_to ''Reciever not dropped'' tx
               (UnitReply (Inl (DialError e))) w) (\<lambda>w'. Ret (nm\<lparr>nm_swarm := s\<rparr>, w'))
           | Inr _ \<Rightarrow> Ret (nm\<lparr>nm_swarm := sw_add_address S s p addr,
               pending_dial := (pending_dial nm)(p \<mapsto> tx)\<rparr>, w))
      | Some _ \<Rightarrow> Ret (nm, drop_old (Some tx) w))"
| "handle_command X S nm w (BroadcastTransactions tx txs) =
     publish_and_answer S nm w TRANSACTIONS (sw_txs_encode S txs) tx"
| "handle_command X S nm w (BroadcastBlockHeader h tx) =
     publish_and_answer S nm w BLOCK_HEADER (header_encode X h) tx"
| "handle_command X S nm w (GetClosestPeers tx) =
     (let (q, s) = sw_get_closest_peers S (nm_swarm nm) (sw_local_peer_id S (nm_swarm nm)) in
      Ret (nm\<lparr>nm_swarm := s,
          pending_get_closest_peers := (pending_get_closest_peers nm)(q \<mapsto> tx)\<rparr>,
        drop_old (pending_get_closest_peers nm q) w))"
| "handle_command X S nm w (GetHeaders r) =
     (let (q, s) = sw_send_request S (nm_swarm nm) (ghr_peer r) (ghr_request r) in
      Ret (nm\<lparr>nm_swarm := s,
          pending_request_headers := (pending_request_headers nm)(q \<mapsto> r)\<rparr>,
        drop_old (map_option ghr_sender (pending_request_headers nm q)) w))"

fun handle_mdns_event :: "'s swarm \<Rightarrow> 's network_manager \<Rightarrow> mdns_event \<Rightarrow> 's network_manager" where
  "handle_mdns_event S nm (Discovered l) = nm\<lparr>nm_swarm := fold (\<lambda>(p, a) s.
     sw_add_address S (sw_add_explicit_peer S s p) p a) l (nm_swarm nm)\<rparr>"
| "handle_mdns_event S nm (Expired l) = nm\<lparr>nm_swarm := fold (\<lambda>(p, a) s.
     sw_remove_address S (sw_remove_explicit_peer S s p) p a) l (nm_swarm nm)\<rparr>"

fun handle_kad_event ::
  "'s network_manager \<Rightarrow> net_world \<Rightarrow> kad_event \<Rightarrow>
     ('s network_manager \<times> net_world) outcome" where
  "handle_kad_event nm w (OutboundQueryProgressed q (QueryClosestPeers result)) =
     (case pending_get_closest_peers nm q of
        Some c \<Rightarrow>
          (let response = (case result of Inr peers \<Rightarrow> Inr peers | Inl _ \<Rightarrow> Inl Timeout) in
           obind (answer_to ''Reciever not to dropped'' c (PeersReply response) w) (\<lambda>w'.
           Ret (nm\<lparr>pending_get_closest_peers := (pending_get_closest_peers nm)(q := None)\<rparr>, w')))
      | None \<Rightarrow> Ret (nm, w))"
| "handle_kad_event nm w _ = Ret (nm, w)"

fun handle_request_response_header_event ::
  "'s network_manager \<Rightarrow> net_world \<Rightarrow> request_response_event \<Rightarrow>
     ('s network_manager \<times> net_world) outcome" where
  "handle_request_response_header_event nm w (RequestMessage request channel) =
     (let (respond, cs) = oneshot_channel None (channels w) in
      if event_open nm then
        Ret (nm\<lparr>event_sender := event_sender nm @ [GetBlockHeaders respond channel request],
               incoming_peer_requests := incoming_peer_requests nm @ [respond]\<rparr>,
             w\<lparr>channels := cs\<rparr>)
      else Panic ''Chain network receiver not dropped.'')"
| "handle_request_response_header_event nm w (ResponseMessage request_id response) =
     (case pending_request_headers nm request_id of
        Some r \<Rightarrow>
          obind (answer_to ''Receiver not to dropped.'' (ghr_sender r)
            (HeadersReply (Inr response)) w) (\<lambda>w'.
          Ret (nm\<lparr>pending_request_headers := (pending_request_headers nm)(request_id := None)\<rparr>,
            w'))
      | None \<Rightarrow> Ret (nm, w))"
| "handle_request_response_header_event nm w (OutboundFailureEvent request_id e) =
     (case pending_request_headers nm request_id of
        Some r \<Rightarrow>
          obind (answer_to ''Receiver dropped'' (ghr_sender r)
            (HeadersReply (Inl (OutboundFailure e))) w) (\<lambda>w'.
          Ret (nm\<lparr>pending_request_headers := (pending_request_headers nm)(request_id := None)\<rparr>,
            w'))
      | None \<Rightarrow> Ret (nm, w))"
| "handle_request_response_header_event nm w InboundFailure = Ret (nm, w)"
| "handle_request_response_header_event nm w ResponseSent = Ret (nm, w)"

definition handle_gossipsub_message ::
  "ext \<Rightarrow> 's swarm \<Rightarrow> 's network_manager \<Rightarrow> topic \<Rightarrow> bytes \<Rightarrow> 's network_manager outcome" where
  "handle_gossipsub_message X S nm t dat =
     (if t = BLOCK_HEADER then
        obind (expect ''decode header'' (header_decode X dat)) (\<lambda>h.
        if event_open nm
        then Ret (nm\<lparr>event_sender := event_sender nm @ [IncomingNewBlockHeader h]\<rparr>)
        else Panic ''receiver dropped when sending new block header'')
      else if t = TRANSACTIONS then
        obind (expect ''decode transactions'' (sw_txs_decode S dat)) (\<lambda>txs.
        if event_open nm
        then Ret (nm\<lparr>event_sender := event_sender nm @ [IncomingTransactions txs]\<rparr>)
        else Panic ''receiver dropped when sending new transactions'')
      else Ret nm)"

definition answer_dial ::
  "'s network_manager \<Rightarrow> net_world \<Rightarrow> peer_id \<Rightarrow> unit request_response \<Rightarrow>
     ('s network_manager \<times> net_world) outcome" where
  "answer_dial nm w p r =
     (case pending_dial nm p of
        Some c \<Rightarrow> obind (answer_to ''Reciever not dropped'' c (UnitReply r) w) (\<lambda>w'.
          Ret (nm\<lparr>pending_dial := (pending_dial nm)(p := None)\<rparr>, w'))
      | None \<Rightarrow> Ret (nm, w))"

fun handle_event ::
  "ext \<Rightarrow> 's swarm \<Rightarrow> 's network_manager \<Rightarrow> net_world \<Rightarrow> swarm_event \<Rightarrow>
     ('s network_manager \<times> net_world) outcome" where
  "handle_event X S nm w (Mdns e) = Ret (handle_mdns_event S nm e, w)"
| "handle_event X S nm w (GossipMessage t dat) =
     obind (handle_gossipsub_message X S nm t dat) (\<lambda>nm'. Ret (nm', w))"
| "handle_event X S nm w (Kad e) = handle_kad_event nm w e"
| "handle_event X S nm w (RequestResponse e) = handle_request_response_header_event nm w e"
| "handle_event X S nm w (ConnectionEstablished p dialer) =
     (if dialer then answer_dial nm w p (Inr ()) else Ret (nm, w))"
| "handle_event X S nm w (OutgoingConnectionError (Some p) e) =
     answer_dial nm w p (Inl (DialError e))"
| "handle_event X S nm w (NewListenAddr l addr) =
     (case pending_listening nm l of
        Some c \<Rightarrow> obind (answer_to ''Reciever not dropped'' c (UnitReply (Inr ())) w) (\<lambda>w'.
          Ret (nm\<lparr>pending_listening := (pending_listening nm)(l := None)\<rparr>, w'))
      | None \<Rightarrow> Ret (nm, w))"
| "handle_event X S nm w _ = Ret (nm, w)"

section \<open>The loop\<close>

text \<open>
  What \<open>select!\<close> can choose in one round: an event of the swarm (which has moved on to a new
  state), a command, the answer of the chain manager to a peer's request, or the timer. The
  loop ends when the command channel is closed; an alternative that is not ready does nothing.
\<close>

datatype 's choice =
    SwarmEvent 's swarm_event
  | NextCommand
  | PeerAnswer nat
  | Tick

definition poll_block_headers ::
  "chans \<Rightarrow> handle \<Rightarrow> get_block_headers_response request_response poll" where
  "poll_block_headers cs c =
     (case poll_receiver c cs of
        Ready (Inr (BlockHeadersReply v)) \<Rightarrow> Ready v
      | Ready (Inl e) \<Rightarrow> Ready (Inl e)
      | _ \<Rightarrow> Pending)"

fun network_step ::
  "ext \<Rightarrow> 's swarm \<Rightarrow> 's choice \<Rightarrow> 's network_manager \<Rightarrow> net_world \<Rightarrow>
     ('s network_manager \<times> net_world) outcome" where
  "network_step X S (SwarmEvent s e) nm w = handle_event X S (nm\<lparr>nm_swarm := s\<rparr>) w e"
| "network_step X S NextCommand nm w =
     (case commands w of
        [] \<Rightarrow> Ret (nm, w)
      | c # cs \<Rightarrow> handle_command X S nm (w\<lparr>commands := cs\<rparr>) c)"
| "network_step X S (PeerAnswer i) nm w =
     (if i < length (incoming_peer_requests nm) then
        case poll_block_headers (channels w) (incoming_peer_requests nm ! i) of
          Ready r \<Rightarrow> Ret (handle_response_block_headers S
            (nm\<lparr>incoming_peer_requests := remove_nth i (incoming_peer_requests nm)\<rparr>) r, w)
        | Pending \<Rightarrow> Ret (nm, w)
      else Ret (nm, w))"
| "network_step X S Tick nm w = Ret (nm\<lparr>nm_swarm := sw_bootstrap S (nm_swarm nm)\<rparr>, w)"

section \<open>Who owes an answer\<close>

text \<open>
  The places the sender of a oneshot channel can wait in: a command that was not taken yet, or
  one of the manager's maps.
\<close>

datatype owner =
    InCommand nat
  | InHeaders request_id
  | InPeers query_id
  | InDial peer_id
  | InListening listener_id

fun owned :: "'s network_manager \<Rightarrow> net_world \<Rightarrow> owner \<Rightarrow> handle option" where
  "owned nm w (InCommand i) =
     (if i < length (commands w) then Some (message_sender (commands w ! i)) else None)"
| "owned nm w (InHeaders q) = map_option ghr_sender (pending_request_headers nm q)"
| "owned nm w (InPeers q) = pending_get_closest_peers nm q"
| "owned nm w (InDial p) = pending_dial nm p"
| "owned nm w (InListening l) = pending_listening nm l"

text \<open>A channel whose sender waits is open and unanswered, and its sender is in one place.\<close>

definition unanswered :: "chans \<Rightarrow> handle \<Rightarrow> bool" where
  "unanswered cs c \<longleftrightarrow> c < length cs \<and> tx_alive (cs ! c) \<and> sent (cs ! c) = None"

definition senders_ok :: "'s network_manager \<Rightarrow> net_world \<Rightarrow> bool" where
  "senders_ok nm w \<longleftrightarrow> (\<forall>p c. owned nm w p = Some c \<longrightarrow> unanswered (channels w) c) \<and>
     (\<forall>p q c. owned nm w p = Some c \<longrightarrow> owned nm w q = Some c \<longrightarrow> p = q)"

lemma senders_okD:
  assumes "senders_ok nm w"
  shows "owned nm w p = Some c \<Longrightarrow> unanswered (channels w) c"
    and "owned nm w p = Some c \<Longrightarrow> owned nm w q = Some c \<Longrightarrow> p = q"
  using assms unfolding senders_ok_def by blast+

text \<open>
  A step that moves senders from the places \<open>f p\<close> to \<open>p\<close> and answers or closes at most the
  channel whose sender was in a place that it vacates.
\<close>

lemma senders_ok_step:
  assumes ok: "senders_ok nm w" and f: "inj f"
    and sub: "\<And>p c. owned nm' w' p = Some c \<Longrightarrow> owned nm w (f p) = Some c"
    and chan: "\<And>c. unanswered (channels w) c \<Longrightarrow> \<not> unanswered (channels w') c \<Longrightarrow>
      owned nm w p0 = Some c"
    and free: "\<And>p. owned nm' w' p \<noteq> None \<Longrightarrow> f p \<noteq> p0"
  shows "senders_ok nm' w'"
  unfolding senders_ok_def
proof (intro conjI allI impI)
  fix p c
  assume p: "owned nm' w' p = Some c"
  show "unanswered (channels w') c"
  proof (rule ccontr)
    assume "\<not> unanswered (channels w') c"
    with chan senders_okD(1) [OF ok sub [OF p]] have "owned nm w p0 = Some c" by blast
    from senders_okD(2) [OF ok sub [OF p] this] free [of p] p show False by simp
  qed
next
  fix p q c
  assume "owned nm' w' p = Some c" "owned nm' w' q = Some c"
  from sub [OF this(1)] sub [OF this(2)] have "f p = f q" by (rule senders_okD(2) [OF ok])
  with f show "p = q" by (rule injD)
qed

lemma unanswered_send:
  "oneshot_send c v cs = Inr cs' \<Longrightarrow> unanswered cs d \<Longrightarrow> \<not> unanswered cs' d \<Longrightarrow> d = c"
  by (auto simp: oneshot_send_def unanswered_def nth_list_update split: if_splits)

lemma unanswered_drop_sender:
  "unanswered cs d \<Longrightarrow> \<not> unanswered (drop_sender c cs) d \<Longrightarrow> d = c"
  by (auto simp: drop_sender_def unanswered_def nth_list_update split: if_splits)

lemma unanswered_append: "unanswered cs d \<Longrightarrow> unanswered (cs @ ds) d"
  by (auto simp: unanswered_def nth_append)

lemma answer_to_Ret:
  "answer_to msg c v w = Ret w' \<longleftrightarrow>
    (\<exists>cs. oneshot_send c v (channels w) = Inr cs \<and> w' = w\<lparr>channels := cs\<rparr>)"
  by (auto simp: answer_to_def expect_Ret_iff obind_Ret_iff)

lemma answer_to_keeps:
  assumes "answer_to msg c v w = Ret w'"
  shows "commands w' = commands w" "length (channels w') = length (channels w)"
    and "unanswered (channels w) d \<Longrightarrow> \<not> unanswered (channels w') d \<Longrightarrow> d = c"
proof -
  obtain cs where cs: "oneshot_send c v (channels w) = Inr cs" and w': "w' = w\<lparr>channels := cs\<rparr>"
    using assms answer_to_Ret by blast
  show "commands w' = commands w" using w' by simp
  show "length (channels w') = length (channels w)"
    using cs w' by (auto simp: oneshot_send_def split: if_splits)
  show "d = c" if "unanswered (channels w) d" "\<not> unanswered (channels w') d"
    using unanswered_send [OF cs] that w' by simp
qed

lemma drop_old_keeps:
  "commands (drop_old c w) = commands w"
  "unanswered (channels w) d \<Longrightarrow> \<not> unanswered (channels (drop_old c w)) d \<Longrightarrow> c = Some d"
  using unanswered_drop_sender by (auto simp: drop_old_def split: option.splits)

text \<open>Answering and removing an entry of a map, for each of the maps.\<close>

lemma senders_ok_answer:
  assumes ok: "senders_ok nm w" and p: "owned nm w p0 = Some c"
    and a: "answer_to msg c v w = Ret w'"
    and gone: "owned nm' w' p0 = None"
    and rest: "\<And>p. p \<noteq> p0 \<Longrightarrow> owned nm' w' p = owned nm w p"
  shows "senders_ok nm' w'"
proof (rule senders_ok_step [where f = id and ?p0.0 = p0, OF ok])
  show "owned nm w (id p) = Some d" if "owned nm' w' p = Some d" for p d
    using that gone rest by (cases "p = p0") auto
  show "owned nm w p0 = Some d" if "unanswered (channels w) d" "\<not> unanswered (channels w') d" for d
    using answer_to_keeps(3) [OF a that] p by simp
qed (use gone in auto)

text \<open>Taking the next command: its sender moves to the place \<open>p0\<close>, or is answered.\<close>

fun from_command :: "owner option \<Rightarrow> owner \<Rightarrow> owner" where
  "from_command p0 (InCommand i) = InCommand (Suc i)"
| "from_command p0 p = (if p0 = Some p then InCommand 0 else p)"

lemma inj_from_command: "inj (from_command p0)"
proof (rule injI)
  fix p q
  assume "from_command p0 p = from_command p0 q"
  then show "p = q" by (cases p; cases q) (auto split: if_splits)
qed

lemma from_command_neq:
  "from_command None p \<noteq> InCommand 0"
  "p0 = Some q \<Longrightarrow> (\<And>i. q \<noteq> InCommand i) \<Longrightarrow> from_command p0 p \<noteq> q"
  by (cases p; auto split: if_splits)+


lemma owned_cong:
  assumes "commands w' = commands w"
    and "pending_request_headers nm' = pending_request_headers nm"
    and "pending_get_closest_peers nm' = pending_get_closest_peers nm"
    and "pending_dial nm' = pending_dial nm" and "pending_listening nm' = pending_listening nm"
  shows "owned nm' w' p = owned nm w p"
  using assms by (cases p) simp_all

lemma senders_ok_same:
  assumes "senders_ok nm w" and "\<And>p. owned nm' w' p = owned nm w p"
    and "\<And>c. unanswered (channels w) c \<Longrightarrow> unanswered (channels w') c"
  shows "senders_ok nm' w'"
  using assms unfolding senders_ok_def by simp

lemma answer_dial_senders:
  assumes ok: "senders_ok nm w" and "answer_dial nm w p r = Ret (nm', w')"
  shows "senders_ok nm' w'"
proof (cases "pending_dial nm p")
  case (Some c)
  with assms(2) obtain a where a: "answer_to a c (UnitReply r) w = Ret w'"
    and nm': "nm' = nm\<lparr>pending_dial := (pending_dial nm)(p := None)\<rparr>"
    by (auto simp: answer_dial_def elim!: obind_RetE)
  note k = answer_to_keeps(1) [OF a]
  show ?thesis
  proof (rule senders_ok_answer [where ?p0.0 = "InDial p", OF ok _ a])
    show "owned nm' w' q = owned nm w q" if "q \<noteq> InDial p" for q
      using that by (cases q) (auto simp: nm' k)
  qed (simp_all add: Some nm')
qed (use assms in \<open>simp add: answer_dial_def\<close>)

lemma kad_senders:
  assumes ok: "senders_ok nm w" and h: "handle_kad_event nm w e = Ret (nm', w')"
  shows "senders_ok nm' w'"
proof (cases "\<exists>q result c. e = OutboundQueryProgressed q (QueryClosestPeers result) \<and>
    pending_get_closest_peers nm q = Some c")
  case True
  then obtain q result c where e: "e = OutboundQueryProgressed q (QueryClosestPeers result)"
    and c: "pending_get_closest_peers nm q = Some c" by blast
  from h obtain a v where a: "answer_to a c v w = Ret w'"
    and nm': "nm' = nm\<lparr>pending_get_closest_peers := (pending_get_closest_peers nm)(q := None)\<rparr>"
    by (auto simp: e c Let_def elim!: obind_RetE)
  note k = answer_to_keeps(1) [OF a]
  show ?thesis
  proof (rule senders_ok_answer [where ?p0.0 = "InPeers q", OF ok _ a])
    show "owned nm' w' p = owned nm w p" if "p \<noteq> InPeers q" for p
      using that by (cases p) (auto simp: nm' k)
  qed (simp_all add: c nm')
next
  case False
  with h have "nm' = nm \<and> w' = w"
    by (cases "(nm, w, e)" rule: handle_kad_event.cases) (auto split: option.splits)
  with ok show ?thesis by simp
qed

lemma request_response_senders:
  assumes ok: "senders_ok nm w" and h: "handle_request_response_header_event nm w e = Ret (nm', w')"
  shows "senders_ok nm' w'"
proof -
  have answered: "senders_ok nm' w'" if "pending_request_headers nm q = Some r"
    and a: "answer_to a (ghr_sender r) v w = Ret w'"
    and nm': "nm' = nm\<lparr>pending_request_headers := (pending_request_headers nm)(q := None)\<rparr>"
    for q r a v
  proof (rule senders_ok_answer [where ?p0.0 = "InHeaders q", OF ok _ a])
    show "owned nm' w' p = owned nm w p" if "p \<noteq> InHeaders q" for p
      using that by (cases p) (auto simp: nm' answer_to_keeps(1) [OF a])
  qed (simp_all add: that)
  show ?thesis
  proof (cases e)
    case (RequestMessage request channel)
    with h obtain es ps where w': "channels w' = channels w @
        [\<lparr>sent = None, tx_alive = True, rx_alive = True, asked = None\<rparr>]" "commands w' = commands w"
      and nm': "nm' = nm\<lparr>event_sender := es, incoming_peer_requests := ps\<rparr>"
      by (auto simp: oneshot_channel_def split: if_splits)
    show ?thesis
    proof (rule senders_ok_same [OF ok])
      show "owned nm' w' p = owned nm w p" for p
        by (rule owned_cong) (simp_all add: w' nm')
      show "unanswered (channels w') c" if "unanswered (channels w) c" for c
        using that by (simp add: w' unanswered_append)
    qed
  next
    case (ResponseMessage q response)
    note e = this
    show ?thesis
    proof (cases "pending_request_headers nm q")
      case None
      with h ok e show ?thesis by simp
    next
      case (Some r)
      from h obtain a v where "answer_to a (ghr_sender r) v w = Ret w'"
        "nm' = nm\<lparr>pending_request_headers := (pending_request_headers nm)(q := None)\<rparr>"
        by (auto simp: e Some elim!: obind_RetE)
      with Some show ?thesis by (rule answered)
    qed
  next
    case (OutboundFailureEvent q err)
    note e = this
    show ?thesis
    proof (cases "pending_request_headers nm q")
      case None
      with h ok e show ?thesis by simp
    next
      case (Some r)
      from h obtain a v where "answer_to a (ghr_sender r) v w = Ret w'"
        "nm' = nm\<lparr>pending_request_headers := (pending_request_headers nm)(q := None)\<rparr>"
        by (auto simp: e Some elim!: obind_RetE)
      with Some show ?thesis by (rule answered)
    qed
  qed (use h ok in simp_all)
qed

lemma listening_senders:
  assumes ok: "senders_ok nm w" and "handle_event X S nm w (NewListenAddr l addr) = Ret (nm', w')"
  shows "senders_ok nm' w'"
proof (cases "pending_listening nm l")
  case (Some c)
  with assms(2) obtain a where a: "answer_to a c (UnitReply (Inr ())) w = Ret w'"
    and nm': "nm' = nm\<lparr>pending_listening := (pending_listening nm)(l := None)\<rparr>"
    by (auto elim!: obind_RetE)
  show ?thesis
  proof (rule senders_ok_answer [where ?p0.0 = "InListening l", OF ok _ a])
    show "owned nm' w' p = owned nm w p" if "p \<noteq> InListening l" for p
      using that by (cases p) (auto simp: nm' answer_to_keeps(1) [OF a])
  qed (simp_all add: Some nm')
qed (use assms in simp)

lemma handle_event_senders:
  assumes ok: "senders_ok nm w" and h: "handle_event X S nm w e = Ret (nm', w')"
  shows "senders_ok nm' w'"
proof -
  have same: "senders_ok (nm\<lparr>nm_swarm := s, event_sender := es\<rparr>) w" for s es
  proof (rule senders_ok_same [OF ok])
    show "owned (nm\<lparr>nm_swarm := s, event_sender := es\<rparr>) w p = owned nm w p" for p
      by (rule owned_cong) simp_all
  qed
  have swarm: "senders_ok (nm\<lparr>nm_swarm := s\<rparr>) w" for s
    using same [where s = s and es = "event_sender nm"] by simp
  have events: "senders_ok (nm\<lparr>event_sender := es\<rparr>) w" for es
    using same [where s = "nm_swarm nm" and es = es] by simp
  show ?thesis
  proof (cases "(X, S, nm, w, e)" rule: handle_event.cases)
    case (1 X S nm w e)
    with h swarm show ?thesis by (cases e) auto
  next
    case (2 X S nm w t dat)
    with h ok events show ?thesis
      by (auto simp: handle_gossipsub_message_def elim!: obind_RetE split: if_splits)
  next
    case (3 X S nm w e)
    with h ok kad_senders show ?thesis by auto
  next
    case (4 X S nm w e)
    with h ok request_response_senders show ?thesis by auto
  next
    case (5 X S nm w p dialer)
    with h ok answer_dial_senders show ?thesis by (auto split: if_splits)
  next
    case (6 X S nm w p e)
    with h ok answer_dial_senders show ?thesis by auto
  next
    case (7 X S nm w l addr)
    with h ok listening_senders show ?thesis by fastforce
  qed (use h ok in auto)
qed

definition in_map :: "owner \<Rightarrow> bool" where
  "in_map p \<longleftrightarrow> (\<forall>i. p \<noteq> InCommand i)"

lemma in_map_simps [simp]:
  "\<not> in_map (InCommand i)" "in_map (InHeaders q)" "in_map (InPeers q)" "in_map (InDial p)"
  "in_map (InListening l)"
  by (simp_all add: in_map_def)

lemma command_moved:
  assumes ok: "senders_ok nm w" and cmds: "commands w = cmd # cs" "commands w' = cs"
    and same: "\<And>p. in_map p \<Longrightarrow> p0 \<noteq> Some p \<Longrightarrow> owned nm' w' p = owned nm w p"
    and at: "\<And>p. p0 = Some p \<Longrightarrow> in_map p \<and> owned nm' w' p = Some (message_sender cmd)"
    and chan: "\<And>d. unanswered (channels w) d \<Longrightarrow> \<not> unanswered (channels w') d \<Longrightarrow>
      owned nm w (case p0 of None \<Rightarrow> InCommand 0 | Some p \<Rightarrow> p) = Some d"
  shows "senders_ok nm' w'"
proof (rule senders_ok_step [where f = "from_command p0" and
      ?p0.0 = "case p0 of None \<Rightarrow> InCommand 0 | Some p \<Rightarrow> p", OF ok inj_from_command _ chan])
  fix p c
  assume p: "owned nm' w' p = Some c"
  show "owned nm w (from_command p0 p) = Some c"
  proof (cases "in_map p")
    case False
    then obtain i where "p = InCommand i" by (auto simp: in_map_def)
    with p cmds show ?thesis by (auto split: if_splits)
  next
    case True
    show ?thesis
    proof (cases "p0 = Some p")
      case eq: True
      have "c = message_sender cmd" using at [OF eq] p by simp
      moreover have "from_command p0 p = InCommand 0" using True eq by (cases p) simp_all
      ultimately show ?thesis using cmds by simp
    next
      case neq: False
      have "from_command p0 p = p" using True neq by (cases p) auto
      with same [OF True neq] p show ?thesis by simp
    qed
  qed
next
  fix p
  show "from_command p0 p \<noteq> (case p0 of None \<Rightarrow> InCommand 0 | Some p \<Rightarrow> p)"
  proof (cases p0)
    case None
    then show ?thesis by (simp add: from_command_neq(1))
  next
    case (Some q)
    with at have "\<And>i. q \<noteq> InCommand i" by (auto simp: in_map_def)
    with Some show ?thesis by (simp add: from_command_neq(2))
  qed
qed

lemma command_answered:
  assumes "senders_ok nm w" and "commands w = cmd # cs"
    and a: "answer_to a (message_sender cmd) v (w\<lparr>commands := cs\<rparr>) = Ret w'"
    and "pending_request_headers nm' = pending_request_headers nm"
    and "pending_get_closest_peers nm' = pending_get_closest_peers nm"
    and "pending_dial nm' = pending_dial nm" and "pending_listening nm' = pending_listening nm"
  shows "senders_ok nm' w'"
proof (rule command_moved [where ?p0.0 = None and cmd = cmd and cs = cs, OF assms(1,2)])
  show "commands w' = cs" using answer_to_keeps(1) [OF a] by simp
  show "owned nm' w' p = owned nm w p" if "in_map p" for p
    using that assms(4-) by (cases p) simp_all
  show "owned nm w (case None of None \<Rightarrow> InCommand 0 | Some p \<Rightarrow> p) = Some d"
    if "unanswered (channels w) d" "\<not> unanswered (channels w') d" for d
    using answer_to_keeps(3) [OF a, of d] that assms(2) by simp
qed simp

lemma publish_senders:
  assumes "senders_ok nm w" and "commands w = cmd # cs"
    and "publish_and_answer S nm (w\<lparr>commands := cs\<rparr>) t buf (message_sender cmd) = Ret (nm', w')"
  shows "senders_ok nm' w'"
proof -
  from assms(3) obtain a v s where
    a: "answer_to a (message_sender cmd) v (w\<lparr>commands := cs\<rparr>) = Ret w'"
    and nm': "nm' = nm\<lparr>nm_swarm := s\<rparr>"
    by (auto simp: publish_and_answer_def Let_def elim!: obind_RetE split: prod.splits sum.splits)
  show ?thesis by (rule command_answered [OF assms(1,2) a]) (simp_all add: nm')
qed

lemma command_stored:
  assumes "senders_ok nm w" and "commands w = cmd # cs" and "in_map p0"
    and w': "w' = drop_old (owned nm w p0) (w\<lparr>commands := cs\<rparr>)"
    and "owned nm' w' p0 = Some (message_sender cmd)"
    and "\<And>p. in_map p \<Longrightarrow> p \<noteq> p0 \<Longrightarrow> owned nm' w' p = owned nm w p"
  shows "senders_ok nm' w'"
proof (rule command_moved [where ?p0.0 = "Some p0" and cmd = cmd and cs = cs, OF assms(1,2)])
  show "commands w' = cs" using drop_old_keeps(1) w' by simp
  show "owned nm w (case Some p0 of None \<Rightarrow> InCommand 0 | Some p \<Rightarrow> p) = Some d"
    if "unanswered (channels w) d" "\<not> unanswered (channels w') d" for d
    using drop_old_keeps(2) [of "w\<lparr>commands := cs\<rparr>" d "owned nm w p0"] that w' by simp
qed (use assms in auto)

lemma dial_senders:
  assumes ok: "senders_ok nm w" and cmds: "commands w = Dial q addr tx # cs"
    and h: "handle_command X S nm (w\<lparr>commands := cs\<rparr>) (Dial q addr tx) = Ret (nm', w')"
  shows "senders_ok nm' w'"
proof (cases "pending_dial nm q")
  case (Some c)
  with h have nm': "nm' = nm" and w': "w' = drop_old (Some tx) (w\<lparr>commands := cs\<rparr>)" by auto
  show ?thesis
  proof (rule command_moved [where ?p0.0 = None, OF ok cmds])
    show "owned nm' w' p = owned nm w p" if "in_map p" for p
      using that by (cases p) (simp_all add: nm')
    show "owned nm w (case None of None \<Rightarrow> InCommand 0 | Some p \<Rightarrow> p) = Some d"
      if "unanswered (channels w) d" "\<not> unanswered (channels w') d" for d
      using drop_old_keeps(2) [of "w\<lparr>commands := cs\<rparr>" d "Some tx"] that w' cmds by simp
  qed (simp_all add: w' drop_old_keeps(1))
next
  case None
  obtain r s where d: "sw_dial S (nm_swarm nm) (sw_with_p2p S addr q) = (r, s)" by fastforce
  show ?thesis
  proof (cases r)
    case (Inl e)
    with h None d obtain a v where
      a: "answer_to a (message_sender (Dial q addr tx)) v (w\<lparr>commands := cs\<rparr>) = Ret w'"
      and nm': "nm' = nm\<lparr>nm_swarm := s\<rparr>" by (auto simp: Let_def elim!: obind_RetE)
    show ?thesis by (rule command_answered [OF ok cmds a]) (simp_all add: nm')
  next
    case (Inr u)
    with h None d have nm': "nm' = nm\<lparr>nm_swarm := sw_add_address S s q addr, pending_dial :=
        (pending_dial nm)(q \<mapsto> tx)\<rparr>"
      and w': "w' = drop_old (owned nm w (InDial q)) (w\<lparr>commands := cs\<rparr>)"
      by (auto simp: Let_def drop_old_def)
    show ?thesis
    proof (rule command_stored [OF ok cmds _ w'])
      show "owned nm' w' p = owned nm w p" if "in_map p" "p \<noteq> InDial q" for p
        using that by (cases p) (simp_all add: nm')
    qed (simp_all add: nm')
  qed
qed

lemma handle_command_senders:
  assumes ok: "senders_ok nm w" and cmds: "commands w = cmd # cs"
    and h: "handle_command X S nm (w\<lparr>commands := cs\<rparr>) cmd = Ret (nm', w')"
  shows "senders_ok nm' w'"
proof (cases cmd)
  case (GetClosestPeers tx)
  obtain q s where "sw_get_closest_peers S (nm_swarm nm) (sw_local_peer_id S (nm_swarm nm)) = (q, s)"
    by fastforce
  with h GetClosestPeers have nm': "nm' = nm\<lparr>nm_swarm := s, pending_get_closest_peers :=
      (pending_get_closest_peers nm)(q \<mapsto> tx)\<rparr>"
    and w': "w' = drop_old (owned nm w (InPeers q)) (w\<lparr>commands := cs\<rparr>)"
    by auto
  show ?thesis
  proof (rule command_stored [OF ok cmds _ w'])
    show "owned nm' w' p = owned nm w p" if "in_map p" "p \<noteq> InPeers q" for p
      using that by (cases p) (simp_all add: nm')
  qed (simp_all add: nm' GetClosestPeers)
next
  case (GetHeaders r)
  obtain q s where "sw_send_request S (nm_swarm nm) (ghr_peer r) (ghr_request r) = (q, s)"
    by fastforce
  with h GetHeaders have nm': "nm' = nm\<lparr>nm_swarm := s, pending_request_headers :=
      (pending_request_headers nm)(q \<mapsto> r)\<rparr>"
    and w': "w' = drop_old (owned nm w (InHeaders q)) (w\<lparr>commands := cs\<rparr>)"
    by auto
  show ?thesis
  proof (rule command_stored [OF ok cmds _ w'])
    show "owned nm' w' p = owned nm w p" if "in_map p" "p \<noteq> InHeaders q" for p
      using that by (cases p) (simp_all add: nm')
  qed (simp_all add: nm' GetHeaders)
next
  case (StartListening addr tx)
  obtain r s where l: "sw_listen_on S (nm_swarm nm) addr = (r, s)" by fastforce
  show ?thesis
  proof (cases r)
    case (Inl e)
    with h StartListening l obtain a v where
      a: "answer_to a (message_sender cmd) v (w\<lparr>commands := cs\<rparr>) = Ret w'"
      and nm': "nm' = nm\<lparr>nm_swarm := s\<rparr>" by (auto simp: Let_def elim!: obind_RetE)
    show ?thesis by (rule command_answered [OF ok cmds a]) (simp_all add: nm')
  next
    case (Inr q)
    with h StartListening l have nm': "nm' = nm\<lparr>nm_swarm := s, pending_listening :=
        (pending_listening nm)(q \<mapsto> tx)\<rparr>"
      and w': "w' = drop_old (owned nm w (InListening q)) (w\<lparr>commands := cs\<rparr>)"
      by (auto simp: Let_def)
    show ?thesis
    proof (rule command_stored [OF ok cmds _ w'])
      show "owned nm' w' p = owned nm w p" if "in_map p" "p \<noteq> InListening q" for p
        using that by (cases p) (simp_all add: nm')
    qed (simp_all add: nm' StartListening)
  qed
next
  case (ListenAddrs tx)
  with h obtain a v where a: "answer_to a (message_sender cmd) v (w\<lparr>commands := cs\<rparr>) = Ret w'"
    and nm': "nm' = nm" by (auto elim!: obind_RetE)
  show ?thesis by (rule command_answered [OF ok cmds a]) (simp_all add: nm')
next
  case (Dial q addr tx)
  then show ?thesis using dial_senders [OF ok] cmds h by simp
qed (insert h publish_senders [OF ok cmds], auto)

lemma network_step_senders:
  assumes ok: "senders_ok nm w" and h: "network_step X S ch nm w = Ret (nm', w')"
  shows "senders_ok nm' w'"
proof -
  have swarm: "senders_ok (nm\<lparr>nm_swarm := s\<rparr>) w" for s
  proof (rule senders_ok_same [OF ok])
    show "owned (nm\<lparr>nm_swarm := s\<rparr>) w p = owned nm w p" for p by (rule owned_cong) simp_all
  qed
  show ?thesis
  proof (cases ch)
    case (SwarmEvent s e)
    with h handle_event_senders [OF swarm] show ?thesis by simp
  next
    case NextCommand
    with h ok handle_command_senders [OF ok] show ?thesis by (cases "commands w") auto
  next
    case (PeerAnswer i)
    with h have w': "w' = w" and maps: "pending_request_headers nm' = pending_request_headers nm"
      "pending_get_closest_peers nm' = pending_get_closest_peers nm"
      "pending_dial nm' = pending_dial nm" "pending_listening nm' = pending_listening nm"
      by (auto simp: handle_response_block_headers_def split: if_splits poll.splits sum.splits)
    show ?thesis
    proof (rule senders_ok_same [OF ok])
      show "owned nm' w' p = owned nm w p" for p by (rule owned_cong) (simp_all add: w' maps)
    qed (simp add: w')
  next
    case Tick
    with h swarm show ?thesis by auto
  qed
qed

section \<open>What a step does to the channels\<close>

text \<open>
  A step answers one channel, closes one, opens one that is not for a request for headers, or
  leaves all as they are; and it delivers headers only in answer to a response of the swarm,
  on the channel of the request that the response is for.
\<close>

inductive chans_step ::
  "'s choice \<Rightarrow> 's network_manager \<Rightarrow> chans \<Rightarrow> chans \<Rightarrow> bool"
  for ch nm cs where
  kept [intro, simp]: "chans_step ch nm cs cs"
| closed [intro, simp]: "chans_step ch nm cs (drop_sender c cs)"
| opened: "asked d = None \<Longrightarrow> chans_step ch nm cs (cs @ [d])"
| answered: "oneshot_send c v cs = Inr cs' \<Longrightarrow>
    (\<And>hs. v = HeadersReply (Inr hs) \<Longrightarrow>
      \<exists>s q r. ch = SwarmEvent s (RequestResponse (ResponseMessage q hs)) \<and>
        pending_request_headers nm q = Some r \<and> c = ghr_sender r) \<Longrightarrow>
    chans_step ch nm cs cs'"

lemma drop_old_step: "chans_step ch nm (channels w) (channels (drop_old c w))"
  by (auto simp: drop_old_def split: option.splits)

lemma answer_step:
  assumes "answer_to a c v w = Ret w'" and "\<And>hs. v \<noteq> HeadersReply (Inr hs)"
  shows "chans_step ch nm (channels w) (channels w')"
proof -
  obtain cs where "oneshot_send c v (channels w) = Inr cs" "w' = w\<lparr>channels := cs\<rparr>"
    using assms(1) answer_to_Ret by blast
  then show ?thesis using assms(2) by (auto intro: chans_step.answered)
qed

lemma handle_command_chans:
  assumes "handle_command X S nm w cmd = Ret (nm', w')"
  shows "chans_step ch nm0 (channels w) (channels w')"
proof (cases cmd)
  case (GetClosestPeers x)
  with assms show ?thesis by (auto simp: drop_old_step split: prod.splits)
next
  case (GetHeaders x)
  with assms show ?thesis by (auto simp: drop_old_step split: prod.splits)
next
  case (StartListening addr tx)
  with assms show ?thesis
    by (auto simp: drop_old_step Let_def elim!: obind_RetE split: prod.splits sum.splits
        intro: answer_step)
next
  case (Dial p addr tx)
  with assms show ?thesis
    by (auto simp: drop_old_step Let_def elim!: obind_RetE intro: answer_step
        split: prod.splits sum.splits option.splits)
qed (use assms in \<open>auto simp: publish_and_answer_def Let_def elim!: obind_RetE
    intro: answer_step split: prod.splits sum.splits\<close>)

lemma handle_event_chans:
  assumes "handle_event X S nm w e = Ret (nm', w')"
  shows "chans_step (SwarmEvent s e) nm (channels w) (channels w')"
proof -
  show ?thesis
  proof (cases "\<exists>r. e = RequestResponse r")
    case True
    then obtain r where e: "e = RequestResponse r" by blast
    show ?thesis
    proof (cases r)
      case (RequestMessage x y)
      with assms e show ?thesis
        by (auto simp: oneshot_channel_def intro!: chans_step.opened split: if_splits)
    next
      case (ResponseMessage q hs)
      with assms e show ?thesis
        by (cases "pending_request_headers nm q")
          (auto simp: answer_to_Ret elim!: obind_RetE intro!: chans_step.answered)
    next
      case (OutboundFailureEvent q err)
      with assms e show ?thesis
        by (cases "pending_request_headers nm q") (auto elim!: obind_RetE intro: answer_step)
    qed (use assms e in auto)
  next
    case False
    with assms show ?thesis
      by (cases "(X, S, nm, w, e)" rule: handle_event.cases;
          cases "(nm, w, case e of Kad k \<Rightarrow> k | _ \<Rightarrow> KadOther)" rule: handle_kad_event.cases)
        (auto simp: answer_dial_def Let_def elim!: obind_RetE intro: answer_step
          split: option.splits if_splits)
  qed
qed

lemma network_step_chans:
  assumes "network_step X S ch nm w = Ret (nm', w')"
  shows "chans_step ch nm (channels w) (channels w')"
proof (cases ch)
  case (SwarmEvent s e)
  with assms handle_event_chans [of X S "nm\<lparr>nm_swarm := s\<rparr>" w e nm' w' s] show ?thesis
    by (auto simp: chans_step.simps)
next
  case NextCommand
  with assms show ?thesis
    using handle_command_chans [of X S nm _ _ nm' w' ch nm] by (cases "commands w") fastforce+
qed (use assms in \<open>auto split: if_splits poll.splits\<close>)

lemma chans_step_asked:
  assumes "chans_step ch nm cs cs'"
  shows "asked_log cs' = asked_log cs" and "length cs \<le> length cs'"
    and "c < length cs \<Longrightarrow> asked (cs' ! c) = asked (cs ! c)"
proof -
  have "asked_log cs' = asked_log cs \<and> length cs \<le> length cs' \<and>
      (\<forall>c < length cs. asked (cs' ! c) = asked (cs ! c))"
    using assms
  proof cases
    case (closed c)
    then show ?thesis
      using asked_log_update [of "(cs ! c)\<lparr>tx_alive := False\<rparr>" cs c]
      by (auto simp: drop_sender_def nth_list_update)
  next
    case (opened d)
    then show ?thesis by (auto simp: nth_append asked_log_def)
  next
    case (answered c v)
    then show ?thesis
      using asked_log_update [of "(cs ! c)\<lparr>sent := Some v, tx_alive := False\<rparr>" cs c]
      by (auto simp: oneshot_send_def nth_list_update split: if_splits)
  qed simp
  then show "asked_log cs' = asked_log cs" and "length cs \<le> length cs'"
    and "c < length cs \<Longrightarrow> asked (cs' ! c) = asked (cs ! c)" by blast+
qed

text \<open>The manager remembers which request a sender of headers belongs to.\<close>

definition request_link :: "chans \<Rightarrow> get_headers_request \<Rightarrow> bool" where
  "request_link cs r \<longleftrightarrow> ghr_sender r < length cs \<and>
     asked (cs ! ghr_sender r) = Some (ghr_request r)"

definition links_ok :: "'s network_manager \<Rightarrow> net_world \<Rightarrow> bool" where
  "links_ok nm w \<longleftrightarrow> (\<forall>r. GetHeaders r \<in> set (commands w) \<longrightarrow> request_link (channels w) r) \<and>
     (\<forall>q r. pending_request_headers nm q = Some r \<longrightarrow> request_link (channels w) r)"

lemma request_link_step: "chans_step ch nm cs cs' \<Longrightarrow> request_link cs r \<Longrightarrow> request_link cs' r"
  using chans_step_asked(2,3) by (fastforce simp: request_link_def)

lemma handle_command_pending:
  assumes "handle_command X S nm w cmd = Ret (nm', w')"
  shows "commands w' = commands w" and "pending_request_headers nm' q = Some r \<Longrightarrow>
    pending_request_headers nm q = Some r \<or> cmd = GetHeaders r"
  using assms
  by (cases cmd; auto simp: publish_and_answer_def Let_def drop_old_keeps answer_to_Ret
      elim!: obind_RetE split: prod.splits sum.splits option.splits if_splits)+

lemma handle_event_pending:
  assumes "handle_event X S nm w e = Ret (nm', w')"
  shows "commands w' = commands w" and "pending_request_headers nm' q = Some r \<Longrightarrow>
    pending_request_headers nm q = Some r"
proof -
  have "commands w' = commands w \<and> (pending_request_headers nm' q = Some r \<longrightarrow>
      pending_request_headers nm q = Some r)"
  proof (cases "\<exists>x. e = RequestResponse x")
    case True
    then obtain x where "e = RequestResponse x" by blast
    with assms show ?thesis
      by (cases x) (auto simp: answer_to_Ret oneshot_channel_def elim!: obind_RetE
          split: option.splits if_splits)
  next
    case False
    with assms show ?thesis
      by (cases "(X, S, nm, w, e)" rule: handle_event.cases;
          cases "(nm, w, case e of Kad k \<Rightarrow> k | _ \<Rightarrow> KadOther)" rule: handle_kad_event.cases;
          cases "(S, nm, case e of Mdns m \<Rightarrow> m | _ \<Rightarrow> Discovered [])"
            rule: handle_mdns_event.cases)
        (auto simp: answer_dial_def answer_to_Ret Let_def handle_gossipsub_message_def
          elim!: obind_RetE split: option.splits if_splits)
  qed
  then show "commands w' = commands w" "pending_request_headers nm' q = Some r \<Longrightarrow>
    pending_request_headers nm q = Some r" by blast+
qed

lemma network_step_pending:
  assumes "network_step X S ch nm w = Ret (nm', w')"
  shows "set (commands w') \<subseteq> set (commands w)"
    and "pending_request_headers nm' q = Some r \<Longrightarrow>
      pending_request_headers nm q = Some r \<or> GetHeaders r \<in> set (commands w)"
proof -
  have "set (commands w') \<subseteq> set (commands w) \<and> (pending_request_headers nm' q = Some r \<longrightarrow>
      pending_request_headers nm q = Some r \<or> GetHeaders r \<in> set (commands w))"
  proof (cases ch)
    case (SwarmEvent s e)
    with assms handle_event_pending [of X S "nm\<lparr>nm_swarm := s\<rparr>" w e nm' w'] show ?thesis by auto
  next
    case NextCommand
    with assms handle_command_pending [of X S nm] show ?thesis
      by (cases "commands w") fastforce+
  qed (use assms in \<open>auto simp: handle_response_block_headers_def
      split: if_splits poll.splits sum.splits\<close>)
  then show "set (commands w') \<subseteq> set (commands w)"
    "pending_request_headers nm' q = Some r \<Longrightarrow>
      pending_request_headers nm q = Some r \<or> GetHeaders r \<in> set (commands w)" by blast+
qed

lemma network_step_links:
  assumes "links_ok nm w" and step: "network_step X S ch nm w = Ret (nm', w')"
  shows "links_ok nm' w'"
proof -
  note link = request_link_step [OF network_step_chans [OF step]]
  show ?thesis
    using assms(1) network_step_pending [OF step] link unfolding links_ok_def by blast
qed

section \<open>The network manager answers as the synchroniser expects\<close>

text \<open>
  When the swarm delivers the peer's answer to the request it belongs to, a step of the
  manager is a step of the environment that a synchroniser runs in.
\<close>

lemma network_step_env:
  assumes links: "links_ok nm w" and step: "network_step X S ch nm w = Ret (nm', w')"
    and honest: "\<And>s q hs r. ch = SwarmEvent s (RequestResponse (ResponseMessage q hs)) \<Longrightarrow>
      pending_request_headers nm q = Some r \<Longrightarrow> hs = answer (ghr_request r)"
  shows "net_env answer w w'"
proof -
  note cs = network_step_chans [OF step]
  have "sent (channels w' ! c) = sent (channels w ! c) \<or>
      honest_reply answer (asked (channels w ! c)) (sent (channels w' ! c))"
    if c: "c < length (channels w)" for c
    using cs
  proof cases
    case (closed d)
    with c show ?thesis by (auto simp: drop_sender_def nth_list_update)
  next
    case (opened d)
    with c show ?thesis by (simp add: nth_append)
  next
    case (answered d v)
    show ?thesis
    proof (cases "c = d \<and> (\<exists>hs. v = HeadersReply (Inr hs))")
      case True
      then obtain hs where v: "v = HeadersReply (Inr hs)" and "c = d" by blast
      from answered(2) [OF v] obtain s q r where
        e: "ch = SwarmEvent s (RequestResponse (ResponseMessage q hs))"
        and r: "pending_request_headers nm q = Some r" and d: "d = ghr_sender r" by blast
      have "sent (channels w' ! c) = Some v"
        using oneshot_send_nth(2) [OF answered(1)] \<open>c = d\<close> by simp
      moreover have "asked (channels w ! c) = Some (ghr_request r)"
        using links r d \<open>c = d\<close> by (simp add: links_ok_def request_link_def)
      ultimately show ?thesis using honest [OF e r] v by (simp add: honest_reply_def)
    next
      case False
      with oneshot_send_nth(2,3) [OF answered(1)] show ?thesis
        by (cases "c = d") (auto simp: honest_reply_def)
    qed
  qed simp
  with chans_step_asked [OF cs] show ?thesis by (simp add: net_env_def)
qed

section \<open>Runs of the network task\<close>

text \<open>
  The network task interleaved with the tasks that use it: they call the provider, drop the
  futures they wait on, and the chain manager answers the requests of peers, on channels that
  the network manager does not owe an answer on.
\<close>

definition provider_call :: "net_world \<Rightarrow> net_world \<Rightarrow> bool" where
  "provider_call w w' \<longleftrightarrow> (\<exists>f. (\<exists>p r. np_get_headers w p r = (f, w')) \<or>
     np_get_closest_peers w = (f, w') \<or> (\<exists>p a. np_dial w p a = (f, w')) \<or>
     np_listen_addrs w = (f, w') \<or> (\<exists>a. np_start_listening w a = Ret (f, w')) \<or>
     (\<exists>h. np_broadcast_block_header w h = Ret (f, w')) \<or>
     (\<exists>txs. np_broadcast_transactions w txs = Ret (f, w')))"

inductive net_run ::
  "ext \<Rightarrow> 's swarm \<Rightarrow> 's \<Rightarrow> 's network_manager \<Rightarrow> net_world \<Rightarrow> bool"
  for X S s0 where
  start: "net_run X S s0 (network_manager_new s0)
    \<lparr>command_open = True, commands = [], channels = []\<rparr>"
| step: "net_run X S s0 nm w \<Longrightarrow> network_step X S ch nm w = Ret (nm', w') \<Longrightarrow>
    net_run X S s0 nm' w'"
| called: "net_run X S s0 nm w \<Longrightarrow> provider_call w w' \<Longrightarrow> net_run X S s0 nm w'"
| dropped: "net_run X S s0 nm w \<Longrightarrow> net_run X S s0 nm (np_drop w fs)"
| responded: "net_run X S s0 nm w \<Longrightarrow> (\<And>p. owned nm w p \<noteq> Some c) \<Longrightarrow>
    net_run X S s0 nm (net_respond c v w)"

text \<open>A call of the provider opens a channel, and its command, if it is sent, has the sender.\<close>

lemma provider_call_cases:
  assumes "provider_call w w'"
  obtains (sent) c cmd where "channels w' = channels w @ [c]" "commands w' = commands w @ [cmd]"
      "message_sender cmd = length (channels w)" "tx_alive c" "sent c = None"
      "\<And>r. cmd = GetHeaders r \<Longrightarrow> asked c = Some (ghr_request r)"
    | (failed) c where "channels w' = channels w @ [c]" "commands w' = commands w"
proof -
  from assms have "(\<exists>c cmd. channels w' = channels w @ [c] \<and> commands w' = commands w @ [cmd] \<and>
      message_sender cmd = length (channels w) \<and> tx_alive c \<and> sent c = None \<and>
      (\<forall>r. cmd = GetHeaders r \<longrightarrow> asked c = Some (ghr_request r))) \<or>
    (\<exists>c. channels w' = channels w @ [c] \<and> commands w' = commands w)"
    unfolding provider_call_def
    by (elim exE disjE)
      (auto simp: np_get_headers_def np_get_closest_peers_def np_dial_def np_listen_addrs_def
        np_start_listening_def np_broadcast_block_header_def np_broadcast_transactions_def
        oneshot_channel_def send_command_def drop_sender_def drop_receiver_def Let_def
        split: if_splits)
  then show ?thesis using sent failed by blast
qed

lemma request_link_append: "request_link cs r \<Longrightarrow> request_link (cs @ ds) r"
  by (auto simp: request_link_def nth_append)

lemma provider_call_ok:
  assumes ok: "senders_ok nm w" and links: "links_ok nm w" and call: "provider_call w w'"
  shows "senders_ok nm w' \<and> links_ok nm w'"
  using call
proof (cases rule: provider_call_cases)
  case (failed c)
  have "senders_ok nm w'"
  proof (rule senders_ok_same [OF ok])
    show "owned nm w' p = owned nm w p" for p by (rule owned_cong) (simp_all add: failed)
  qed (simp add: failed unanswered_append)
  moreover have "links_ok nm w'"
    using links by (simp add: links_ok_def failed request_link_append)
  ultimately show ?thesis by blast
next
  case (sent c cmd)
  have old: "owned nm w' p = owned nm w p" if "p \<noteq> InCommand (length (commands w))" for p
    using that by (cases p) (auto simp: sent nth_append)
  have new: "owned nm w' (InCommand (length (commands w))) = Some (length (channels w))"
    by (simp add: sent)
  have lt: "d < length (channels w)" if "owned nm w p = Some d" for p d
    using senders_okD(1) [OF ok that] by (simp add: unanswered_def)
  have "senders_ok nm w'"
    unfolding senders_ok_def
  proof (intro conjI allI impI)
    fix p d
    assume p: "owned nm w' p = Some d"
    show "unanswered (channels w') d"
    proof (cases "p = InCommand (length (commands w))")
      case True
      with p new have "d = length (channels w)" by simp
      then show ?thesis using sent(1,4,5) by (simp add: unanswered_def)
    next
      case False
      with p old senders_okD(1) [OF ok] show ?thesis by (simp add: sent unanswered_append)
    qed
    fix q
    assume q: "owned nm w' q = Some d"
    show "p = q"
    proof (cases "p = InCommand (length (commands w)) \<longleftrightarrow> q = InCommand (length (commands w))")
      case True
      with p q old senders_okD(2) [OF ok] show ?thesis by metis
    next
      case False
      with p q old new lt show ?thesis by fastforce
    qed
  qed
  moreover have "links_ok nm w'"
    using links sent by (auto simp: links_ok_def request_link_append) (simp add: request_link_def)
  ultimately show ?thesis by blast
qed

lemma np_drop_chans:
  "length (channels (np_drop w fs)) = length (channels w)"
  "asked (channels (np_drop w fs) ! c) = asked (channels w ! c)"
  "sent (channels (np_drop w fs) ! c) = sent (channels w ! c)"
  "tx_alive (channels (np_drop w fs) ! c) = tx_alive (channels w ! c)"
proof -
  have "length (fold (\<lambda>f cs. case fut_channel f of None \<Rightarrow> cs | Some c \<Rightarrow> drop_receiver c cs) fs cs) =
      length cs \<and>
    (let d = fold (\<lambda>f cs. case fut_channel f of None \<Rightarrow> cs | Some c \<Rightarrow> drop_receiver c cs) fs cs ! c
     in asked d = asked (cs ! c) \<and> sent d = sent (cs ! c) \<and> tx_alive d = tx_alive (cs ! c))" for cs
    by (induction fs arbitrary: cs)
      (auto simp: drop_receiver_def nth_list_update Let_def split: option.splits)
  then show "length (channels (np_drop w fs)) = length (channels w)"
    "asked (channels (np_drop w fs) ! c) = asked (channels w ! c)"
    "sent (channels (np_drop w fs) ! c) = sent (channels w ! c)"
    "tx_alive (channels (np_drop w fs) ! c) = tx_alive (channels w ! c)"
    by (simp_all add: np_drop_def Let_def)
qed

lemma net_run_ok: "net_run X S s0 nm w \<Longrightarrow> senders_ok nm w \<and> links_ok nm w"
proof (induction rule: net_run.induct)
  case start
  have "owned (network_manager_new s0) \<lparr>command_open = True, commands = [], channels = []\<rparr> p = None"
    for p
    by (cases p) (simp_all add: network_manager_new_def)
  then show ?case by (simp add: senders_ok_def links_ok_def network_manager_new_def)
next
  case (step nm w ch nm' w')
  then show ?case using network_step_senders network_step_links by blast
next
  case (called nm w w')
  then show ?case using provider_call_ok by blast
next
  case (dropped nm w fs)
  have "owned nm (np_drop w fs) p = owned nm w p" for p
    by (rule owned_cong) (simp_all add: np_drop_def)
  with dropped.IH show ?case
    by (auto simp: links_ok_def request_link_def unanswered_def np_drop_chans
        intro!: senders_ok_same [of nm w]) (simp_all add: np_drop_def)
next
  case (responded nm w c v)
  have same: "owned nm (net_respond c v w) p = owned nm w p" for p
    by (rule owned_cong) (auto simp: net_respond_def split: sum.splits)
  have "senders_ok nm (net_respond c v w)"
    unfolding senders_ok_def same
  proof (intro conjI allI impI)
    fix p d
    assume p: "owned nm w p = Some d"
    then have "d \<noteq> c" "unanswered (channels w) d"
      using responded.hyps(2) [of p] senders_okD(1) responded.IH by auto
    then show "unanswered (channels (net_respond c v w)) d"
      using unanswered_send [of c "BlockHeadersReply v" "channels w" _ d]
      by (auto simp: net_respond_def split: sum.splits)
  qed (use responded.IH senders_okD(2) in blast)
  moreover have "links_ok nm (net_respond c v w)"
  proof -
    have "chans_step Tick nm (channels w) (channels (net_respond c v w))"
      by (auto simp: net_respond_def intro: chans_step.answered split: sum.splits)
    moreover have "commands (net_respond c v w) = commands w"
      by (auto simp: net_respond_def split: sum.splits)
    ultimately show ?thesis
      using responded.IH request_link_step unfolding links_ok_def by metis
  qed
  ultimately show ?case by blast
qed

end
