(* ===== verification/Behaviour.thy ===== *)
theory Behaviour
  imports Network
begin

text \<open>
  \<open>AppBehaviour::new\<close> (\<^verbatim>\<open>src/src/net/network.rs\<close>): how a node configures libp2p. The
  constructors of libp2p that are called are the record \<open>libp2p\<close>. Of the configuration the
  rest of the crate relies on the identifiers of gossip messages: they are computed from the
  contents alone, so that the same header or batch has one identifier whoever publishes it.
\<close>

section \<open>Configuration\<close>

datatype validation_mode = Strict | Permissive | Anonymous | NoValidation

datatype protocol_support = Inbound | Outbound | Full

datatype kad_mode = ClientMode | ServerMode

record gossipsub_config =
  message_id_fn :: "bytes \<Rightarrow> string"
  gossip_validation :: validation_mode
  heartbeat_seconds :: nat

record ('m, 'g, 'd) app_behaviour =
  ab_request_response :: "(string \<times> protocol_support) list"
  ab_mdns :: "'m option"
  ab_gossipsub :: 'g
  ab_kad :: 'd

text \<open>
  The constructors of libp2p, and the hash of the standard library's \<open>DefaultHasher\<close>, whose
  algorithm is not specified.
\<close>

record ('k, 'm, 'g, 'd) libp2p =
  lp_peer_id :: "'k \<Rightarrow> peer_id"
  lp_mdns :: "peer_id \<Rightarrow> string + 'm"
  lp_config :: "gossipsub_config \<Rightarrow> string + gossipsub_config"
  lp_gossipsub :: "'k \<Rightarrow> gossipsub_config \<Rightarrow> string + 'g"
  lp_kad :: "peer_id \<Rightarrow> 'd"
  lp_set_mode :: "kad_mode \<Rightarrow> 'd \<Rightarrow> 'd"
  lp_hash :: "bytes \<Rightarrow> u64"

definition message_id :: "(bytes \<Rightarrow> u64) \<Rightarrow> bytes \<Rightarrow> string" where
  "message_id H dat = decimal (unat (H dat))"

definition app_behaviour_new ::
  "('k, 'm, 'g, 'd) libp2p \<Rightarrow> 'k \<Rightarrow> bool \<Rightarrow> ('m, 'g, 'd) app_behaviour outcome" where
  "app_behaviour_new L k enable_mdns =
     (let peer = lp_peer_id L k in
      obind (if enable_mdns then obind (unwrap (lp_mdns L peer)) (\<lambda>m. Ret (Some m)) else Ret None)
        (\<lambda>mdns.
      obind (unwrap (lp_config L \<lparr>message_id_fn = message_id (lp_hash L),
        gossip_validation = Strict, heartbeat_seconds = 10\<rparr>)) (\<lambda>config.
      let kad = lp_set_mode L ServerMode (lp_kad L peer) in
      obind (unwrap (lp_gossipsub L k config)) (\<lambda>gossipsub.
      Ret \<lparr>ab_request_response = [(''/chain'', Full)], ab_mdns = mdns,
           ab_gossipsub = gossipsub, ab_kad = kad\<rparr>))))"

section \<open>Message identifiers\<close>

lemma decimal_nonempty [simp]: "decimal n \<noteq> []"
  by (subst decimal.simps) simp

lemma decimal_inject: "decimal m = decimal n \<Longrightarrow> m = n"
proof (induction m arbitrary: n rule: decimal.induct)
  case (1 m)
  have digit: "a = b" if "(char_of (48 + a) :: char) = char_of (48 + b)" "a < 10" "b < 10" for a b :: nat
    using arg_cong [where f = "of_char :: char \<Rightarrow> nat", OF that(1)] that(2,3) by simp
  show ?case
  proof (cases "m < 10")
    case True
    have "n < 10"
    proof (rule ccontr)
      assume "\<not> n < 10"
      then have "decimal n = decimal (n div 10) @ [char_of (48 + n mod 10)]"
        by (subst decimal.simps) simp
      with "1.prems" True show False
        using decimal_nonempty [of "n div 10"] by (simp add: decimal.simps [of m])
    qed
    with True "1.prems" digit [of m n] show ?thesis by (simp add: decimal.simps)
  next
    case False
    have n: "\<not> n < 10"
      using "1.prems" False by (auto simp: decimal.simps [of m] decimal.simps [of n])
    with False "1.prems" have "decimal (m div 10) = decimal (n div 10)"
      and d: "(char_of (48 + m mod 10) :: char) = char_of (48 + n mod 10)"
      by (simp_all add: decimal.simps [of m] decimal.simps [of n])
    with "1.IH" [OF False] have "m div 10 = n div 10" by blast
    moreover have "m mod 10 = n mod 10" by (rule digit [OF d]) simp_all
    ultimately show ?thesis by (metis div_mult_mod_eq)
  qed
qed

text \<open>Two messages have the same identifier exactly when their contents have the same hash.\<close>

lemma message_id_eq_iff: "message_id H a = message_id H b \<longleftrightarrow> H a = H b"
  using decimal_inject [of "unat (H a)" "unat (H b)"] by (auto simp: message_id_def dest: word_unat_eq_iff [THEN iffD2])

end
