(* ===== verification/Rpc.thy ===== *)
theory Rpc
  imports Chain_Db
begin

text \<open>
  The JSON-RPC server (\<^verbatim>\<open>src/src/rpc.rs\<close>): the builder, the three methods, and the
  hexadecimal numbers of its messages. A string is the sequence of its UTF-8 bytes. What
  jsonrpsee does, parsing the parameters and binding the socket, is passed as an argument;
  the HTTP layers (logging, authorization, timeout) around the methods are not modelled.
\<close>

section \<open>Numbers in hexadecimal\<close>

text \<open>\<open>char::to_digit(16)\<close> and the digits of \<open>{:x}\<close>.\<close>

definition hex_value :: "char \<Rightarrow> nat option" where
  "hex_value c = (let n = of_char c :: nat in
     if 48 \<le> n \<and> n \<le> 57 then Some (n - 48)
     else if 97 \<le> n \<and> n \<le> 102 then Some (n - 87)
     else if 65 \<le> n \<and> n \<le> 70 then Some (n - 55) else None)"

definition hex_char :: "nat \<Rightarrow> char" where
  "hex_char d = char_of (if d < 10 then 48 + d else 87 + d)"

fun lower_hex :: "nat \<Rightarrow> string" where
  "lower_hex n = (if n < 16 then [hex_char n] else lower_hex (n div 16) @ [hex_char (n mod 16)])"

declare lower_hex.simps [simp del]

definition format_0x :: "u64 \<Rightarrow> string" where
  "format_0x n = ''0x'' @ lower_hex (unat n)"

datatype int_error = EmptyInt | InvalidDigit | PosOverflow

text \<open>\<open>u64::from_str_radix\<close> with radix 16, which accepts a leading plus sign.\<close>

fun radix_loop :: "nat \<Rightarrow> string \<Rightarrow> int_error + nat" where
  "radix_loop acc [] = Inr acc"
| "radix_loop acc (c # cs) =
     (case hex_value c of
        None \<Rightarrow> Inl InvalidDigit
      | Some d \<Rightarrow> if 2 ^ 64 \<le> acc * 16 then Inl PosOverflow
          else if 2 ^ 64 \<le> acc * 16 + d then Inl PosOverflow
          else radix_loop (acc * 16 + d) cs)"

definition from_str_radix16 :: "string \<Rightarrow> int_error + u64" where
  "from_str_radix16 s =
     (if s = [] then Inl EmptyInt
      else if s = ''+'' \<or> s = ''-'' then Inl InvalidDigit
      else map_sum id of_nat (radix_loop 0 (if hd s = CHR ''+'' then tl s else s)))"

text \<open>Slicing a string from a byte, which must be at the start of a character.\<close>

definition char_boundary :: "string \<Rightarrow> nat \<Rightarrow> bool" where
  "char_boundary s i \<longleftrightarrow> i = 0 \<or> i = length s \<or>
     (i < length s \<and> \<not> (128 \<le> (of_char (s ! i) :: nat) \<and> (of_char (s ! i) :: nat) < 192))"

definition str_from :: "string \<Rightarrow> nat \<Rightarrow> string outcome" where
  "str_from s i = (if char_boundary s i then Ret (drop i s)
     else Panic ''byte index is out of bounds or not a char boundary'')"

section \<open>Building and starting the server\<close>

type_synonym socket_addr = string

record 'b rpc_server_builder =
  sb_addr :: socket_addr
  sb_chain :: "'b option"

record 'b rpc_server =
  rs_addr :: socket_addr
  rs_chain :: 'b

definition rpc_builder_default :: "'b rpc_server_builder" where
  "rpc_builder_default = \<lparr>sb_addr = ''127.0.0.1:8545'', sb_chain = None\<rparr>"

definition with_addr :: "'b rpc_server_builder \<Rightarrow> socket_addr \<Rightarrow> 'b rpc_server_builder" where
  "with_addr b addr = b\<lparr>sb_addr := addr\<rparr>"

definition with_chain :: "'b rpc_server_builder \<Rightarrow> 'b \<Rightarrow> 'b rpc_server_builder" where
  "with_chain b chain = b\<lparr>sb_chain := Some chain\<rparr>"

definition rpc_build :: "'b rpc_server_builder \<Rightarrow> 'b rpc_server outcome" where
  "rpc_build b =
     obind (expect_some ''Chain implement BlockTree is required.'' (sb_chain b)) (\<lambda>chain.
     Ret \<lparr>rs_addr = sb_addr b, rs_chain = chain\<rparr>)"

section \<open>The methods\<close>

record rpc_error =
  rpc_code :: int
  rpc_message :: string

definition INVALID_PARAMS_CODE :: int where
  "INVALID_PARAMS_CODE = -32602"

definition INTERNAL_ERROR_CODE :: int where
  "INTERNAL_ERROR_CODE = -32603"

definition block_json :: "header \<Rightarrow> json" where
  "block_json h = JObject
     [(''block_hash'', JString (hash h)), (''block_number'', JString (format_0x (number h))),
      (''state_root'', JString (state_root h)), (''parent_root'', JString (parent_hash h)),
      (''transactions'', JArray [])]"

text \<open>\<open>one\<close> is the parser of a single parameter.\<close>

definition eth_getBlockByNumber ::
  "('p \<Rightarrow> rpc_error + string) \<Rightarrow> 'b block_tree \<Rightarrow> 'b \<Rightarrow> 'p \<Rightarrow> (rpc_error + json) outcome" where
  "eth_getBlockByNumber one B chain params =
     (case one params of
        Inl e \<Rightarrow> Ret (Inl e)
      | Inr block_number \<Rightarrow>
          obind (str_from block_number 2) (\<lambda>digits.
          case from_str_radix16 digits of
            Inl _ \<Rightarrow> Ret (Inl \<lparr>rpc_code = INVALID_PARAMS_CODE,
              rpc_message = ''Number should be in hex string format''\<rparr>)
          | Inr n \<Rightarrow>
              obind (bt_get_header_by_block_number B chain n) (\<lambda>r. case r of
                Inr h \<Rightarrow> Ret (Inr (block_json h))
              | Inl _ \<Rightarrow> Ret (Inl \<lparr>rpc_code = INTERNAL_ERROR_CODE,
                  rpc_message = ''Block not found at '' @ block_number\<rparr>))))"

definition eth_getBlockByHash ::
  "('p \<Rightarrow> rpc_error + string) \<Rightarrow> 'b block_tree \<Rightarrow> 'b \<Rightarrow> 'p \<Rightarrow> (rpc_error + json) outcome" where
  "eth_getBlockByHash one B chain params =
     (case one params of
        Inl e \<Rightarrow> Ret (Inl e)
      | Inr k \<Rightarrow>
          obind (bt_get_header_by_hash B chain k) (\<lambda>r. case r of
            Inr h \<Rightarrow> Ret (Inr (block_json h))
          | Inl _ \<Rightarrow> Ret (Inl \<lparr>rpc_code = INTERNAL_ERROR_CODE,
              rpc_message = ''Block not found with hash: '' @ k\<rparr>)))"

text \<open>The texts of the errors.\<close>

fun error_display :: "error \<Rightarrow> string" where
  "error_display Invalid = ''Invalid header''"
| "error_display BlockHeaderNotFound = ''Block header not found in database''"
| "error_display (DatabaseError e) = ''Database error: '' @ e"

definition eth_getBalance ::
  "('p \<Rightarrow> rpc_error + string) \<Rightarrow> u64 \<Rightarrow> 'p \<Rightarrow> (rpc_error + json) outcome" where
  "eth_getBalance one random params =
     (case one params of
        Inl e \<Rightarrow> Ret (Inl e)
      | Inr address \<Rightarrow>
          (case get_balance random address of
             Inl e \<Rightarrow> Ret (Inl \<lparr>rpc_code = INTERNAL_ERROR_CODE,
               rpc_message = ''Internal error: '' @ error_display e\<rparr>)
           | Inr balance \<Rightarrow> Ret (Inr (JString (format_0x balance)))))"

text \<open>
  The methods that \<open>start_server\<close> registers, by name, and what it does with the address: it
  binds a free port of the loopback device and stores what it got. \<open>bind\<close> is the attempt
  to listen on an address, with the address that was bound as its result.
\<close>

definition rpc_module ::
  "('p \<Rightarrow> rpc_error + string) \<Rightarrow> 'b block_tree \<Rightarrow> 'b \<Rightarrow> u64 \<Rightarrow>
     (string \<times> ('p \<Rightarrow> (rpc_error + json) outcome)) list" where
  "rpc_module one B chain random =
     [(''eth_getBlockByNumber'', eth_getBlockByNumber one B chain),
      (''eth_getBlockByHash'', eth_getBlockByHash one B chain),
      (''eth_getBalance'', eth_getBalance one random)]"

definition start_server ::
  "(string \<Rightarrow> string + socket_addr) \<Rightarrow> 'b rpc_server \<Rightarrow> 'b rpc_server outcome" where
  "start_server bind server =
     obind (expect ''called `Result::unwrap()` on an `Err` value'' (bind ''127.0.0.1:0'')) (\<lambda>addr.
     Ret (server\<lparr>rs_addr := addr\<rparr>))"

section \<open>Reading what was written\<close>

lemma hex_value_char [simp]: "d < 16 \<Longrightarrow> hex_value (hex_char d) = Some d"
  by (simp add: hex_value_def hex_char_def Let_def)

lemma hex_value_lt: "hex_value c = Some d \<Longrightarrow> d < 16"
  by (auto simp: hex_value_def Let_def split: if_splits)

lemma hex_char_digit: "d < 16 \<Longrightarrow> hex_char d \<noteq> CHR ''+'' \<and> hex_char d \<noteq> CHR ''-''"
  using hex_value_char [of d] by (auto simp: hex_value_def)

lemma radix_loop_append:
  "radix_loop acc (xs @ ys) = sbind (radix_loop acc xs) (\<lambda>a. radix_loop a ys)"
  by (induction xs arbitrary: acc) (auto split: option.splits)

lemma radix_lower_hex: "n < 2 ^ 64 \<Longrightarrow> radix_loop 0 (lower_hex n) = Inr n"
proof (induction n rule: lower_hex.induct)
  case (1 n)
  show ?case
  proof (cases "n < 16")
    case True
    then show ?thesis by (simp add: lower_hex.simps)
  next
    case False
    have "radix_loop 0 (lower_hex (n div 16)) = Inr (n div 16)"
      using 1 False by simp
    moreover have "n div 16 * 16 + n mod 16 = n" by simp
    moreover have "n div 16 * 16 < 2 ^ 64" using "1.prems" by linarith
    ultimately show ?thesis
      using False "1.prems" by (subst lower_hex.simps) (simp add: radix_loop_append)
  qed
qed

lemma lower_hex_first: "lower_hex n \<noteq> [] \<and> (\<exists>d < 16. hd (lower_hex n) = hex_char d)"
proof (induction n rule: lower_hex.induct)
  case (1 n)
  then show ?case by (subst (1 2) lower_hex.simps) auto
qed

lemma from_lower_hex: "from_str_radix16 (lower_hex (unat n)) = Inr n"
proof -
  have "unat n < 2 ^ 64" using unsigned_less [of n] by simp
  note r = radix_lower_hex [OF this]
  obtain d where d: "d < 16" "hd (lower_hex (unat n)) = hex_char d" "lower_hex (unat n) \<noteq> []"
    using lower_hex_first by blast
  with hex_char_digit [OF d(1)] r show ?thesis
    by (auto simp: from_str_radix16_def)
qed

lemma str_from_0x: "str_from (format_0x n) 2 = Ret (lower_hex (unat n))"
proof -
  obtain d cs where l: "lower_hex (unat n) = hex_char d # cs" and d: "d < 16"
    using lower_hex_first [of "unat n"] by (metis list.collapse)
  have "\<not> (128 \<le> (of_char (hex_char d) :: nat))" using d by (simp add: hex_char_def)
  then show ?thesis by (simp add: str_from_def char_boundary_def format_0x_def l)
qed

end
