(* ===== verification/Client.thy ===== *)
theory Client
  imports Miner Behaviour Rpc Net_Properties
begin

text \<open>
  The assembly of a node (\<^verbatim>\<open>src/src/client.rs\<close> and \<^verbatim>\<open>src/src/main.rs\<close>): the options of
  the command line, the client builder, how \<open>start_network\<close> wires the tasks together, the
  start-up that listens and dials, and the node as a whole, whose tasks take turns on the
  shared database, the shared command queue and the event channel. Creating the swarm and the
  key pair is libp2p's and is passed as arguments.
\<close>

section \<open>The builder\<close>

record 'k client_builder =
  db_path :: string
  auto_mine_interval :: "u64 option"
  keypair :: 'k
  listening_addrs :: "multiaddr list"
  enabled_mdns :: bool

text \<open>The default generates a key pair, the argument.\<close>

definition client_default :: "'k \<Rightarrow> 'k client_builder" where
  "client_default generated = \<lparr>db_path = ''./db'', auto_mine_interval = None,
     keypair = generated, listening_addrs = [], enabled_mdns = False\<rparr>"

definition with_db_path :: "'k client_builder \<Rightarrow> string \<Rightarrow> 'k client_builder" where
  "with_db_path cb path = cb\<lparr>db_path := path\<rparr>"

definition with_auto_mine_interval :: "'k client_builder \<Rightarrow> u64 option \<Rightarrow> 'k client_builder" where
  "with_auto_mine_interval cb itv = cb\<lparr>auto_mine_interval := itv\<rparr>"

definition with_listening_addrs :: "'k client_builder \<Rightarrow> multiaddr list \<Rightarrow> 'k client_builder" where
  "with_listening_addrs cb addrs = cb\<lparr>listening_addrs := addrs\<rparr>"

definition with_keypair :: "'k client_builder \<Rightarrow> 'k \<Rightarrow> 'k client_builder" where
  "with_keypair cb k = cb\<lparr>keypair := k\<rparr>"

definition with_mdns :: "'k client_builder \<Rightarrow> bool \<Rightarrow> 'k client_builder" where
  "with_mdns cb enabled = cb\<lparr>enabled_mdns := enabled\<rparr>"

section \<open>Wiring a node\<close>

text \<open>
  The parts of a running node. The database and the command queue with the channels are shared:
  the copies in the records of the chain manager and of the miner are handles to \<open>no_db\<close>.
\<close>

record ('db, 's, 'i) node =
  no_db :: 'db
  no_miner :: "('db, 'i, net_fut) miner option"
  no_network :: "'s network_manager"
  no_manager :: "('db, net_fut) chain_net"
  no_world :: net_world

text \<open>The steps of libp2p's \<open>SwarmBuilder\<close> and the subscription to a topic.\<close>

record ('k, 'm, 'g, 'd, 's) swarm_maker =
  sm_libp2p :: "('k, 'm, 'g, 'd) libp2p"
  sm_tcp :: "'k \<Rightarrow> string + unit"
  sm_build :: "'k \<Rightarrow> ('m, 'g, 'd) app_behaviour \<Rightarrow> 's"
  sm_subscribe :: "'s \<Rightarrow> topic \<Rightarrow> (string + bool) \<times> 's"

definition start_network ::
  "ext \<Rightarrow> ('db, 'txn) redb \<Rightarrow> 'i timer \<Rightarrow> ('k, 'm, 'g, 'd, 's) swarm_maker \<Rightarrow> 'k client_builder \<Rightarrow>
     ('db, 's, 'i) node outcome" where
  "start_network X R I K cb =
     obind (unwrap (sm_tcp K (keypair cb))) (\<lambda>_.
     obind (app_behaviour_new (sm_libp2p K) (keypair cb) (enabled_mdns cb)) (\<lambda>behaviour.
     let s0 = sm_build K (keypair cb) behaviour in
     let (r1, s1) = sm_subscribe K s0 BLOCK_HEADER in
     obind (unwrap r1) (\<lambda>_.
     let (r2, s2) = sm_subscribe K s1 TRANSACTIONS in
     obind (unwrap r2) (\<lambda>_.
     obind (chain_new X R I (db_path cb) (auto_mine_interval cb)) (\<lambda>(blockchain, miner).
     Ret \<lparr>no_db = blockchain, no_miner = miner, no_network = network_manager_new s2,
          no_manager = chain_net_new blockchain pool_new,
          no_world = \<lparr>command_open = True, commands = [], channels = []\<rparr>\<rparr>)))))"

section \<open>Start-up\<close>

text \<open>
  \<open>execute_with_seed_nodes\<close>: listen, dial the seed nodes one after the other, and build the
  RPC server. \<open>await\<close> waits for a future of the provider while the other tasks run, and
  \<open>last_p2p\<close> is the peer in the last component of an address.
\<close>

fun listen_all ::
  "(net_world \<Rightarrow> net_fut \<Rightarrow> (unit request_response \<times> net_world) outcome) \<Rightarrow> multiaddr list \<Rightarrow>
     net_world \<Rightarrow> net_world outcome" where
  "listen_all await [] w = Ret w"
| "listen_all await (addr # addrs) w =
     obind (np_start_listening w addr) (\<lambda>(f, w).
     obind (await w f) (\<lambda>(r, w).
     obind (expect ''Listening not to fail.'' r) (\<lambda>_.
     listen_all await addrs w)))"

fun dial_all ::
  "(multiaddr \<Rightarrow> peer_id option) \<Rightarrow>
   (net_world \<Rightarrow> net_fut \<Rightarrow> (unit request_response \<times> net_world) outcome) \<Rightarrow> multiaddr list \<Rightarrow>
     net_world \<Rightarrow> net_world outcome" where
  "dial_all last_p2p await [] w = Ret w"
| "dial_all last_p2p await (addr # addrs) w =
     obind (expect_some ''peer id should exist'' (last_p2p addr)) (\<lambda>p.
     let (f, w) = np_dial w p addr in
     obind (await w f) (\<lambda>(r, w).
     obind (expect ''dial peer'' r) (\<lambda>_.
     dial_all last_p2p await addrs w)))"

definition execute_with_seed_nodes ::
  "ext \<Rightarrow> ('db, 'txn) redb \<Rightarrow> 'i timer \<Rightarrow> ('k, 'm, 'g, 'd, 's) swarm_maker \<Rightarrow>
   (multiaddr \<Rightarrow> peer_id option) \<Rightarrow>
   (net_world \<Rightarrow> net_fut \<Rightarrow> (unit request_response \<times> net_world) outcome) \<Rightarrow>
   'k client_builder \<Rightarrow> multiaddr list \<Rightarrow> (('db, 's, 'i) node \<times> 'db rpc_server) outcome" where
  "execute_with_seed_nodes X R I K last_p2p await cb seed_nodes =
     obind (start_network X R I K cb) (\<lambda>n.
     obind (listen_all await
       (if listening_addrs cb = [] then [''/ip4/0.0.0.0/tcp/0''] else listening_addrs cb)
       (no_world n)) (\<lambda>w.
     obind (dial_all last_p2p await seed_nodes w) (\<lambda>w.
     obind (rpc_build (with_chain rpc_builder_default (no_db n))) (\<lambda>server.
     Ret (n\<lparr>no_world := w\<rparr>, server)))))"

section \<open>The command line\<close>

record options =
  opt_peers :: "multiaddr list"
  opt_db_path :: "string option"
  opt_auto_mine_interval :: "u64 option"
  opt_seed :: "8 word option"

definition main_db_path :: "options \<Rightarrow> string" where
  "main_db_path opts =
     (case opt_seed opts of
        Some seed \<Rightarrow> (case opt_db_path opts of
            Some path \<Rightarrow> path | None \<Rightarrow> ''./db-'' @ decimal (unat seed) @ ''.redb'')
      | None \<Rightarrow> (case opt_db_path opts of Some path \<Rightarrow> path | None \<Rightarrow> ''./db.redb''))"

text \<open>The key pair: from 32 bytes, the seed and zeros, or generated.\<close>

definition main_keypair :: "(8 word list \<Rightarrow> string + 'k) \<Rightarrow> 'k \<Rightarrow> options \<Rightarrow> 'k outcome" where
  "main_keypair from_bytes generated opts =
     (case opt_seed opts of
        Some seed \<Rightarrow> unwrap (from_bytes ((replicate 32 0)[0 := seed]))
      | None \<Rightarrow> Ret generated)"

definition main_client ::
  "(8 word list \<Rightarrow> string + 'k) \<Rightarrow> 'k \<Rightarrow> 'k \<Rightarrow> options \<Rightarrow> 'k client_builder outcome" where
  "main_client from_bytes generated default_key opts =
     (let path = main_db_path opts in
      obind (main_keypair from_bytes generated opts) (\<lambda>k.
      Ret (with_auto_mine_interval (with_keypair (with_db_path (client_default default_key) path) k)
        (opt_auto_mine_interval opts))))"

end
