(* ===== verification/Network_Properties.thy ===== *)
theory Network_Properties
  imports Network Net_Properties
begin

text \<open>
  Properties of the network task: it owes every request one answer, answers the request a
  response belongs to, implements the environment the synchroniser was verified in, and
  crashes on the input that its \<open>expect\<close> calls do not expect.
\<close>

section \<open>Example data\<close>

text \<open>
  A swarm that does nothing: it gives every request the next identifier, and publishing and
  dialling succeed. The codec of the transactions writes each with a mark before it.
\<close>

definition put_tx :: "transaction \<Rightarrow> bytes" where
  "put_tx tx = put_string (tx_hash tx) @ put_string (tx_from tx) @ put_string (tx_to tx) @
     put_u64 (tx_value tx) @ put_u64 (tx_nonce tx)"

definition take_tx :: "bytes \<Rightarrow> (transaction \<times> bytes) option" where
  "take_tx bs =
     (case take_string bs of None \<Rightarrow> None | Some (h, bs) \<Rightarrow>
      case take_string bs of None \<Rightarrow> None | Some (f, bs) \<Rightarrow>
      case take_string bs of None \<Rightarrow> None | Some (t, bs) \<Rightarrow>
      case take_u64 bs of None \<Rightarrow> None | Some (v, bs) \<Rightarrow>
      case take_u64 bs of None \<Rightarrow> None | Some (n, bs) \<Rightarrow>
      Some (\<lparr>tx_hash = h, tx_from = f, tx_to = t, tx_value = v, tx_nonce = n\<rparr>, bs))"

lemma take_put_tx [simp]: "take_tx (put_tx tx @ bs) = Some (tx, bs)"
  by (simp add: take_tx_def put_tx_def)

fun put_txs :: "transaction list \<Rightarrow> bytes" where
  "put_txs [] = []"
| "put_txs (tx # txs) = CHR 0x01 # put_tx tx @ put_txs txs"

fun take_txs :: "nat \<Rightarrow> bytes \<Rightarrow> string + transaction list" where
  "take_txs n [] = Inr []"
| "take_txs 0 (m # bs) = Inl ''too many''"
| "take_txs (Suc n) (m # bs) =
     (case take_tx bs of None \<Rightarrow> Inl ''transaction''
      | Some (tx, bs') \<Rightarrow> sbind (take_txs n bs') (\<lambda>txs. Inr (tx # txs)))"

lemma length_put_txs: "length txs \<le> length (put_txs txs)"
  by (induction txs) auto

lemma take_put_txs: "length txs \<le> n \<Longrightarrow> take_txs n (put_txs txs) = Inr txs"
proof (induction txs arbitrary: n)
  case (Cons tx txs)
  then obtain k where "n = Suc k" by (cases n) auto
  with Cons show ?case by simp
qed simp

definition demo_swarm :: "nat swarm" where
  "demo_swarm = \<lparr>sw_listen_on = (\<lambda>s a. (Inr s, Suc s)), sw_listeners = (\<lambda>s. []),
     sw_external_addresses = (\<lambda>s. []), sw_with_p2p = (\<lambda>a p. a @ p),
     sw_dial = (\<lambda>s a. (Inr (), s)), sw_local_peer_id = (\<lambda>s. ''me''),
     sw_publish = (\<lambda>s t b. (Inr (), s)), sw_add_explicit_peer = (\<lambda>s p. s),
     sw_remove_explicit_peer = (\<lambda>s p. s), sw_add_address = (\<lambda>s p a. s),
     sw_remove_address = (\<lambda>s p a. s), sw_get_closest_peers = (\<lambda>s p. (s, Suc s)),
     sw_bootstrap = (\<lambda>s. s), sw_send_request = (\<lambda>s p r. (s, Suc s)),
     sw_send_response = (\<lambda>s c hs. s), sw_txs_encode = put_txs,
     sw_txs_decode = (\<lambda>bs. take_txs (length bs) bs)\<rparr>"

text \<open>A run in which headers were asked for and the command was taken.\<close>

definition asked_req :: headers_request where
  "asked_req = \<lparr>limit = 1, start_block = 1\<rparr>"

definition asked_world :: "network_provider_message list \<Rightarrow> net_world" where
  "asked_world cmds = \<lparr>command_open = True, commands = cmds, channels =
     [\<lparr>sent = None, tx_alive = True, rx_alive = True, asked = Some asked_req\<rparr>]\<rparr>"

definition asked_entry :: get_headers_request where
  "asked_entry = \<lparr>ghr_peer = ''peer'', ghr_request = asked_req, ghr_sender = 0\<rparr>"

definition asked_manager :: "nat network_manager" where
  "asked_manager = (network_manager_new 0)\<lparr>nm_swarm := 1,
     pending_request_headers := [0 \<mapsto> asked_entry]\<rparr>"

lemma asked_run: "net_run X demo_swarm 0 asked_manager (asked_world [])"
proof (rule net_run.step [OF net_run.called [OF net_run.start]])
  show "provider_call \<lparr>command_open = True, commands = [], channels = []\<rparr>
      (asked_world [GetHeaders asked_entry])"
    unfolding provider_call_def
    by (rule exI [of _ "HeadersFut 0 asked_req"], rule disjI1, rule exI [of _ "''peer''"],
        rule exI [of _ asked_req])
      (simp add: np_get_headers_def oneshot_channel_def send_command_def asked_world_def
        asked_entry_def)
  show "network_step X demo_swarm NextCommand (network_manager_new 0)
      (asked_world [GetHeaders asked_entry]) = Ret (asked_manager, asked_world [])"
    by (simp add: asked_world_def asked_manager_def demo_swarm_def network_manager_new_def
        asked_entry_def drop_old_def)
qed

lemma asked_pending: "pending_request_headers asked_manager 0 = Some asked_entry"
  by (simp add: asked_manager_def)

lemma pending_sender_bound:
  assumes "net_run X S s0 nm w" and "pending_request_headers nm q = Some r"
  shows "ghr_sender r < length (channels w)"
  using net_run_ok [OF assms(1)] assms(2) unfolding links_ok_def request_link_def by blast

lemma np_drop_dead:
  assumes "fut_channel f = Some c" and "f \<in> set fs" and "c < length (channels w)"
  shows "\<not> rx_alive (channels (np_drop w fs) ! c)"
proof -
  let ?drop = "\<lambda>f cs. case fut_channel f of None \<Rightarrow> cs | Some c \<Rightarrow> drop_receiver c cs"
  have dead: "\<not> rx_alive (fold ?drop fs cs ! c)" if "\<not> rx_alive (cs ! c)" for cs fs
    using that
    by (induction fs arbitrary: cs)
      (auto simp: drop_receiver_def nth_list_update split: option.splits)
  have "\<not> rx_alive (fold ?drop fs cs ! c)" if "c < length cs" for cs
    using that assms(2)
  proof (induction fs arbitrary: cs)
    case (Cons g gs)
    have len: "length (?drop g cs) = length cs"
      by (simp add: drop_receiver_def split: option.splits)
    show ?case
    proof (cases "f = g")
      case True
      with assms(1) Cons.prems(1) have "\<not> rx_alive (?drop g cs ! c)"
        by (simp add: drop_receiver_def)
      with dead show ?thesis by simp
    next
      case False
      with Cons len show ?thesis by simp
    qed
  qed simp
  with assms(3) show ?thesis by (simp add: np_drop_def)
qed

section \<open>Properties\<close>

text \<open>
  C38: In every run of the network task with its clients, whatever commands, swarm events and
  dropped futures interleave, each sender that waits for an answer, in the command queue or
  in one of the four maps, is in exactly one place, and its channel is open and has not been
  answered: no request is answered twice and no sender is lost while it waits.
\<close>

theorem network_owes_once:
  assumes "net_run X S s0 nm w" and "owned nm w p = Some c"
  shows "c < length (channels w) \<and> tx_alive (channels w ! c) \<and> sent (channels w ! c) = None \<and>
    (\<forall>q. owned nm w q = Some c \<longrightarrow> q = p)"
  using net_run_ok [OF assms(1)] assms(2) unfolding senders_ok_def unanswered_def by blast

theorem network_owes_once_witness:
  "owned asked_manager (asked_world []) (InHeaders 0) = Some 0 \<and>
    sent (channels (asked_world []) ! 0) = None"
  using network_owes_once [OF asked_run, of "InHeaders 0" 0]
  by (simp add: asked_pending asked_entry_def)

text \<open>
  C39: The network task is the environment that the synchroniser is verified in. In every run,
  when the responses that the swarm delivers are the peer's answers to their requests, each
  step of the task changes the channels as that environment may: it answers requests for
  headers with the peer's answer to the very request, or with an error, and makes none.
\<close>

theorem network_implements_env:
  assumes "net_run X S s0 nm w" and "network_step X S ch nm w = Ret (nm', w')"
    and "\<And>s q hs r. ch = SwarmEvent s (RequestResponse (ResponseMessage q hs)) \<Longrightarrow>
      pending_request_headers nm q = Some r \<Longrightarrow> hs = answer (ghr_request r)"
  shows "net_env answer w w'"
  using network_step_env [OF _ assms(2)] net_run_ok [OF assms(1)] assms(3) by blast

theorem network_implements_env_witness:
  "\<exists>nm' w'. network_step (demo_ext True) demo_swarm
      (SwarmEvent 1 (RequestResponse (ResponseMessage 0 [header_default]))) asked_manager
      (asked_world []) = Ret (nm', w') \<and> net_env (\<lambda>r. [header_default]) (asked_world []) w'"
proof -
  let ?ch = "SwarmEvent 1 (RequestResponse (ResponseMessage 0 [header_default]))"
  have "\<exists>nm' w'. network_step (demo_ext True) demo_swarm ?ch asked_manager (asked_world []) =
      Ret (nm', w')"
    by (simp add: asked_manager_def asked_entry_def asked_world_def answer_to_def oneshot_send_def)
  then show ?thesis
    using network_implements_env [OF asked_run [of "demo_ext True"],
        where answer = "\<lambda>r. [header_default]"] by fastforce
qed

text \<open>
  A response reaches the one who asked. When the swarm delivers a response to a pending
  request and its future has not been dropped, the future is ready with exactly the headers
  of the response, the request is no longer pending, and no other channel changes.
\<close>

lemma response_delivered:
  assumes "net_run X S s0 nm w" and "pending_request_headers nm q = Some r"
    and "rx_alive (channels w ! ghr_sender r)"
  shows "\<exists>w'. network_step X S (SwarmEvent s (RequestResponse (ResponseMessage q hs))) nm w =
      Ret (nm\<lparr>nm_swarm := s,
        pending_request_headers := (pending_request_headers nm)(q := None)\<rparr>, w') \<and>
    poll_headers_fut (channels w') (HeadersFut (ghr_sender r) (ghr_request r)) = Ready (Inr hs) \<and>
    commands w' = commands w \<and>
    (\<forall>c. c \<noteq> ghr_sender r \<longrightarrow> channels w' ! c = channels w ! c)"
proof -
  have "ghr_sender r < length (channels w)"
    using pending_sender_bound [OF assms(1,2)] .
  with assms(2,3) show ?thesis
    by (auto simp: answer_to_def oneshot_send_def poll_receiver_def)
qed

text \<open>
  C40: Dropping a future that waits for headers brings the network task down. Once the receiver
  of a pending request is gone, as when a synchroniser fails while it has other requests in
  flight, the response to that request, and likewise the report that it failed, panics.
\<close>

theorem dropped_request_crashes:
  assumes "net_run X S s0 nm w" and "pending_request_headers nm q = Some r"
    and "HeadersFut (ghr_sender r) (ghr_request r) \<in> set fs"
  shows "network_step X S (SwarmEvent s (RequestResponse (ResponseMessage q hs))) nm (np_drop w fs) =
      Panic ''Receiver not to dropped.'' \<and>
    network_step X S (SwarmEvent s (RequestResponse (OutboundFailureEvent q e))) nm (np_drop w fs) =
      Panic ''Receiver dropped''"
proof -
  have "\<not> rx_alive (channels (np_drop w fs) ! ghr_sender r)"
    using np_drop_dead [OF _ assms(3) pending_sender_bound [OF assms(1,2)]] by simp
  with assms(2) show ?thesis by (simp add: answer_to_def oneshot_send_def)
qed

theorem dropped_request_crashes_witness:
  "network_step (demo_ext True) demo_swarm
      (SwarmEvent 1 (RequestResponse (ResponseMessage 0 [header_default]))) asked_manager
      (np_drop (asked_world []) [HeadersFut 0 asked_req]) = Panic ''Receiver not to dropped.''"
  using dropped_request_crashes [OF asked_run [of "demo_ext True"] asked_pending,
      of "[HeadersFut 0 asked_req]"] by (simp add: asked_entry_def)

text \<open>
  A header that one node broadcasts arrives unchanged at another: the bytes that the network
  task publishes, and the topic it publishes them on, make the task of the receiver hand the
  same header to its chain manager. The same holds of transactions.
\<close>

lemma gossip_delivered:
  assumes "header_codec X" and "\<And>txs. sw_txs_decode S' (sw_txs_encode S txs) = Inr txs"
    and "event_open nm'"
  shows "(\<exists>t buf. handle_command X S nm w (BroadcastBlockHeader h tx) =
        publish_and_answer S nm w t buf tx \<and>
      handle_event X S' nm' w' (GossipMessage t buf) =
        Ret (nm'\<lparr>event_sender := event_sender nm' @ [IncomingNewBlockHeader h]\<rparr>, w')) \<and>
    (\<exists>t buf. handle_command X S nm w (BroadcastTransactions tx txs) =
        publish_and_answer S nm w t buf tx \<and>
      handle_event X S' nm' w' (GossipMessage t buf) =
        Ret (nm'\<lparr>event_sender := event_sender nm' @ [IncomingTransactions txs]\<rparr>, w'))"
proof (intro conjI)
  show "\<exists>t buf. handle_command X S nm w (BroadcastBlockHeader h tx) =
        publish_and_answer S nm w t buf tx \<and>
      handle_event X S' nm' w' (GossipMessage t buf) =
        Ret (nm'\<lparr>event_sender := event_sender nm' @ [IncomingNewBlockHeader h]\<rparr>, w')"
    using header_codec.decode_encode [OF assms(1)] assms(3)
    by (intro exI [of _ BLOCK_HEADER] exI [of _ "header_encode X h"])
      (simp add: handle_gossipsub_message_def)
  show "\<exists>t buf. handle_command X S nm w (BroadcastTransactions tx txs) =
        publish_and_answer S nm w t buf tx \<and>
      handle_event X S' nm' w' (GossipMessage t buf) =
        Ret (nm'\<lparr>event_sender := event_sender nm' @ [IncomingTransactions txs]\<rparr>, w')"
    using assms(2,3)
    by (intro exI [of _ TRANSACTIONS] exI [of _ "sw_txs_encode S txs"])
      (simp add: handle_gossipsub_message_def)
qed

lemma gossip_delivered_example:
  "\<exists>t buf. handle_event (demo_ext True) demo_swarm asked_manager (asked_world [])
     (GossipMessage t buf) =
     Ret (asked_manager\<lparr>event_sender := [IncomingNewBlockHeader header_default]\<rparr>, asked_world [])"
proof -
  have "sw_txs_decode demo_swarm (sw_txs_encode demo_swarm txs) = Inr txs" for txs
    by (simp add: demo_swarm_def take_put_txs length_put_txs)
  moreover have "event_open asked_manager" "event_sender asked_manager = []"
    by (simp_all add: asked_manager_def network_manager_new_def)
  ultimately show ?thesis
    using gossip_delivered [OF demo.header_codec_axioms [of True], of demo_swarm demo_swarm
        asked_manager asked_manager "asked_world []" header_default 0 "asked_world []" "[]"]
    by auto
qed

text \<open>
  A gossip message that does not decode brings the network task down: any peer that
  publishes malformed bytes on one of the two topics makes the task of every receiver panic.
\<close>

lemma malformed_gossip_crashes:
  assumes "header_decode X dat = Inl e" and "sw_txs_decode S dat = Inl e'"
  shows "handle_event X S nm w (GossipMessage t dat) =
    (case t of BLOCK_HEADER \<Rightarrow> Panic ''decode header''
     | TRANSACTIONS \<Rightarrow> Panic ''decode transactions'' | OtherTopic _ \<Rightarrow> Ret (nm, w))"
  using assms by (simp add: handle_gossipsub_message_def split: topic.splits)

end
