(* ===== verification/Miner_Properties.thy ===== *)
theory Miner_Properties
  imports Miner Network_Properties Sync_Order
begin

text \<open>
  Properties of the miner on the redb chain and the network provider: what a tick does, that
  ticks make the chain grow, and what happens when the network task is slower than the miner.
\<close>

lemma miner_running:
  assumes "reliable_chain_store R db_ok txn_ok stored view X"
  shows "running_miner (chain_tree X R) (overflow_checks X)
    (\<lambda>db. db_ok db \<and> wf_tables X (stored db)) (\<lambda>db. headers_of X (stored db))
    (network_provider pick) net_up"
  using reliable_tree [OF assms] net.working_provider_axioms by (simp add: running_miner_def)

interpretation mining: running_miner "chain_tree (demo_ext c) (mem_redb mem_empty)"
  "overflow_checks (demo_ext c)" "\<lambda>db. mem_good db \<and> wf_tables (demo_ext c) (mem_view db)"
  "\<lambda>db. headers_of (demo_ext c) (mem_view db)" "network_provider pick" net_up "demo_ext c" for c pick
  by (rule miner_running [OF mem_chain.reliable_chain_store_axioms])

section \<open>Example data\<close>

text \<open>
  A timer that counts the ticks that are due. A new interval has its first tick due at once,
  and a period of zero panics, as tokio documents it.
\<close>

definition due_timer :: "nat timer" where
  "due_timer = \<lparr>tm_interval = (\<lambda>itv. if itv = 0 then Panic ''`period` must be non-zero.''
       else Ret 1),
     tm_poll_tick = (\<lambda>due. (0 < due, due - 1))\<rparr>"

lemma due_timer_simps [simp]:
  "tm_poll_tick due_timer due = (0 < due, due - 1)"
  by (simp add: due_timer_def)

definition demo_inputs :: mining_inputs where
  "demo_inputs = \<lparr>now = 7, random_bytes = ''seed'', random_nonce = 3\<rparr>"

definition demo_miner :: "nat \<Rightarrow> net_fut broadcast_request option \<Rightarrow> (mem_db, nat, net_fut) miner" where
  "demo_miner due p = \<lparr>interval = due, mi_chain = demo_chain True, pending_broadcast = p\<rparr>"

abbreviation demo_chain_tree :: "mem_db block_tree" where
  "demo_chain_tree \<equiv> chain_tree (demo_ext True) (mem_redb mem_empty)"

section \<open>What a tick does\<close>

lemma broadcast_unanswered:
  assumes "command_open w"
  shows "\<exists>w'. np_broadcast_block_header w h = Ret (BroadcastFut (length (channels w)), w') \<and>
    commands w' = commands w @ [BroadcastBlockHeader h (length (channels w))] \<and>
    command_open w' \<and> channels w' = channels w @
      [\<lparr>sent = None, tx_alive = True, rx_alive = True, asked = None\<rparr>]"
  using assms by (auto simp: np_broadcast_block_header_def oneshot_channel_def send_command_def)

lemma fresh_broadcast_pending:
  assumes "c < length (channels w)" and "sent (channels w ! c) = None" and "tx_alive (channels w ! c)"
  shows "broadcast_request_poll (network_provider pick) w \<lparr>br_header = h, br_fut = BroadcastFut c\<rparr> =
    Ret (Pending, w)"
  using assms by (simp add: broadcast_request_poll_def poll_broadcast_def np_poll_broadcasts_def
      poll_receiver_def pick_ready_def)

lemma np_drop_one:
  "commands (np_drop w fs) = commands w" "command_open (np_drop w fs) = command_open w"
  by (simp_all add: np_drop_def)

text \<open>The block that is mined on top of the tip.\<close>

abbreviation mined_next :: "ext \<Rightarrow> mining_inputs \<Rightarrow> header_map \<Rightarrow> header" where
  "mined_next X inp m \<equiv> mined_header X inp (tip_header m) (tip_number m + 1)"

text \<open>
  A poll that finds a tick mines the block on top of the tip, stores it, sends one command to
  broadcast it and remembers the future, dropping the one before. The timer is polled a second
  time, and when another tick was due already that tick is spent without a block, and the
  timer will not wake the miner up.
\<close>

lemma miner_tick_result:
  assumes R: "reliable_chain_store R db_ok txn_ok stored view X"
    and ok: "db_ok (mi_chain m)" "wf_tables X (stored (mi_chain m))"
    and room: "tip_number (headers_of X (stored (mi_chain m))) < n" and up: "command_open w"
    and t: "tm_poll_tick I (interval m) = (True, i)" "tm_poll_tick I i = (again, i')"
    and h: "h = mined_next X inp (headers_of X (stored (mi_chain m)))"
  shows "\<exists>db' w'. execute_poll X (chain_tree X R) (network_provider pick) I inp m w =
      Ret (m\<lparr>mi_chain := db', interval := i', pending_broadcast :=
          Some \<lparr>br_header = h, br_fut = BroadcastFut (length (channels w))\<rparr>\<rparr>,
        w', (if again then [] else [OnTick]) @ [OnBroadcast]) \<and>
    db_ok db' \<and> wf_tables X (stored db') \<and> tip_header (headers_of X (stored db')) = h \<and>
    headers_of X (stored db') = (headers_of X (stored (mi_chain m)))(number h \<mapsto> h) \<and>
    commands w' = commands w @ [BroadcastBlockHeader h (length (channels w))] \<and>
    (pending_broadcast m = None \<longrightarrow> channels w' = channels w @
      [\<lparr>sent = None, tx_alive = True, rx_alive = True, asked = None\<rparr>]) \<and>
    (\<forall>req c. pending_broadcast m = Some req \<longrightarrow> br_fut req = BroadcastFut c \<longrightarrow>
      c < length (channels w) \<longrightarrow> \<not> rx_alive (channels w' ! c))"
proof -
  let ?P = "network_provider pick" and ?c = "length (channels w)"
  let ?req = "\<lparr>br_header = h, br_fut = BroadcastFut ?c\<rparr>"
  note T = reliable_tree [OF R]
  note inv = conjI [OF ok]
  obtain db' where mine: "bt_mine_block X (chain_tree X R) (mi_chain m) inp = Ret (Mined h, db')"
    using reliable_block_tree.mine_succeeds [OF T inv room, of X inp] h by auto
  note M = block_tree_contract.mine_Mined [OF reliable_block_tree.axioms(1) [OF T] inv mine]
  obtain w1 where b: "np_broadcast_block_header w h = Ret (BroadcastFut ?c, w1)"
    and w1: "commands w1 = commands w @ [BroadcastBlockHeader h ?c]" "channels w1 = channels w @
      [\<lparr>sent = None, tx_alive = True, rx_alive = True, asked = None\<rparr>]"
    using broadcast_unanswered [OF up] by blast
  let ?olds = "case pending_broadcast m of None \<Rightarrow> [] | Some old \<Rightarrow> [br_fut old]"
  let ?w = "np_drop w1 ?olds"
  have nil: "np_drop w1 [] = w1" by (simp add: np_drop_def)
  have mined: "miner_mine X (chain_tree X R) ?P inp (m\<lparr>interval := i\<rparr>) w =
      Ret (m\<lparr>interval := i, mi_chain := db', pending_broadcast := Some ?req\<rparr>, ?w)"
    by (cases "pending_broadcast m") (simp_all add: miner_mine_def mine b nil)
  have "broadcast_request_poll ?P ?w ?req = Ret (Pending, ?w)"
    by (rule fresh_broadcast_pending) (simp_all add: np_drop_chans w1)
  then have "execute_poll X (chain_tree X R) ?P I inp m w =
      Ret (m\<lparr>mi_chain := db', interval := i', pending_broadcast := Some ?req\<rparr>, ?w,
        (if again then [] else [OnTick]) @ [OnBroadcast])"
    by (cases again) (simp_all add: execute_poll_def miner_tick_def t mined
        poll_pending_broadcast_def)
  moreover have "\<not> rx_alive (channels ?w ! c)"
    if "pending_broadcast m = Some req" "br_fut req = BroadcastFut c" "c < ?c" for req c
    using that by (intro np_drop_dead [of "BroadcastFut c"]) (simp_all add: w1)
  ultimately show ?thesis
    using M(1-3) by (intro exI [of _ db'] exI [of _ ?w]) (simp add: np_drop_one w1 nil)
qed

section \<open>Properties\<close>

text \<open>
  C16: The miner makes progress. For every schedule of polls, with time passing and the world
  changing between them as long as the network task is there and answers, no poll panics, and
  the chain has grown by exactly one block for every poll that found a tick, each the child of
  the one before it, starting at the old tip.
\<close>

theorem miner_makes_progress:
  assumes "reliable_chain_store R db_ok txn_ok stored view X"
    and "db_ok (mi_chain m)" and "wf_tables X (stored (mi_chain m))"
    and "net_up w (broadcast_futs m)"
    and "\<And>pass change inp w fs. (pass, change, inp) \<in> set sched \<Longrightarrow> net_up w fs \<Longrightarrow>
      net_up (change w) fs"
    and "unat (tip_number (headers_of X (stored (mi_chain m)))) + length sched < 2 ^ 64"
  shows "\<exists>ticks m' w' hs.
    run_miner X (chain_tree X R) (network_provider pick) I sched m w = Ret (ticks, m', w') \<and>
    db_ok (mi_chain m') \<and> wf_tables X (stored (mi_chain m')) \<and>
    net_up w' (broadcast_futs m') \<and>
    extends (tip_header (headers_of X (stored (mi_chain m)))) hs \<and> length hs = ticks \<and>
    headers_of X (stored (mi_chain m')) = store_all (headers_of X (stored (mi_chain m))) hs"
  using running_miner.run_total [OF miner_running [OF assms(1), of pick] conjI [OF assms(2,3)] assms(4),
      where sched = sched and X = X and I = I] assms(5,6) by metis

theorem miner_makes_progress_witness:
  "\<exists>ticks m' w' hs. run_miner (demo_ext True) demo_chain_tree (network_provider first_ready)
      due_timer [(\<lambda>due. due + 1, \<lambda>w. w, demo_inputs)] (demo_miner 0 None) demo_world =
      Ret (ticks, m', w') \<and> length hs = ticks \<and>
    headers_of (demo_ext True) (mem_view (mi_chain m')) =
      store_all [0 \<mapsto> chain_genesis (demo_ext True)] hs"
  using miner_makes_progress [where m = "demo_miner 0 None" and w = demo_world and I = due_timer
      and sched = "[(\<lambda>due. due + 1, \<lambda>w. w, demo_inputs)]" and pick = first_ready,
      OF demo_chain_facts(1) [of True]] demo_chain_facts(2,3) [of True]
  by (auto simp: demo_miner_def demo_world_def demo_chain_headers net_up_def broadcast_futs_def)

text \<open>
  C26: A miner that is faster than the network task brings it down. When a tick finds the
  command of the previous broadcast still next in the queue, mining drops the future of that
  broadcast, and the network task panics on the command, whatever the swarm does with it.
\<close>

theorem miner_overrun_crashes:
  assumes "reliable_chain_store R db_ok txn_ok stored view X"
    and "db_ok (mi_chain m)" and "wf_tables X (stored (mi_chain m))"
    and "tip_number (headers_of X (stored (mi_chain m))) < n" and "command_open w"
    and "tm_poll_tick I (interval m) = (True, i)"
    and "pending_broadcast m = Some \<lparr>br_header = h0, br_fut = BroadcastFut c\<rparr>"
    and "commands w = BroadcastBlockHeader h0 c # cs" and "c < length (channels w)"
  shows "\<exists>m' w' wakes msg.
    execute_poll X (chain_tree X R) (network_provider pick) I inp m w = Ret (m', w', wakes) \<and>
    network_step X S NextCommand nm w' = Panic msg"
proof -
  obtain again i' where t: "tm_poll_tick I i = (again, i')" by fastforce
  from miner_tick_result [OF assms(1-6) t refl, of pick inp] obtain m' w' wakes where
    e: "execute_poll X (chain_tree X R) (network_provider pick) I inp m w = Ret (m', w', wakes)"
    and c: "commands w' = commands w @ [BroadcastBlockHeader
        (mined_next X inp (headers_of X (stored (mi_chain m)))) (length (channels w))]"
    and dead: "\<not> rx_alive (channels w' ! c)"
    using assms(7,9) by fastforce
  have "\<exists>msg. network_step X S NextCommand nm w' = Panic msg"
    using dead by (simp add: c assms(8) publish_and_answer_def answer_to_def oneshot_send_def
        Let_def split: prod.splits sum.splits)
  with e show ?thesis by blast
qed

theorem miner_overrun_crashes_witness:
  "\<exists>m' w' wakes msg. execute_poll (demo_ext True) demo_chain_tree (network_provider first_ready)
      due_timer demo_inputs
      (demo_miner 1 (Some \<lparr>br_header = demo_a2, br_fut = BroadcastFut 0\<rparr>))
      (asked_world [BroadcastBlockHeader demo_a2 0]) = Ret (m', w', wakes) \<and>
    network_step (demo_ext True) demo_swarm NextCommand asked_manager w' = Panic msg"
  using miner_overrun_crashes [where
      m = "demo_miner 1 (Some \<lparr>br_header = demo_a2, br_fut = BroadcastFut 0\<rparr>)"
      and w = "asked_world [BroadcastBlockHeader demo_a2 0]" and I = due_timer and i = 0 and n = 1
      and pick = first_ready and inp = demo_inputs and S = demo_swarm and nm = asked_manager,
      OF demo_chain_facts(1) [of True]] demo_chain_facts(2,3) [of True]
  by (auto simp: demo_miner_def asked_world_def demo_chain_headers)

end
