(* ===== verification/Node.thy ===== *)
theory Node
  imports Client Miner_Properties
begin

text \<open>
  A running node: the network task, the chain manager and the miner take turns, one round or
  poll at a time, on the state that \<open>start_network\<close> set up. The additions that run on other
  threads within a poll are the subject of theory \<open>Chain_Race\<close>.
\<close>

section \<open>Interleaving the tasks\<close>

inductive node_run ::
  "ext \<Rightarrow> ('db, 'txn) redb \<Rightarrow> 'i timer \<Rightarrow> 's swarm \<Rightarrow> ('db, 's, 'i) node \<Rightarrow>
     ('db, 's, 'i) node \<Rightarrow> bool"
  for X R I S n0 where
  start: "node_run X R I S n0 n0"
| network: "node_run X R I S n0 n \<Longrightarrow>
    network_step X S ch (no_network n) (no_world n) = Ret (nm, w) \<Longrightarrow>
    node_run X R I S n0 (n\<lparr>no_network := nm, no_world := w\<rparr>)"
| delivered: "node_run X R I S n0 n \<Longrightarrow> event_sender (no_network n) = e # es \<Longrightarrow>
    node_run X R I S n0 (n\<lparr>no_network := (no_network n)\<lparr>event_sender := es\<rparr>,
      no_manager := (no_manager n)\<lparr>event_recv := event_recv (no_manager n) @ [e]\<rparr>\<rparr>)"
| managed: "node_run X R I S n0 n \<Longrightarrow>
    chain_net_poll (node_deps X R pick woken) ((no_manager n)\<lparr>cn_chain := no_db n\<rparr>) (no_world n) =
      Ret (r, st, w) \<Longrightarrow>
    node_run X R I S n0 (n\<lparr>no_db := cn_chain st, no_manager := st, no_world := w\<rparr>)"
| mined: "node_run X R I S n0 n \<Longrightarrow> no_miner n = Some m \<Longrightarrow>
    execute_poll X (chain_tree X R) (network_provider pick) I inp
      (m\<lparr>mi_chain := no_db n, interval := i\<rparr>) (no_world n) = Ret (m', w, wakes) \<Longrightarrow>
    node_run X R I S n0 (n\<lparr>no_db := mi_chain m', no_miner := Some m', no_world := w\<rparr>)"
| called: "node_run X R I S n0 n \<Longrightarrow> provider_call (no_world n) w \<Longrightarrow>
    node_run X R I S n0 (n\<lparr>no_world := w\<rparr>)"

lemma node_run_grows:
  assumes C: "chain_store R db_ok txn_ok stored view X" and "node_run X R I S n0 n"
    and "db_ok (no_db n0)" and "wf_tables X (stored (no_db n0))"
  shows "db_ok (no_db n) \<and> wf_tables X (stored (no_db n)) \<and>
    grows (headers_of X (stored (no_db n0))) (headers_of X (stored (no_db n)))"
  using assms(2)
proof (induction rule: node_run.induct)
  case start
  then show ?case using assms(3,4) by simp
next
  case (managed n pick woken r st w)
  have "db_ok (cn_chain st) \<and> wf_tables X (stored (cn_chain st)) \<and>
      grows (headers_of X (stored (no_db n))) (headers_of X (stored (cn_chain st)))"
    using block_tree_contract.poll_grows [OF tree_contract [OF C] _ _ managed.hyps(2)] managed.IH
    by simp
  then show ?case using managed.IH grows_trans by fastforce
next
  case (mined n m pick inp i m' w wakes)
  have "db_ok (mi_chain m') \<and> wf_tables X (stored (mi_chain m')) \<and>
      grows (headers_of X (stored (no_db n))) (headers_of X (stored (mi_chain m')))"
    using block_tree_contract.execute_grows [OF tree_contract [OF C] _ mined.hyps(3)] mined.IH
    by simp
  then show ?case using mined.IH grows_trans by fastforce
qed simp_all

lemma start_network_db:
  assumes "start_network X R I K cb = Ret n0"
  shows "chain_open X R (db_path cb) = Ret (no_db n0)"
    and "cn_chain (no_manager n0) = no_db n0" and "\<And>m. no_miner n0 = Some m \<Longrightarrow> mi_chain m = no_db n0"
  using assms
  by (auto simp: start_network_def chain_new_def miner_new_def chain_net_new_def Let_def
      split: prod.splits option.splits elim!: obind_RetE)

section \<open>Properties\<close>

text \<open>
  C14: A node keeps its chain intact from start-up on. Started on a new database or on one that
  a node left behind, the genesis is stored; and however the network task, the chain manager
  and the miner take turns, whatever peers and the swarm do and whichever database calls fail,
  every number up to the tip has a header, the genesis number included, no number loses its
  header, and the tip never moves down.
\<close>

theorem node_chain_safe:
  assumes "chain_store R db_ok txn_ok stored view X"
    and "redb_create R (db_path cb) = Inr db0"
    and "stored db0 = (Map.empty, Map.empty) \<or> wf_tables X (stored db0)"
    and "start_network X R I K cb = Ret n0" and "node_run X R I S n0 n"
  shows "db_ok (no_db n) \<and> wf_tables X (stored (no_db n)) \<and>
    headers_of X (stored (no_db n0)) = (headers_of X (stored db0))(0 \<mapsto> chain_genesis X) \<and>
    grows (headers_of X (stored (no_db n0))) (headers_of X (stored (no_db n)))"
proof -
  note open0 = start_network_db(1) [OF assms(4)]
  note ok = chain_store.open_result(1) [OF assms(1,2) open0]
  note inv = chain_store.open_inv [OF assms(1,2) open0 assms(3)]
  show ?thesis using node_run_grows [OF assms(1,5) ok inv(1)] inv(2) by simp
qed

definition demo_client :: "unit client_builder" where
  "demo_client = with_auto_mine_interval (client_default ()) (Some 1)"

definition demo_libp2p :: "(unit, unit, gossipsub_config, kad_mode) libp2p" where
  "demo_libp2p = \<lparr>lp_peer_id = (\<lambda>k. ''peer''), lp_mdns = (\<lambda>p. Inr ()), lp_config = Inr,
     lp_gossipsub = (\<lambda>k c. Inr c), lp_kad = (\<lambda>p. ClientMode), lp_set_mode = (\<lambda>m d. m),
     lp_hash = (\<lambda>b. of_nat (length b))\<rparr>"

definition demo_maker :: "(unit, unit, gossipsub_config, kad_mode, nat) swarm_maker" where
  "demo_maker = \<lparr>sm_libp2p = demo_libp2p, sm_tcp = Inr, sm_build = (\<lambda>k b. 0),
     sm_subscribe = (\<lambda>s t. (Inr True, s))\<rparr>"

lemma demo_node_mines:
  "\<exists>n0 n. start_network (demo_ext True) (mem_redb mem_empty) due_timer demo_maker demo_client = Ret n0 \<and>
    node_run (demo_ext True) (mem_redb mem_empty) due_timer demo_swarm n0 n \<and>
    headers_of (demo_ext True) (mem_view (no_db n0)) = [0 \<mapsto> chain_genesis (demo_ext True)] \<and>
    tip_number (headers_of (demo_ext True) (mem_view (no_db n))) = 1"
proof -
  let ?X = "demo_ext True" and ?R = "mem_redb mem_empty" and ?m = "demo_miner 1 None"
  let ?n0 = "\<lparr>no_db = demo_chain True, no_miner = Some ?m, no_network = network_manager_new 0,
    no_manager = chain_net_new (demo_chain True) pool_new, no_world = demo_world\<rparr>"
  have start: "start_network ?X ?R due_timer demo_maker demo_client = Ret ?n0"
    by (simp add: start_network_def app_behaviour_new_def demo_maker_def demo_libp2p_def demo_client_def client_default_def
        with_auto_mine_interval_def chain_new_def miner_new_def demo_open due_timer_def
        demo_miner_def demo_world_def)
  let ?h = "mined_next ?X demo_inputs (headers_of ?X (mem_view (demo_chain True)))"
  have m: "mi_chain ?m = demo_chain True" "tm_poll_tick due_timer (interval ?m) = (True, 0)"
    "tm_poll_tick due_timer 0 = (False, 0)" by (simp_all add: demo_miner_def)
  have "tip_number (headers_of ?X (mem_view (demo_chain True))) < 1" "command_open demo_world"
    by (simp_all add: demo_chain_headers demo_world_def)
  from miner_tick_result [OF demo_chain_facts(1) [of True] _ _ _ this(2) m(2,3) refl, unfolded m(1),
      OF demo_chain_facts(2,3) this(1), of first_ready demo_inputs]
  obtain m' w' wakes where e: "execute_poll ?X demo_chain_tree (network_provider first_ready)
      due_timer demo_inputs ?m demo_world = Ret (m', w', wakes)"
    and h: "tip_header (headers_of ?X (mem_view (mi_chain m'))) = ?h"
      "wf_tables ?X (mem_view (mi_chain m'))" by auto
  have "?m\<lparr>mi_chain := no_db ?n0, interval := 1\<rparr> = ?m" by (simp add: demo_miner_def)
  with e have "node_run ?X ?R due_timer demo_swarm ?n0
      (?n0\<lparr>no_db := mi_chain m', no_miner := Some m', no_world := w'\<rparr>)"
    by (intro node_run.mined [OF node_run.start, where m = ?m and i = 1]) simp_all
  moreover have "tip_number (headers_of ?X (mem_view (mi_chain m'))) = number ?h"
    using tip_header_number [OF wf_tables_headers [OF h(2)]] h(1) by simp
  then have "tip_number (headers_of ?X (mem_view (mi_chain m'))) = 1"
    by (simp add: mined_header_def mine_block_def Let_def demo_chain_headers)
  ultimately show ?thesis
    using start demo_chain_headers [of True]
    by (intro exI [of _ ?n0] exI [of _ "?n0\<lparr>no_db := mi_chain m', no_miner := Some m', no_world := w'\<rparr>"]) simp
qed

theorem node_chain_safe_witness:
  "\<exists>n0 n. start_network (demo_ext True) (mem_redb mem_empty) due_timer demo_maker demo_client = Ret n0 \<and>
    node_run (demo_ext True) (mem_redb mem_empty) due_timer demo_swarm n0 n \<and>
    tip_number (headers_of (demo_ext True) (mem_view (no_db n))) = 1 \<and>
    wf_tables (demo_ext True) (mem_view (no_db n)) \<and>
    grows [0 \<mapsto> chain_genesis (demo_ext True)] (headers_of (demo_ext True) (mem_view (no_db n)))"
proof -
  let ?X = "demo_ext True" and ?R = "mem_redb mem_empty"
  obtain n0 n where n0: "start_network ?X ?R due_timer demo_maker demo_client = Ret n0"
    and n: "node_run ?X ?R due_timer demo_swarm n0 n"
      "tip_number (headers_of ?X (mem_view (no_db n))) = 1"
    and h: "headers_of ?X (mem_view (no_db n0)) = [0 \<mapsto> chain_genesis ?X]"
    using demo_node_mines by blast
  have c: "chain_store ?R mem_good mem_good mem_view mem_view ?X"
    by (rule mem_chain.chain_store_axioms)
  have r: "redb_create ?R (db_path demo_client) = Inr mem_empty" by (simp add: mem_redb_def)
  have e: "mem_view mem_empty = (Map.empty, Map.empty)"
    by (simp add: mem_view_def mem_empty_def)
  show ?thesis
    using node_chain_safe [OF c r disjI1 [OF e] n0 n(1)] n0 n h by auto
qed

end
