(* ===== verification/Propagation.thy ===== *)
theory Propagation
  imports Node
begin

text \<open>
  The way of a block from one node to another: the network task of the miner's node publishes
  it, the one of the receiver hands it to its chain manager, and the manager adds it.
\<close>

text \<open>The task that has a broadcast next publishes it and answers.\<close>

lemma broadcast_published:
  assumes "commands w = BroadcastBlockHeader h c # cs" and "c < length (channels w)"
    and "rx_alive (channels w ! c)"
    and "sw_publish S (nm_swarm nm) BLOCK_HEADER (header_encode X h) = (Inr (), s)"
  shows "\<exists>w'. network_step X S NextCommand nm w = Ret (nm\<lparr>nm_swarm := s\<rparr>, w') \<and>
    poll_unit_fut (channels w') (BroadcastFut c) = Ret (Ready (Inr ())) \<and> commands w' = cs"
  using assms
  by (auto simp: publish_and_answer_def answer_to_def oneshot_send_def poll_receiver_def)

text \<open>A manager that has nothing to synchronise adds a child of its tip and passes it on.\<close>

lemma manager_adds_child:
  assumes R: "reliable_chain_store R db_ok txn_ok stored view X"
    and ok: "db_ok (cn_chain st)" "wf_tables X (stored (cn_chain st))"
    and up: "net_up w (broadcast_requests st)"
    and idle: "event_recv st = [IncomingNewBlockHeader h]" "sync_requests st = []"
      "closest_peers_request_for_sync st = None"
    and add: "add_spec (overflow_checks X) (chain_genesis X) (headers_of X (stored (cn_chain st))) h =
      Ret (Inr ExtendTip, m)"
  shows "\<exists>st' w'. chain_net_poll (node_deps X R pick woken) st w = Ret (Pending, st', w') \<and>
    db_ok (cn_chain st') \<and> wf_tables X (stored (cn_chain st')) \<and>
    headers_of X (stored (cn_chain st')) = m \<and> net_up w' (broadcast_requests st')"
proof -
  let ?D = "node_deps X R pick woken" and ?st = "st\<lparr>event_recv := []\<rparr>"
  obtain fut w1 where b: "np_broadcast_block_header w h = Ret (fut, w1)"
    and u: "net_up w1 (broadcast_requests st @ [fut])" using broadcast_sent(1) [OF up] by blast
  obtain db where db: "db_ok db \<and> wf_tables X (stored db)" "headers_of X (stored db) = m"
    and e: "on_event ?D ?st w (IncomingNewBlockHeader h) = Ret (?st\<lparr>cn_chain := db,
      broadcast_requests := broadcast_requests st @ [fut]\<rparr>, w1)"
    using reliable_block_tree.new_header_result [OF reliable_tree [OF R], of ?D ?st w h fut w1]
      ok b add by auto
  obtain q w2 where q: "poll_broadcasts (network_provider pick) (broadcast_requests st @ [fut]) w1 =
      Ret (q, w2)" and u2: "net_up w2 q"
    using net.poll_broadcasts_total [OF u] by blast
  have "chain_net_poll ?D st w = Ret (Pending, ?st\<lparr>cn_chain := db, broadcast_requests := q\<rparr>, w2)"
    using e idle(2,3) by (simp add: chain_net_poll_def idle(1) poll_closest_peers_def
        poll_sync_idle q)
  with db u2 show ?thesis by simp
qed

section \<open>Transactions\<close>

text \<open>
  A task that submits transactions waits for the answer while the network task carries out the
  next command; the pool, the network task and its queue are the state.
\<close>

type_synonym 's submission = "pool_tx \<times> 's network_manager \<times> net_world"

definition set_pool :: "pool_tx \<Rightarrow> 's submission \<Rightarrow> 's submission" where
  "set_pool pool s = (pool, snd s)"

fun await_round ::
  "ext \<Rightarrow> 's swarm \<Rightarrow> 's submission \<Rightarrow> net_fut \<Rightarrow>
     (unit request_response \<times> 's submission) outcome" where
  "await_round X S (pool, nm, w) fut =
     obind (network_step X S NextCommand nm w) (\<lambda>(nm, w).
     obind (poll_unit_fut (channels w) fut) (\<lambda>p. case p of
       Ready r \<Rightarrow> Ret (r, pool, nm, w) | Pending \<Rightarrow> Diverge))"

fun send_transactions ::
  "'s submission \<Rightarrow> transaction list \<Rightarrow> (net_fut \<times> 's submission) outcome" where
  "send_transactions (pool, nm, w) txs =
     obind (np_broadcast_transactions w txs) (\<lambda>(fut, w). Ret (fut, pool, nm, w))"

text \<open>What a broadcast of transactions leaves behind, and what the network task does with it.\<close>

definition with_broadcast :: "net_world \<Rightarrow> transaction list \<Rightarrow> net_world" where
  "with_broadcast w txs = w\<lparr>commands := commands w @ [BroadcastTransactions (length (channels w)) txs],
     channels := channels w @ [\<lparr>sent = None, tx_alive = True, rx_alive = True, asked = None\<rparr>]\<rparr>"

lemma broadcast_transactions_sent:
  "command_open w \<Longrightarrow> np_broadcast_transactions w txs =
    Ret (BroadcastFut (length (channels w)), with_broadcast w txs)"
  by (simp add: np_broadcast_transactions_def oneshot_channel_def send_command_def
      with_broadcast_def)

lemma broadcast_waiting:
  "poll_unit_fut (channels (with_broadcast w txs)) (BroadcastFut (length (channels w))) = Ret Pending"
  by (simp add: with_broadcast_def poll_receiver_def)

lemma transactions_published:
  assumes "commands w = []"
    and "sw_publish S (nm_swarm nm) TRANSACTIONS (sw_txs_encode S txs) = (r, s)"
  shows "\<exists>w'. network_step X S NextCommand nm (with_broadcast w txs) = Ret (nm\<lparr>nm_swarm := s\<rparr>, w') \<and>
    poll_unit_fut (channels w') (BroadcastFut (length (channels w))) =
      Ret (Ready (map_sum PublishError id r)) \<and> commands w' = []"
  using assms
  by (cases r) (simp_all add: with_broadcast_def publish_and_answer_def answer_to_def
      oneshot_send_def poll_receiver_def)

lemma transactions_submitted:
  assumes "pool_inv pool" and "command_open w" and "commands w = []"
    and "txs' = filter (\<lambda>tx. map_of pool (tx_hash tx) = None) txs"
    and "sw_publish S (nm_swarm nm) TRANSACTIONS (sw_txs_encode S txs') = (Inr (), s)"
  shows "\<exists>w'. add_transactions_and_broadcast fst set_pool send_transactions (await_round X S)
      (pool, nm, w) txs =
      Ret (Inr (fst (add_transactions pool txs)), snd (add_transactions pool txs),
        nm\<lparr>nm_swarm := s\<rparr>, w') \<and> commands w' = []"
proof -
  obtain w' where net: "network_step X S NextCommand nm (with_broadcast w txs') = Ret (nm\<lparr>nm_swarm := s\<rparr>, w')"
    "poll_unit_fut (channels w') (BroadcastFut (length (channels w))) = Ret (Ready (Inr ()))"
    "commands w' = []"
    using transactions_published [OF assms(3,5), of X] by auto
  obtain added pool' where a: "add_transactions pool txs = (added, pool')" by fastforce
  have "set added = tx_hash ` set txs - dom (map_of pool)"
    using a add_loop_added [of pool txs "[]"] fresh_hashes_set [of "dom (map_of pool)" txs] assms(1)
    by (simp add: add_transactions_def pool_inv_def)
  then have "filter (\<lambda>tx. tx_hash tx \<in> set added) txs = txs'"
    unfolding assms(4) by (intro filter_cong) (auto simp: domIff)
  moreover have "await_round X S (pool', nm, with_broadcast w txs') (BroadcastFut (length (channels w))) =
      Ret (Inr (), pool', nm\<lparr>nm_swarm := s\<rparr>, w')"
    unfolding await_round.simps net(1) obind_Ret prod.case net(2) by simp
  ultimately show ?thesis
    using a net(3) by (simp add: add_transactions_and_broadcast_def set_pool_def
        broadcast_transactions_sent [OF assms(2)] del: await_round.simps)
qed

text \<open>The chain manager stores transactions of a peer and broadcasts them all again.\<close>

lemma no_ready_broadcast:
  "poll_unit_fut (channels w) f = Ret Pending \<Longrightarrow> poll_broadcasts (network_provider pick) [f] w = Ret ([f], w)"
  by (subst poll_broadcasts.simps) (simp add: np_poll_broadcasts_def pick_ready_def)

lemma ready_broadcast:
  assumes "poll_unit_fut (channels w) f = Ret (Ready r)"
  shows "poll_broadcasts (network_provider pick) [f] w = Ret ([], w)"
proof -
  have e: "poll_broadcasts (network_provider pick) [] w = Ret ([], w)"
    by (subst poll_broadcasts.simps) (simp add: np_poll_broadcasts_def pick_ready_def)
  show ?thesis
    using assms
    by (subst poll_broadcasts.simps)
      (simp add: np_poll_broadcasts_def pick_ready_def remove_nth_def e)
qed

lemma idle_poll:
  assumes "event_recv st = es" "sync_requests st = []" "closest_peers_request_for_sync st = None"
    and "poll_events (node_deps X R pick woken) es st w = Ret (st1, w1)"
    and "sync_requests st1 = []" "closest_peers_request_for_sync st1 = None"
    and "poll_broadcasts (network_provider pick) (broadcast_requests st1) w1 = Ret (q, w2)"
  shows "chain_net_poll (node_deps X R pick woken) st w =
    Ret (Pending, st1\<lparr>broadcast_requests := q\<rparr>, w2)"
  using assms
  by (simp add: chain_net_poll_def poll_closest_peers_def poll_sync_idle)

lemma manager_adds_transactions:
  assumes "command_open w" "broadcast_requests st = []" "sync_requests st = []"
    "closest_peers_request_for_sync st = None" "event_recv st = [IncomingTransactions txs]"
  shows "chain_net_poll (node_deps X R pick woken) st w = Ret (Pending,
    st\<lparr>event_recv := [], cn_pool := snd (add_transactions (cn_pool st) txs),
      broadcast_requests := [BroadcastFut (length (channels w))]\<rparr>, with_broadcast w txs)"
proof -
  let ?f = "BroadcastFut (length (channels w))"
  let ?st = "st\<lparr>event_recv := [], cn_pool := snd (add_transactions (cn_pool st) txs),
    broadcast_requests := [?f]\<rparr>"
  have "poll_events (node_deps X R pick woken) [IncomingTransactions txs] st w =
      Ret (?st, with_broadcast w txs)"
    using assms by (simp add: broadcast_transactions_sent split: prod.splits)
  from idle_poll [OF assms(5,3,4) this] no_ready_broadcast [OF broadcast_waiting] assms
  show ?thesis by simp
qed

end
