(* ===== verification/Cluster.thy ===== *)
theory Cluster
  imports Propagation
begin

text \<open>
  Several nodes in one process, as the tests of the client run them. What a node does is the
  code of the crate; what the swarms exchange is libp2p's and is the record \<open>transport\<close>. Which
  task runs next is the choice of the runtime: a schedule, a list of turns, is an argument
  wherever a test waits, and \<open>tireless\<close> is what the tests rely on.
\<close>

section \<open>Between the nodes\<close>

text \<open>
  What travels between two swarms, as far as the nodes notice it: the request for a connection,
  its acceptance, and gossip. A swarm yields its next event (\<open>Swarm::next\<close>), sends its next
  packet to a peer, and receives a packet of a peer.
\<close>

datatype packet = Connect | Accept | Gossip topic bytes

record 's transport =
  tr_next :: "'s \<Rightarrow> (swarm_event \<times> 's) option"
  tr_send :: "'s \<Rightarrow> (peer_id \<times> packet \<times> 's) option"
  tr_receive :: "'s \<Rightarrow> peer_id \<Rightarrow> packet \<Rightarrow> 's"

text \<open>What the nodes of a test have in common.\<close>

record ('db, 'txn, 's, 'i) system =
  sy_ext :: ext
  sy_redb :: "('db, 'txn) redb"
  sy_timer :: "'i timer"
  sy_swarm :: "'s swarm"
  sy_transport :: "'s transport"
  sy_pick :: "net_world \<Rightarrow> nat list \<Rightarrow> nat"
  sy_woken :: "net_world \<Rightarrow> nat \<Rightarrow> nat list"

type_synonym ('db, 's, 'i) cluster = "('db, 's, 'i) node list"

section \<open>Turns\<close>

text \<open>
  The turns of a node: a round of the network task with a command, an event of the swarm, the
  answer to a peer or the timer; an event on its way from the network task to the chain
  manager; a poll of the chain manager. The nodes of the tests have no miner. \<open>Carry\<close> takes
  the next packet of a swarm to the node it is for.
\<close>

datatype turn =
    Command nat
  | Event nat
  | Answer nat nat
  | Timer nat
  | Deliver nat
  | Manage nat
  | Carry nat

abbreviation swarm_of :: "('db, 's, 'i) node \<Rightarrow> 's" where
  "swarm_of n \<equiv> nm_swarm (no_network n)"

definition set_swarm :: "'s \<Rightarrow> ('db, 's, 'i) node \<Rightarrow> ('db, 's, 'i) node" where
  "set_swarm s n = n\<lparr>no_network := (no_network n)\<lparr>nm_swarm := s\<rparr>\<rparr>"

definition network_turn ::
  "('db, 'txn, 's, 'i) system \<Rightarrow> 's choice \<Rightarrow> ('db, 's, 'i) node \<Rightarrow> ('db, 's, 'i) node outcome" where
  "network_turn E ch n =
     obind (network_step (sy_ext E) (sy_swarm E) ch (no_network n) (no_world n)) (\<lambda>(nm, w).
     Ret (n\<lparr>no_network := nm, no_world := w\<rparr>))"

definition event_turn ::
  "('db, 'txn, 's, 'i) system \<Rightarrow> ('db, 's, 'i) node \<Rightarrow> ('db, 's, 'i) node outcome" where
  "event_turn E n =
     (case tr_next (sy_transport E) (swarm_of n) of
        None \<Rightarrow> Ret n
      | Some (e, s) \<Rightarrow> network_turn E (SwarmEvent s e) n)"

definition deliver_turn :: "('db, 's, 'i) node \<Rightarrow> ('db, 's, 'i) node" where
  "deliver_turn n =
     (case event_sender (no_network n) of
        [] \<Rightarrow> n
      | e # es \<Rightarrow> n\<lparr>no_network := (no_network n)\<lparr>event_sender := es\<rparr>,
          no_manager := (no_manager n)\<lparr>event_recv := event_recv (no_manager n) @ [e]\<rparr>\<rparr>)"

definition manage_turn ::
  "('db, 'txn, 's, 'i) system \<Rightarrow> ('db, 's, 'i) node \<Rightarrow> ('db, 's, 'i) node outcome" where
  "manage_turn E n =
     obind (chain_net_poll (node_deps (sy_ext E) (sy_redb E) (sy_pick E) (sy_woken E))
       ((no_manager n)\<lparr>cn_chain := no_db n\<rparr>) (no_world n)) (\<lambda>(r, st, w).
     Ret (n\<lparr>no_db := cn_chain st, no_manager := st, no_world := w\<rparr>))"

definition receive_at ::
  "('db, 'txn, 's, 'i) system \<Rightarrow> peer_id \<Rightarrow> peer_id \<Rightarrow> packet \<Rightarrow>
     ('db, 's, 'i) node \<Rightarrow> ('db, 's, 'i) node" where
  "receive_at E from to pk n =
     (if sw_local_peer_id (sy_swarm E) (swarm_of n) = to
      then set_swarm (tr_receive (sy_transport E) (swarm_of n) from pk) n else n)"

definition carry_turn ::
  "('db, 'txn, 's, 'i) system \<Rightarrow> nat \<Rightarrow> ('db, 's, 'i) cluster \<Rightarrow> ('db, 's, 'i) cluster" where
  "carry_turn E i c =
     (case tr_send (sy_transport E) (swarm_of (c ! i)) of
        None \<Rightarrow> c
      | Some (to, pk, s) \<Rightarrow>
          map (receive_at E (sw_local_peer_id (sy_swarm E) (swarm_of (c ! i))) to pk)
            (c[i := set_swarm s (c ! i)]))"

fun turn_node :: "turn \<Rightarrow> nat" where
  "turn_node (Command i) = i"
| "turn_node (Event i) = i"
| "turn_node (Answer i k) = i"
| "turn_node (Timer i) = i"
| "turn_node (Deliver i) = i"
| "turn_node (Manage i) = i"
| "turn_node (Carry i) = i"

fun node_turn ::
  "('db, 'txn, 's, 'i) system \<Rightarrow> turn \<Rightarrow> ('db, 's, 'i) node \<Rightarrow> ('db, 's, 'i) node outcome" where
  "node_turn E (Command i) n = network_turn E NextCommand n"
| "node_turn E (Event i) n = event_turn E n"
| "node_turn E (Answer i k) n = network_turn E (PeerAnswer k) n"
| "node_turn E (Timer i) n = network_turn E Tick n"
| "node_turn E (Deliver i) n = Ret (deliver_turn n)"
| "node_turn E (Manage i) n = manage_turn E n"
| "node_turn E (Carry i) n = Ret n"

definition cluster_step ::
  "('db, 'txn, 's, 'i) system \<Rightarrow> turn \<Rightarrow> ('db, 's, 'i) cluster \<Rightarrow> ('db, 's, 'i) cluster outcome" where
  "cluster_step E t c =
     (let i = turn_node t in
      if i < length c then
        case t of
          Carry _ \<Rightarrow> Ret (carry_turn E i c)
        | _ \<Rightarrow> obind (node_turn E t (c ! i)) (\<lambda>n. Ret (c[i := n]))
      else Ret c)"

text \<open>A panic of a task ends the run: the tests end with it, or wait for ever for its work.\<close>

fun run_turns ::
  "('db, 'txn, 's, 'i) system \<Rightarrow> turn list \<Rightarrow> ('db, 's, 'i) cluster \<Rightarrow>
     ('db, 's, 'i) cluster outcome" where
  "run_turns E [] c = Ret c"
| "run_turns E (t # ts) c = obind (cluster_step E t c) (run_turns E ts)"

section \<open>Waiting\<close>

text \<open>
  A test that sleeps lets the other tasks run, as \<open>sched\<close> chooses; one that waits for a future
  does the same and then has its value, and never returns if there is none.
\<close>

type_synonym ('db, 's, 'i) scheduler = "('db, 's, 'i) cluster \<Rightarrow> turn list"

definition sleep ::
  "('db, 'txn, 's, 'i) system \<Rightarrow> ('db, 's, 'i) scheduler \<Rightarrow> ('db, 's, 'i) cluster \<Rightarrow>
     ('db, 's, 'i) cluster outcome" where
  "sleep E sched c = run_turns E (sched c) c"

definition await ::
  "('db, 'txn, 's, 'i) system \<Rightarrow> ('db, 's, 'i) scheduler \<Rightarrow> nat \<Rightarrow> ('db, 's, 'i) cluster \<Rightarrow>
     net_fut \<Rightarrow> (unit request_response \<times> ('db, 's, 'i) cluster) outcome" where
  "await E sched i c fut =
     obind (run_turns E (sched c) c) (\<lambda>c.
     obind (poll_unit_fut (channels (no_world (c ! i))) fut) (\<lambda>p. case p of
       Ready r \<Rightarrow> Ret (r, c) | Pending \<Rightarrow> Diverge))"

fun poll_addrs_fut :: "chans \<Rightarrow> net_fut \<Rightarrow> multiaddr list request_response poll" where
  "poll_addrs_fut cs (AddrsFut c) =
     (case poll_receiver c cs of
        Ready (Inr (AddrsReply v)) \<Rightarrow> Ready v
      | Ready (Inl e) \<Rightarrow> Ready (Inl e)
      | _ \<Rightarrow> Pending)"
| "poll_addrs_fut cs (Failed e) = Ready (Inl e)"
| "poll_addrs_fut cs _ = Pending"

definition await_addrs ::
  "('db, 'txn, 's, 'i) system \<Rightarrow> ('db, 's, 'i) scheduler \<Rightarrow> nat \<Rightarrow> ('db, 's, 'i) cluster \<Rightarrow>
     net_fut \<Rightarrow> (multiaddr list request_response \<times> ('db, 's, 'i) cluster) outcome" where
  "await_addrs E sched i c fut =
     obind (run_turns E (sched c) c) (\<lambda>c.
     case poll_addrs_fut (channels (no_world (c ! i))) fut of
       Ready r \<Rightarrow> Ret (r, c) | Pending \<Rightarrow> Diverge)"

text \<open>
  A node is quiet when nothing waits to be done by it, and a scheduler is tireless when it
  does not stop before all nodes are quiet, as long as that can be reached at all.
\<close>

definition node_quiet :: "'s transport \<Rightarrow> ('db, 's, 'i) node \<Rightarrow> bool" where
  "node_quiet T n \<longleftrightarrow> commands (no_world n) = [] \<and> event_sender (no_network n) = [] \<and>
     event_recv (no_manager n) = [] \<and> broadcast_requests (no_manager n) = [] \<and>
     tr_next T (swarm_of n) = None \<and> tr_send T (swarm_of n) = None"

definition settles ::
  "('db, 'txn, 's, 'i) system \<Rightarrow> turn list \<Rightarrow> ('db, 's, 'i) cluster \<Rightarrow> bool" where
  "settles E ts c \<longleftrightarrow> (case run_turns E ts c of
     Ret c' \<Rightarrow> list_all (node_quiet (sy_transport E)) c' | _ \<Rightarrow> False)"

definition tireless ::
  "('db, 'txn, 's, 'i) system \<Rightarrow> ('db, 's, 'i) scheduler \<Rightarrow> bool" where
  "tireless E sched \<longleftrightarrow> (\<forall>c ts. settles E ts c \<longrightarrow> settles E (sched c) c)"

lemma tireless_exists: "\<exists>sched. tireless E sched"
proof
  show "tireless E (\<lambda>c. SOME ts. settles E ts c)"
    unfolding tireless_def by (auto intro: someI)
qed

end
