(* ===== verification/Client_Tests.thy ===== *)
theory Client_Tests
  imports Cluster
begin

text \<open>
  The tests of the client (\<^verbatim>\<open>src/src/client.rs\<close>, module \<open>tests\<close>): the test node, which is
  started, dials, mines and submits transactions, the two loops that check an assertion until
  it holds, and the four tests, which connect nodes and wait for blocks or transactions to
  arrive. The nodes run in a cluster; a test node is a handle to one of them.
\<close>

section \<open>The test node\<close>

record test_node =
  tn_id :: peer_id
  tn_node :: nat
  tn_addrs :: "multiaddr list"

text \<open>Indexing a vector.\<close>

definition vec_index :: "'a list \<Rightarrow> nat \<Rightarrow> 'a outcome" where
  "vec_index xs i = (if i < length xs then Ret (xs ! i) else Panic ''index out of bounds'')"

abbreviation world_of :: "('db, 's, 'i) cluster \<Rightarrow> nat \<Rightarrow> net_world" where
  "world_of c i \<equiv> no_world (c ! i)"

definition set_world :: "nat \<Rightarrow> net_world \<Rightarrow> ('db, 's, 'i) cluster \<Rightarrow> ('db, 's, 'i) cluster" where
  "set_world i w c = c[i := (c ! i)\<lparr>no_world := w\<rparr>]"

text \<open>A broadcast by the provider of a node.\<close>

definition send_from ::
  "nat \<Rightarrow> (net_world \<Rightarrow> 'a \<Rightarrow> (net_fut \<times> net_world) outcome) \<Rightarrow> ('db, 's, 'i) cluster \<Rightarrow> 'a \<Rightarrow>
     (net_fut \<times> ('db, 's, 'i) cluster) outcome" where
  "send_from i op c x = obind (op (world_of c i) x) (\<lambda>(f, w). Ret (f, set_world i w c))"

text \<open>
  \<open>Node::new\<close>. The key pairs (the one of the default builder, too) and the temporary directory
  are new: \<open>draw\<close> has them, by the index of the node. \<open>to_peer_id\<close> is the identifier that
  belongs to a key pair.
\<close>

definition test_node_new ::
  "('db, 'txn, 's, 'i) system \<Rightarrow> ('k, 'm, 'g, 'd, 's) swarm_maker \<Rightarrow> ('k \<Rightarrow> peer_id) \<Rightarrow>
   ('db, 's, 'i) scheduler \<Rightarrow> (nat \<Rightarrow> 'k \<times> 'k \<times> string) \<Rightarrow> nat \<Rightarrow> ('db, 's, 'i) cluster \<Rightarrow>
     (test_node \<times> ('db, 's, 'i) cluster) outcome" where
  "test_node_new E K to_peer_id sched draw idx c =
     (let (default_key, key, dir) = draw idx;
          path = dir @ ''/db_'' @ decimal idx @ ''.redb'';
          cb = with_keypair (with_mdns (with_db_path (client_default default_key) path) False) key;
          i = length c in
      obind (start_network (sy_ext E) (sy_redb E) (sy_timer E) K cb) (\<lambda>n.
      obind (np_start_listening (no_world n) ''/ip4/0.0.0.0/tcp/0'') (\<lambda>(f, w).
      obind (await E sched i (c @ [n\<lparr>no_world := w\<rparr>]) f) (\<lambda>(r, c).
      obind (expect ''Listening not to fail.'' r) (\<lambda>_.
      let (f, w) = np_listen_addrs (world_of c i) in
      obind (await_addrs E sched i (set_world i w c) f) (\<lambda>(r, c).
      obind (unwrap r) (\<lambda>addrs.
      Ret (\<lparr>tn_id = to_peer_id key, tn_node = i, tn_addrs = addrs\<rparr>, c))))))))"

definition test_node_dial ::
  "('db, 'txn, 's, 'i) system \<Rightarrow> ('db, 's, 'i) scheduler \<Rightarrow> test_node \<Rightarrow> peer_id \<Rightarrow> multiaddr \<Rightarrow>
     ('db, 's, 'i) cluster \<Rightarrow> ('db, 's, 'i) cluster outcome" where
  "test_node_dial E sched t peer addr c =
     (let i = tn_node t; (f, w) = np_dial (world_of c i) peer addr in
      obind (await E sched i (set_world i w c) f) (\<lambda>(r, c).
      obind (unwrap r) (\<lambda>_. Ret c)))"

text \<open>The result of mining, an error included, is logged only.\<close>

definition test_node_mining ::
  "('db, 'txn, 's, 'i) system \<Rightarrow> ('db, 's, 'i) scheduler \<Rightarrow> mining_inputs \<Rightarrow> test_node \<Rightarrow>
     ('db, 's, 'i) cluster \<Rightarrow> ('db, 's, 'i) cluster outcome" where
  "test_node_mining E sched inp t c =
     (let i = tn_node t in
      obind (mine_and_broadcast_block (sy_ext E) (chain_tree (sy_ext E) (sy_redb E))
        (\<lambda>c. no_db (c ! i)) (\<lambda>db c. c[i := (c ! i)\<lparr>no_db := db\<rparr>])
        (send_from i np_broadcast_block_header) (await E sched i) inp c) (\<lambda>(res, c).
      Ret c))"

text \<open>
  The message that reports success takes the first of the hashes that were added; it is
  evaluated if messages of this level are logged.
\<close>

abbreviation pool_at :: "nat \<Rightarrow> ('db, 's, 'i) cluster \<Rightarrow> pool_tx" where
  "pool_at i c \<equiv> cn_pool (no_manager (c ! i))"

definition add_external_transaction ::
  "('db, 'txn, 's, 'i) system \<Rightarrow> ('db, 's, 'i) scheduler \<Rightarrow> bool \<Rightarrow> test_node \<Rightarrow> transaction \<Rightarrow>
     ('db, 's, 'i) cluster \<Rightarrow> ('db, 's, 'i) cluster outcome" where
  "add_external_transaction E sched info_logged t tx c =
     (let i = tn_node t in
      obind (add_transactions_and_broadcast (pool_at i)
        (\<lambda>pool c. c[i := (c ! i)\<lparr>no_manager := (no_manager (c ! i))\<lparr>cn_pool := pool\<rparr>\<rparr>])
        (send_from i np_broadcast_transactions) (await E sched i) c [tx]) (\<lambda>(res, c).
      case res of
        Inl e \<Rightarrow> Ret c
      | Inr hashes \<Rightarrow>
          if info_logged \<and> hashes = [] then Panic ''called `Option::unwrap()` on a `None` value''
          else Ret c))"

text \<open>\<open>spawn_nodes\<close>, with the nodes that were pushed before.\<close>

fun spawn_loop ::
  "('db, 'txn, 's, 'i) system \<Rightarrow> ('k, 'm, 'g, 'd, 's) swarm_maker \<Rightarrow> ('k \<Rightarrow> peer_id) \<Rightarrow>
   ('db, 's, 'i) scheduler \<Rightarrow> (nat \<Rightarrow> 'k \<times> 'k \<times> string) \<Rightarrow> nat list \<Rightarrow> test_node list \<Rightarrow>
   ('db, 's, 'i) cluster \<Rightarrow> (test_node list \<times> ('db, 's, 'i) cluster) outcome" where
  "spawn_loop E K to_peer_id sched draw [] nodes c = Ret (nodes, c)"
| "spawn_loop E K to_peer_id sched draw (i # is) nodes c =
     obind (test_node_new E K to_peer_id sched draw i c) (\<lambda>(node, c).
     spawn_loop E K to_peer_id sched draw is (nodes @ [node]) c)"

definition spawn_nodes ::
  "('db, 'txn, 's, 'i) system \<Rightarrow> ('k, 'm, 'g, 'd, 's) swarm_maker \<Rightarrow> ('k \<Rightarrow> peer_id) \<Rightarrow>
   ('db, 's, 'i) scheduler \<Rightarrow> (nat \<Rightarrow> 'k \<times> 'k \<times> string) \<Rightarrow> nat \<Rightarrow>
     (test_node list \<times> ('db, 's, 'i) cluster) outcome" where
  "spawn_nodes E K to_peer_id sched draw num =
     spawn_loop E K to_peer_id sched draw [0..<num] [] []"

section \<open>Assertions with retries\<close>

text \<open>
  The assertions of the tests read the state \<open>'s\<close> of the nodes without waiting for anything,
  so nothing runs between two of them but in \<open>pause\<close>, the sleep between two attempts.
\<close>

abbreviation gave_up :: "nat \<Rightarrow> string" where
  "gave_up attempts \<equiv> ''Assertion failed after '' @ decimal attempts @ '' attempts''"

function retry_loop ::
  "('s \<Rightarrow> bool outcome) \<Rightarrow> nat \<Rightarrow> ('s \<Rightarrow> 's outcome) \<Rightarrow> nat \<Rightarrow> 's \<Rightarrow> 's outcome" where
  "retry_loop assertion attempts pause attempt_count s =
     (if attempts \<le> attempt_count then Panic (gave_up attempts)
      else obind (assertion s) (\<lambda>ok.
        if ok then Ret s
        else obind (pause s) (retry_loop assertion attempts pause (attempt_count + 1))))"
  by pat_completeness auto
termination by (relation "measure (\<lambda>(_, attempts, _, n, _). attempts - n)") auto

declare retry_loop.simps [simp del]

definition assert_with_retry ::
  "('s \<Rightarrow> bool outcome) \<Rightarrow> nat \<Rightarrow> ('s \<Rightarrow> 's outcome) \<Rightarrow> 's \<Rightarrow> 's outcome" where
  "assert_with_retry assertion attempts pause s = retry_loop assertion attempts pause 0 s"

function eq_retry_loop ::
  "('s \<Rightarrow> 'a outcome) \<Rightarrow> nat \<Rightarrow> ('s \<Rightarrow> 's outcome) \<Rightarrow> 'a \<Rightarrow> nat \<Rightarrow> 's \<Rightarrow> 's outcome" where
  "eq_retry_loop assertion attempts pause expected attempt_count s =
     obind (if attempts \<le> attempt_count
            then obind (assertion s) (\<lambda>actual. assert_that (actual = expected)) else Ret ()) (\<lambda>_.
     obind (assertion s) (\<lambda>actual.
       if actual = expected then Ret s
       else obind (pause s) (eq_retry_loop assertion attempts pause expected (attempt_count + 1))))"
  by pat_completeness auto
termination
  by (relation "measure (\<lambda>(_, attempts, _, _, n, _). attempts - n)")
    (auto simp: assert_that_def split: if_splits)

declare eq_retry_loop.simps [simp del]

definition assert_eq_with_retry ::
  "('s \<Rightarrow> 'a outcome) \<Rightarrow> nat \<Rightarrow> ('s \<Rightarrow> 's outcome) \<Rightarrow> 'a \<Rightarrow> 's \<Rightarrow> 's outcome" where
  "assert_eq_with_retry assertion attempts pause expected s =
     eq_retry_loop assertion attempts pause expected 0 s"

section \<open>The tests\<close>

text \<open>The body of a \<open>for\<close> loop, run for each of the values.\<close>

fun for_each :: "('a \<Rightarrow> 'c \<Rightarrow> 'c outcome) \<Rightarrow> 'a list \<Rightarrow> 'c \<Rightarrow> 'c outcome" where
  "for_each body [] c = Ret c"
| "for_each body (x # xs) c = obind (body x c) (for_each body xs)"

text \<open>\<open>nodes[i].dial(nodes[j].id, nodes[j].addrs[0].clone())\<close>.\<close>

definition dial_to ::
  "('db, 'txn, 's, 'i) system \<Rightarrow> ('db, 's, 'i) scheduler \<Rightarrow> test_node list \<Rightarrow> nat \<Rightarrow> nat \<Rightarrow>
     ('db, 's, 'i) cluster \<Rightarrow> ('db, 's, 'i) cluster outcome" where
  "dial_to E sched nodes i j c =
     obind (vec_index nodes i) (\<lambda>t.
     obind (vec_index nodes j) (\<lambda>peer.
     obind (vec_index (tn_addrs peer) 0) (\<lambda>addr.
     test_node_dial E sched t (tn_id peer) addr c)))"

text \<open>\<open>nodes[i].mining()\<close>.\<close>

definition mine_at ::
  "('db, 'txn, 's, 'i) system \<Rightarrow> ('db, 's, 'i) scheduler \<Rightarrow> test_node list \<Rightarrow> nat \<Rightarrow> mining_inputs \<Rightarrow>
     ('db, 's, 'i) cluster \<Rightarrow> ('db, 's, 'i) cluster outcome" where
  "mine_at E sched nodes i inp c = obind (vec_index nodes i) (\<lambda>t. test_node_mining E sched inp t c)"

text \<open>\<open>node.blockchain.tip().unwrap()\<close>, of one node, of the node at an index, of all nodes.\<close>

definition node_tip ::
  "('db, 'txn, 's, 'i) system \<Rightarrow> test_node \<Rightarrow> ('db, 's, 'i) cluster \<Rightarrow> header outcome" where
  "node_tip E t c = obind (chain_tip (sy_ext E) (sy_redb E) (no_db (c ! tn_node t))) unwrap"

definition tip_at ::
  "('db, 'txn, 's, 'i) system \<Rightarrow> test_node list \<Rightarrow> nat \<Rightarrow> ('db, 's, 'i) cluster \<Rightarrow> header outcome" where
  "tip_at E nodes i c = obind (vec_index nodes i) (\<lambda>t. node_tip E t c)"

fun node_tips ::
  "('db, 'txn, 's, 'i) system \<Rightarrow> test_node list \<Rightarrow> ('db, 's, 'i) cluster \<Rightarrow> header list outcome" where
  "node_tips E [] c = Ret []"
| "node_tips E (t # ts) c =
     obind (node_tip E t c) (\<lambda>h. obind (node_tips E ts c) (\<lambda>hs. Ret (h # hs)))"

definition test_two_node_sync ::
  "('db, 'txn, 's, 'i) system \<Rightarrow> ('k, 'm, 'g, 'd, 's) swarm_maker \<Rightarrow> ('k \<Rightarrow> peer_id) \<Rightarrow>
   ('db, 's, 'i) scheduler \<Rightarrow> (nat \<Rightarrow> 'k \<times> 'k \<times> string) \<Rightarrow> mining_inputs \<Rightarrow> unit outcome" where
  "test_two_node_sync E K to_peer_id sched draw inp =
     obind (spawn_nodes E K to_peer_id sched draw 2) (\<lambda>(nodes, c).
     obind (dial_to E sched nodes 0 1 c) (\<lambda>c.
     obind (sleep E sched c) (\<lambda>c.
     obind (mine_at E sched nodes 0 inp c) (\<lambda>c.
     obind (assert_with_retry (\<lambda>c.
         obind (tip_at E nodes 0 c) (\<lambda>head1.
         obind (tip_at E nodes 1 c) (\<lambda>head2.
         Ret (head1 = head2)))) 100 (sleep E sched) c) (\<lambda>_.
     Ret ())))))"

definition test_line_connected_sync ::
  "('db, 'txn, 's, 'i) system \<Rightarrow> ('k, 'm, 'g, 'd, 's) swarm_maker \<Rightarrow> ('k \<Rightarrow> peer_id) \<Rightarrow>
   ('db, 's, 'i) scheduler \<Rightarrow> (nat \<Rightarrow> 'k \<times> 'k \<times> string) \<Rightarrow> (nat \<Rightarrow> mining_inputs) \<Rightarrow> unit outcome" where
  "test_line_connected_sync E K to_peer_id sched draw inp =
     (let num = 10 in
      obind (spawn_nodes E K to_peer_id sched draw num) (\<lambda>(nodes, c).
      obind (for_each (\<lambda>i. dial_to E sched nodes i (i + 1)) [0..<num - 1] c) (\<lambda>c.
      obind (for_each (\<lambda>r c. obind (mine_at E sched nodes 0 (inp r) c) (sleep E sched)) [0..<10] c) (\<lambda>c.
      obind (tip_at E nodes 0 c) (\<lambda>first.
      obind (assert_eq_with_retry (node_tips E nodes) 100 (sleep E sched) (replicate num first) c) (\<lambda>_.
      Ret ()))))))"

definition test_unconnected_group_sync ::
  "('db, 'txn, 's, 'i) system \<Rightarrow> ('k, 'm, 'g, 'd, 's) swarm_maker \<Rightarrow> ('k \<Rightarrow> peer_id) \<Rightarrow>
   ('db, 's, 'i) scheduler \<Rightarrow> (nat \<Rightarrow> 'k \<times> 'k \<times> string) \<Rightarrow> (nat \<Rightarrow> mining_inputs) \<Rightarrow>
   (nat \<Rightarrow> mining_inputs) \<Rightarrow> unit outcome" where
  "test_unconnected_group_sync E K to_peer_id sched draw inp inp' =
     (let num = 10 in
      obind (spawn_nodes E K to_peer_id sched draw num) (\<lambda>(nodes, c).
      obind (for_each (\<lambda>i. dial_to E sched nodes i (i + 1)) [0..<4] c) (\<lambda>c.
      obind (for_each (\<lambda>i. dial_to E sched nodes i (i + 1)) [5..<num - 1] c) (\<lambda>c.
      obind (sleep E sched c) (\<lambda>c.
      obind (for_each (\<lambda>r c. obind (mine_at E sched nodes 4 (inp r) c)
        (mine_at E sched nodes 7 (inp' r))) [0..<10] c) (\<lambda>c.
      obind (tip_at E nodes 4 c) (\<lambda>first_group.
      obind (tip_at E nodes 7 c) (\<lambda>second_group.
      let expected = replicate 5 first_group @ replicate 5 second_group in
      obind (assert_eq_with_retry (\<lambda>c. if num \<le> length nodes then node_tips E (take num nodes) c
          else Panic ''range end index out of range'') 100 (sleep E sched) expected c) (\<lambda>_.
      Ret ())))))))))"

definition test_two_node_sync_transaction ::
  "('db, 'txn, 's, 'i) system \<Rightarrow> ('k, 'm, 'g, 'd, 's) swarm_maker \<Rightarrow> ('k \<Rightarrow> peer_id) \<Rightarrow>
   ('db, 's, 'i) scheduler \<Rightarrow> (nat \<Rightarrow> 'k \<times> 'k \<times> string) \<Rightarrow> bool \<Rightarrow> string \<Rightarrow> string \<Rightarrow>
   string \<Rightarrow> u64 \<Rightarrow> unit outcome" where
  "test_two_node_sync_transaction E K to_peer_id sched draw info_logged random_hash random_from
       random_to random_value =
     obind (spawn_nodes E K to_peer_id sched draw 2) (\<lambda>(nodes, c).
     obind (dial_to E sched nodes 0 1 c) (\<lambda>c.
     obind (sleep E sched c) (\<lambda>c.
     let tx = tx_rng random_hash random_from random_to random_value in
     obind (vec_index nodes 0) (\<lambda>node0.
     obind (add_external_transaction E sched info_logged node0 tx c) (\<lambda>c.
     let expected = get_all (pool_at (tn_node node0) c) in
     obind (assert_eq_with_retry (\<lambda>c. obind (vec_index nodes 1) (\<lambda>t.
         Ret (get_all (pool_at (tn_node t) c)))) 10 (sleep E sched) expected c) (\<lambda>_.
     Ret ()))))))"

section \<open>What the loops do\<close>

text \<open>
  The states between the pauses are \<open>at\<close>. The first moment, counted in pauses, at which a
  condition holds, and the result of an assertion that is given a number of attempts.
\<close>

definition first_at :: "('s \<Rightarrow> bool) \<Rightarrow> (nat \<Rightarrow> 's) \<Rightarrow> nat \<Rightarrow> bool" where
  "first_at ok at k \<longleftrightarrow> ok (at k) \<and> (\<forall>j < k. \<not> ok (at j))"

definition within :: "nat \<Rightarrow> ('s \<Rightarrow> bool) \<Rightarrow> (nat \<Rightarrow> 's) \<Rightarrow> string \<Rightarrow> 's outcome \<Rightarrow> bool" where
  "within n ok at fail res \<longleftrightarrow>
     (\<exists>k < n. first_at ok at k \<and> res = Ret (at k)) \<or>
     ((\<forall>k < n. \<not> ok (at k)) \<and> res = Panic fail)"

lemma no_first_at: "(\<And>k. k < n \<Longrightarrow> \<not> first_at ok at k) \<Longrightarrow> k < n \<Longrightarrow> \<not> ok (at k)"
proof (induction k rule: less_induct)
  case (less k)
  then have "\<not> ok (at j)" if "j < k" for j using that by simp
  with less.prems show ?case unfolding first_at_def by blast
qed

lemma retry_loop_first:
  assumes "\<And>j. assertion (at j) = Ret (ok (at j))" and "\<And>j. pause (at j) = Ret (at (Suc j))"
    and "ok (at k)" and "\<And>j. n \<le> j \<Longrightarrow> j < k \<Longrightarrow> \<not> ok (at j)" and "n \<le> k" and "k < attempts"
  shows "retry_loop assertion attempts pause n (at n) = Ret (at k)"
  using assms(4,5)
proof (induction "k - n" arbitrary: n)
  case 0
  then show ?case using assms(1,3,6) by (subst retry_loop.simps) simp
next
  case (Suc d)
  then have "\<not> ok (at n)" by simp
  with Suc.hyps(1) [of "Suc n"] Suc.hyps(2) Suc.prems assms(1,2,6) show ?case
    by (subst retry_loop.simps) simp
qed

lemma retry_loop_never:
  assumes "\<And>j. assertion (at j) = Ret (ok (at j))" and "\<And>j. pause (at j) = Ret (at (Suc j))"
    and "\<And>j. j < attempts \<Longrightarrow> \<not> ok (at j)"
  shows "retry_loop assertion attempts pause n (at n) = Panic (gave_up attempts)"
proof (induction "attempts - n" arbitrary: n)
  case 0
  then show ?case by (subst retry_loop.simps) simp
next
  case (Suc d)
  with Suc.hyps(1) [of "Suc n"] assms show ?case by (subst retry_loop.simps) simp
qed

lemma eq_retry_loop_first:
  assumes "\<And>j. assertion (at j) = Ret (val (at j))" and "\<And>j. pause (at j) = Ret (at (Suc j))"
    and "val (at k) = expected" and "\<And>j. n \<le> j \<Longrightarrow> j < k \<Longrightarrow> val (at j) \<noteq> expected"
    and "n \<le> k" and "k \<le> attempts"
  shows "eq_retry_loop assertion attempts pause expected n (at n) = Ret (at k)"
  using assms(4,5)
proof (induction "k - n" arbitrary: n)
  case 0
  then show ?case using assms(1,3,6) by (subst eq_retry_loop.simps) simp
next
  case (Suc d)
  then have "val (at n) \<noteq> expected" by simp
  with Suc.hyps(1) [of "Suc n"] Suc.hyps(2) Suc.prems assms(1,2,6) show ?case
    by (subst eq_retry_loop.simps) simp
qed

lemma eq_retry_loop_never:
  assumes "\<And>j. assertion (at j) = Ret (val (at j))" and "\<And>j. pause (at j) = Ret (at (Suc j))"
    and "\<And>j. j \<le> attempts \<Longrightarrow> val (at j) \<noteq> expected" and "n \<le> attempts"
  shows "eq_retry_loop assertion attempts pause expected n (at n) = Panic ''assertion failed''"
  using assms(4)
proof (induction "attempts - n" arbitrary: n)
  case 0
  then show ?case using assms(1,3) by (subst eq_retry_loop.simps) simp
next
  case (Suc d)
  with Suc.hyps(1) [of "Suc n"] assms(1-3) show ?case by (subst eq_retry_loop.simps) simp
qed

text \<open>
  The assertions of the tests always come to an end. \<open>assert_with_retry\<close> returns at the first
  attempt at which the assertion holds if that is one of the given number of attempts, and
  panics otherwise; \<open>assert_eq_with_retry\<close> does the same but makes one attempt more than the
  number it is given.
\<close>

lemma retries_end:
  assumes "\<And>j. assertion (at j) = Ret (val (at j))" and "\<And>j. pause (at j) = Ret (at (Suc j))"
  shows "within attempts (\<lambda>s. val s = expected) at (gave_up attempts)
      (assert_with_retry (\<lambda>s. obind (assertion s) (\<lambda>v. Ret (v = expected))) attempts pause (at 0)) \<and>
    within (attempts + 1) (\<lambda>s. val s = expected) at ''assertion failed''
      (assert_eq_with_retry assertion attempts pause expected (at 0))"
proof
  let ?ok = "\<lambda>s. val s = expected"
  let ?a = "\<lambda>s. obind (assertion s) (\<lambda>v. Ret (v = expected))"
  have a: "?a (at j) = Ret (?ok (at j))" for j using assms(1) by simp
  have never: "\<And>j. j < n \<Longrightarrow> \<not> ?ok (at j)" if "\<not> (\<exists>k < n. first_at ?ok at k)" for n
    using no_first_at [of n ?ok at] that by blast
  show "within attempts ?ok at (gave_up attempts) (assert_with_retry ?a attempts pause (at 0))"
  proof (cases "\<exists>k < attempts. first_at ?ok at k")
    case True
    then obtain k where k: "k < attempts" "first_at ?ok at k" by blast
    with retry_loop_first [where assertion = ?a and at = at and ok = ?ok and pause = pause
        and k = k and n = 0 and attempts = attempts, OF a assms(2)] show ?thesis
      unfolding within_def assert_with_retry_def by (auto simp: first_at_def)
  next
    case False
    with never [OF False] show ?thesis
      unfolding within_def assert_with_retry_def
      using retry_loop_never [of ?a at ?ok, OF a assms(2)] by blast
  qed
  show "within (attempts + 1) ?ok at ''assertion failed''
      (assert_eq_with_retry assertion attempts pause expected (at 0))"
  proof (cases "\<exists>k < attempts + 1. first_at ?ok at k")
    case True
    then obtain k where k: "k < attempts + 1" "first_at ?ok at k" by blast
    with eq_retry_loop_first [where assertion = assertion and at = at and val = val
        and pause = pause and k = k and n = 0 and attempts = attempts and expected = expected,
        OF assms] show ?thesis
      unfolding within_def assert_eq_with_retry_def by (auto simp: first_at_def)
  next
    case False
    with never [OF False] show ?thesis
      unfolding within_def assert_eq_with_retry_def
      using eq_retry_loop_never [of assertion at val, OF assms] by (simp add: less_Suc_eq_le)
  qed
qed

end
