(* ===== verification/Cluster_Phases.thy ===== *)
theory Cluster_Phases
  imports Client_Tests
begin

text \<open>
  What the turns of a cluster do. A node is described by its \<open>picture\<close>: the headers and the
  pool it has, what waits in its queues, and what can be said of its swarm. The locale
  \<open>connected_swarms\<close> has what libp2p documents of its swarms, and every kind of turn that the
  tests run into is shown to be a change of the pictures.
\<close>

section \<open>What is known of a swarm\<close>

text \<open>
  Its identifier and the addresses it listens on, the peers it exchanges gossip with, the
  identifiers of the messages it has seen, the events it will yield that a node reacts to, and
  the packets it will send.
\<close>

record peer_view =
  pv_id :: peer_id
  pv_addrs :: "multiaddr list"
  pv_peers :: "peer_id list"
  pv_seen :: "string set"
  pv_news :: "swarm_event list"
  pv_out :: "(peer_id \<times> packet) list"

text \<open>Events a node only logs; swarms may yield them at any time.\<close>

fun harmless :: "swarm_event \<Rightarrow> bool" where
  "harmless (Kad (OutboundQueryProgressed q (QueryClosestPeers r))) \<longleftrightarrow> False"
| "harmless (Kad e) \<longleftrightarrow> True"
| "harmless (RequestResponse InboundFailure) \<longleftrightarrow> True"
| "harmless (RequestResponse ResponseSent) \<longleftrightarrow> True"
| "harmless (ConnectionEstablished p dialer) \<longleftrightarrow> \<not> dialer"
| "harmless (OutgoingConnectionError None e) \<longleftrightarrow> True"
| "harmless IncomingConnection \<longleftrightarrow> True"
| "harmless IncomingConnectionError \<longleftrightarrow> True"
| "harmless ConnectionClosed \<longleftrightarrow> True"
| "harmless OtherEvent \<longleftrightarrow> True"
| "harmless e \<longleftrightarrow> False"

lemma harmless_ignored: "harmless e \<Longrightarrow> handle_event X S nm w e = Ret (nm, w)"
  by (cases e rule: harmless.cases) (auto split: query_result.splits kad_event.splits)

fun new_addrs :: "swarm_event \<Rightarrow> multiaddr list" where
  "new_addrs (NewListenAddr l a) = [a]"
| "new_addrs e = []"

text \<open>
  libp2p, on a database on which no call fails. Listening and dialling work; a connection makes
  the two ends peers; a message is published to the peers, passed on by every swarm that has
  not seen it, and refused when it is published by one that has. \<open>backlog\<close> counts the events
  that are waiting.
\<close>

locale connected_swarms =
  reliable_chain_store "sy_redb E" db_ok txn_ok stored view "sy_ext E"
  for E :: "('db, 'txn, 's, 'i) system" and db_ok txn_ok stored view +
  fixes v :: "'s \<Rightarrow> peer_view" and backlog :: "'s \<Rightarrow> nat" and mid :: "bytes \<Rightarrow> string"
  assumes local_peer: "sw_local_peer_id (sy_swarm E) s = pv_id (v s)"
    and listeners:
      "sw_listeners (sy_swarm E) s @ sw_external_addresses (sy_swarm E) s = pv_addrs (v s)"
    and listen: "\<exists>l a s'. sw_listen_on (sy_swarm E) s ''/ip4/0.0.0.0/tcp/0'' = (Inr l, s') \<and>
      v s' = (v s)\<lparr>pv_news := pv_news (v s) @ [NewListenAddr l a]\<rparr>"
    and dial: "a \<in> set (pv_addrs (v r)) \<Longrightarrow> pv_id (v r) \<noteq> pv_id (v s) \<Longrightarrow>
      \<exists>s'. sw_dial (sy_swarm E) s (sw_with_p2p (sy_swarm E) a (pv_id (v r))) = (Inr (), s') \<and>
        v s' = (v s)\<lparr>pv_out := pv_out (v s) @ [(pv_id (v r), Connect)]\<rparr>"
    and add_address: "v (sw_add_address (sy_swarm E) s p a) = v s"
    and bootstrap: "v (sw_bootstrap (sy_swarm E) s) = v s"
    and publish_new: "mid d \<notin> pv_seen (v s) \<Longrightarrow> pv_peers (v s) \<noteq> [] \<Longrightarrow>
      \<exists>s'. sw_publish (sy_swarm E) s t d = (Inr (), s') \<and>
        v s' = (v s)\<lparr>pv_seen := insert (mid d) (pv_seen (v s)),
          pv_out := pv_out (v s) @ map (\<lambda>p. (p, Gossip t d)) (pv_peers (v s))\<rparr>"
    and publish_seen: "mid d \<in> pv_seen (v s) \<Longrightarrow>
      \<exists>e s'. sw_publish (sy_swarm E) s t d = (Inl e, s') \<and> v s' = v s"
    and next_none: "tr_next (sy_transport E) s = None \<Longrightarrow> pv_news (v s) = []"
    and next_some: "tr_next (sy_transport E) s = Some (e, s') \<Longrightarrow> backlog s' < backlog s \<and>
      (if harmless e then v s' = v s
       else \<exists>es. pv_news (v s) = e # es \<and>
         v s' = (v s)\<lparr>pv_news := es, pv_addrs := pv_addrs (v s) @ new_addrs e\<rparr>)"
    and send_none: "pv_out (v s) = [] \<Longrightarrow> tr_send (sy_transport E) s = None"
    and send_some: "pv_out (v s) = (p, pk) # out \<Longrightarrow>
      \<exists>s'. tr_send (sy_transport E) s = Some (p, pk, s') \<and> v s' = (v s)\<lparr>pv_out := out\<rparr>"
    and receive_connect: "v (tr_receive (sy_transport E) s p Connect) =
      (v s)\<lparr>pv_peers := pv_peers (v s) @ [p], pv_out := pv_out (v s) @ [(p, Accept)]\<rparr>"
    and receive_accept: "v (tr_receive (sy_transport E) s p Accept) =
      (v s)\<lparr>pv_peers := pv_peers (v s) @ [p],
        pv_news := pv_news (v s) @ [ConnectionEstablished p True]\<rparr>"
    and receive_new: "mid d \<notin> pv_seen (v s) \<Longrightarrow> v (tr_receive (sy_transport E) s p (Gossip t d)) =
      (v s)\<lparr>pv_seen := insert (mid d) (pv_seen (v s)),
        pv_news := pv_news (v s) @ [GossipMessage t d],
        pv_out := pv_out (v s) @ map (\<lambda>q. (q, Gossip t d)) (filter (\<lambda>q. q \<noteq> p) (pv_peers (v s)))\<rparr>"
    and receive_seen: "mid d \<in> pv_seen (v s) \<Longrightarrow>
      v (tr_receive (sy_transport E) s p (Gossip t d)) = v s"
    and txs_codec: "sw_txs_decode (sy_swarm E) (sw_txs_encode (sy_swarm E) txs) = Inr txs"

section \<open>Pictures\<close>

record picture =
  pi_headers :: header_map
  pi_pool :: pool_tx
  pi_view :: peer_view
  pi_cmds :: "network_provider_message list"
  pi_sent :: "chain_network_event list"
  pi_recv :: "chain_network_event list"
  pi_reqs :: "net_fut list"
  pi_dial :: "peer_id \<rightharpoonup> handle"
  pi_listen :: "listener_id \<rightharpoonup> handle"
  pi_chans :: chans

definition picture_of ::
  "ext \<Rightarrow> ('db \<Rightarrow> tables) \<Rightarrow> ('s \<Rightarrow> peer_view) \<Rightarrow> ('db, 's, 'i) node \<Rightarrow> picture" where
  "picture_of X stored v n = \<lparr>pi_headers = headers_of X (stored (no_db n)),
     pi_pool = cn_pool (no_manager n), pi_view = v (swarm_of n), pi_cmds = commands (no_world n),
     pi_sent = event_sender (no_network n), pi_recv = event_recv (no_manager n),
     pi_reqs = broadcast_requests (no_manager n), pi_dial = pending_dial (no_network n),
     pi_listen = pending_listening (no_network n), pi_chans = channels (no_world n)\<rparr>"

text \<open>What holds of the nodes of a test all the time: there is no synchronisation going on.\<close>

definition node_sound ::
  "ext \<Rightarrow> ('db \<Rightarrow> bool) \<Rightarrow> ('db \<Rightarrow> tables) \<Rightarrow> ('db, 's, 'i) node \<Rightarrow> bool" where
  "node_sound X db_ok stored n \<longleftrightarrow> db_ok (no_db n) \<and> wf_tables X (stored (no_db n)) \<and>
     command_open (no_world n) \<and> event_open (no_network n) \<and>
     incoming_peer_requests (no_network n) = [] \<and> sync_requests (no_manager n) = [] \<and>
     closest_peers_request_for_sync (no_manager n) = None"

text \<open>The turns that have something to do.\<close>

fun wakes :: "turn \<Rightarrow> picture \<Rightarrow> bool" where
  "wakes (Command i) P \<longleftrightarrow> pi_cmds P \<noteq> []"
| "wakes (Event i) P \<longleftrightarrow> pv_news (pi_view P) \<noteq> []"
| "wakes (Deliver i) P \<longleftrightarrow> pi_sent P \<noteq> []"
| "wakes (Manage i) P \<longleftrightarrow> pi_recv P \<noteq> [] \<or>
     (\<exists>f \<in> set (pi_reqs P). poll_unit_fut (pi_chans P) f \<noteq> Ret Pending)"
| "wakes (Carry i) P \<longleftrightarrow> pv_out (pi_view P) \<noteq> []"
| "wakes (Answer i k) P \<longleftrightarrow> False"
| "wakes (Timer i) P \<longleftrightarrow> False"

definition triggered :: "turn \<Rightarrow> picture list \<Rightarrow> bool" where
  "triggered t Ps \<longleftrightarrow> turn_node t < length Ps \<and> wakes t (Ps ! turn_node t)"

lemma all_pending:
  assumes "\<forall>f \<in> set q. poll_unit_fut (channels w) f = Ret Pending"
  shows "poll_broadcasts (network_provider pick) q w = Ret (q, w)"
  using assms by (subst poll_broadcasts.simps) (simp add: np_poll_broadcasts_def pick_ready_def)

context connected_swarms
begin

abbreviation pic :: "('db, 's, 'i) node \<Rightarrow> picture" where
  "pic \<equiv> picture_of (sy_ext E) stored v"

abbreviation sound :: "('db, 's, 'i) node \<Rightarrow> bool" where
  "sound \<equiv> node_sound (sy_ext E) db_ok stored"

section \<open>Turns with nothing to do\<close>

lemma idle_command: "pi_cmds (pic n) = [] \<Longrightarrow> network_turn E NextCommand n = Ret n"
  by (simp add: network_turn_def picture_of_def)

lemma idle_answer: "sound n \<Longrightarrow> network_turn E (PeerAnswer k) n = Ret n"
  by (simp add: network_turn_def node_sound_def)

lemma idle_timer:
  "\<exists>n'. network_turn E Tick n = Ret n' \<and> (sound n \<longrightarrow> sound n') \<and> pic n' = pic n"
  by (simp add: network_turn_def node_sound_def picture_of_def bootstrap)

lemma idle_deliver: "pi_sent (pic n) = [] \<Longrightarrow> deliver_turn n = n"
  by (simp add: deliver_turn_def picture_of_def)

lemma idle_manage:
  assumes "sound n" and "pi_recv (pic n) = []"
    and "\<forall>f \<in> set (pi_reqs (pic n)). poll_unit_fut (pi_chans (pic n)) f = Ret Pending"
  shows "\<exists>n'. manage_turn E n = Ret n' \<and> sound n' \<and> pic n' = pic n"
proof -
  let ?st = "(no_manager n)\<lparr>cn_chain := no_db n\<rparr>"
  have "chain_net_poll (node_deps (sy_ext E) (sy_redb E) (sy_pick E) (sy_woken E)) ?st (no_world n) =
      Ret (Pending, ?st\<lparr>broadcast_requests := broadcast_requests ?st\<rparr>, no_world n)"
    by (rule idle_poll [where es = "[]" and ?st1.0 = ?st and ?w1.0 = "no_world n"])
      (use assms in \<open>simp_all add: node_sound_def picture_of_def all_pending\<close>)
  then show ?thesis
    using assms(1) by (simp add: manage_turn_def node_sound_def picture_of_def)
qed

lemma event_turn_cases:
  assumes "sound n"
  obtains (none) "tr_next (sy_transport E) (swarm_of n) = None" "event_turn E n = Ret n"
      "pv_news (v (swarm_of n)) = []"
    | (ignored) n' where "event_turn E n = Ret n'" "sound n'" "pic n' = pic n"
      "backlog (swarm_of n') < backlog (swarm_of n)"
    | (news) e es s where "pv_news (v (swarm_of n)) = e # es" "\<not> harmless e"
      "event_turn E n = network_turn E (SwarmEvent s e) n"
      "v s = (v (swarm_of n))\<lparr>pv_news := es, pv_addrs := pv_addrs (v (swarm_of n)) @ new_addrs e\<rparr>"
proof (cases "tr_next (sy_transport E) (swarm_of n)")
  case None
  with none next_none show thesis by (simp add: event_turn_def)
next
  case (Some es)
  then obtain e s where e: "tr_next (sy_transport E) (swarm_of n) = Some (e, s)" by (cases es) auto
  note law = next_some [OF e]
  show thesis
  proof (cases "harmless e")
    case True
    let ?n = "n\<lparr>no_network := (no_network n)\<lparr>nm_swarm := s\<rparr>\<rparr>"
    have "event_turn E n = Ret ?n"
      by (simp add: event_turn_def e network_turn_def harmless_ignored [OF True])
    moreover have "sound ?n" "pic ?n = pic n" "backlog (swarm_of ?n) < backlog (swarm_of n)"
      using law True assms by (simp_all add: node_sound_def picture_of_def)
    ultimately show thesis by (rule ignored)
  next
    case False
    with law news [of e] show thesis by (auto simp: event_turn_def e)
  qed
qed

end


section \<open>Turns with something to do\<close>

text \<open>What is spread by gossip: a header or a list of transactions.\<close>

datatype gossip = NewHeader header | NewTransactions "transaction list"

fun gossip_topic :: "gossip \<Rightarrow> topic" where
  "gossip_topic (NewHeader h) = BLOCK_HEADER"
| "gossip_topic (NewTransactions txs) = TRANSACTIONS"

fun gossip_bytes :: "('db, 'txn, 's, 'i) system \<Rightarrow> gossip \<Rightarrow> bytes" where
  "gossip_bytes E (NewHeader h) = header_encode (sy_ext E) h"
| "gossip_bytes E (NewTransactions txs) = sw_txs_encode (sy_swarm E) txs"

fun gossip_event :: "gossip \<Rightarrow> chain_network_event" where
  "gossip_event (NewHeader h) = IncomingNewBlockHeader h"
| "gossip_event (NewTransactions txs) = IncomingTransactions txs"

fun gossip_command :: "gossip \<Rightarrow> handle \<Rightarrow> network_provider_message" where
  "gossip_command (NewHeader h) k = BroadcastBlockHeader h k"
| "gossip_command (NewTransactions txs) k = BroadcastTransactions k txs"

text \<open>What a node makes of it, if a header is a child of its tip.\<close>

fun adopt :: "gossip \<Rightarrow> picture \<Rightarrow> picture" where
  "adopt (NewHeader h) P = P\<lparr>pi_headers := (pi_headers P)(number h \<mapsto> h)\<rparr>"
| "adopt (NewTransactions txs) P = P\<lparr>pi_pool := snd (add_transactions (pi_pool P) txs)\<rparr>"

fun adoptable :: "ext \<Rightarrow> gossip \<Rightarrow> header_map \<Rightarrow> bool" where
  "adoptable X (NewHeader h) m \<longleftrightarrow> add_spec (overflow_checks X) (chain_genesis X) m h =
     Ret (Inr ExtendTip, m(number h \<mapsto> h))"
| "adoptable X (NewTransactions txs) m \<longleftrightarrow> True"

text \<open>A channel that was just opened, and the channels after an answer.\<close>

definition fresh_chan :: chan where
  "fresh_chan = \<lparr>sent = None, tx_alive = True, rx_alive = True, asked = None\<rparr>"

definition answered :: "handle \<Rightarrow> reply \<Rightarrow> chans \<Rightarrow> chans" where
  "answered k r cs = cs[k := (cs ! k)\<lparr>sent := Some r, tx_alive := False\<rparr>]"

lemma answered_last:
  "answered (length cs) r (cs @ [fresh_chan]) = cs @ [fresh_chan\<lparr>sent := Some r, tx_alive := False\<rparr>]"
  by (simp add: answered_def)

lemma poll_fresh:
  "poll_unit_fut (cs @ [fresh_chan]) (BroadcastFut (length cs)) = Ret Pending"
  by (simp add: poll_receiver_def fresh_chan_def)

lemma poll_answered:
  assumes "k < length cs"
  shows "poll_unit_fut (answered k (UnitReply r) cs) (BroadcastFut k) = Ret (Ready r)"
    and "poll_unit_fut (answered k (UnitReply r) cs) (ListenFut k) = Ret (Ready r)"
    and "poll_unit_fut (answered k (UnitReply r) cs) (DialFut k) = Ret (Ready r)"
    and "poll_addrs_fut (answered k (AddrsReply q) cs) (AddrsFut k) = Ready q"
  using assms by (simp_all add: answered_def poll_receiver_def)

lemma answer_to_answered:
  assumes "k < length (channels w)" and "rx_alive (channels w ! k)"
  shows "answer_to msg k r w = Ret (w\<lparr>channels := answered k r (channels w)\<rparr>)"
  using assms by (simp add: answer_to_def oneshot_send_def answered_def)

abbreviation can_answer :: "handle \<Rightarrow> picture \<Rightarrow> bool" where
  "can_answer k P \<equiv> k < length (pi_chans P) \<and> rx_alive (pi_chans P ! k)"

context connected_swarms
begin

subsection \<open>Commands\<close>

lemma listen_command:
  assumes "sound n" and "pi_cmds (pic n) = [StartListening ''/ip4/0.0.0.0/tcp/0'' k]"
    and "pi_listen (pic n) = Map.empty"
  shows "\<exists>l a n'. network_turn E NextCommand n = Ret n' \<and> sound n' \<and>
    pic n' = (pic n)\<lparr>pi_cmds := [], pi_listen := [l \<mapsto> k],
      pi_view := (pi_view (pic n))\<lparr>pv_news := pv_news (pi_view (pic n)) @ [NewListenAddr l a]\<rparr>\<rparr>"
proof -
  obtain l a s where l: "sw_listen_on (sy_swarm E) (swarm_of n) ''/ip4/0.0.0.0/tcp/0'' = (Inr l, s)"
    "v s = (v (swarm_of n))\<lparr>pv_news := pv_news (v (swarm_of n)) @ [NewListenAddr l a]\<rparr>"
    using listen by blast
  with assms show ?thesis
    by (intro exI [of _ l] exI [of _ a])
      (simp add: network_turn_def picture_of_def node_sound_def drop_old_def)
qed

lemma addrs_command:
  assumes "sound n" and "pi_cmds (pic n) = [ListenAddrs k]" and "can_answer k (pic n)"
  shows "\<exists>n'. network_turn E NextCommand n = Ret n' \<and> sound n' \<and>
    pic n' = (pic n)\<lparr>pi_cmds := [],
      pi_chans := answered k (AddrsReply (Inr (pv_addrs (pi_view (pic n))))) (pi_chans (pic n))\<rparr>"
  using assms by (simp add: network_turn_def picture_of_def node_sound_def answer_to_answered listeners)

lemma dial_command:
  assumes "sound n" and "pi_cmds (pic n) = [Dial p a k]" and "pi_dial (pic n) = Map.empty"
    and "a \<in> set (pv_addrs (v r))" and "p = pv_id (v r)" and "p \<noteq> pv_id (pi_view (pic n))"
  shows "\<exists>n'. network_turn E NextCommand n = Ret n' \<and> sound n' \<and>
    pic n' = (pic n)\<lparr>pi_cmds := [], pi_dial := [p \<mapsto> k],
      pi_view := (pi_view (pic n))\<lparr>pv_out := pv_out (pi_view (pic n)) @ [(p, Connect)]\<rparr>\<rparr>"
proof -
  obtain s where "sw_dial (sy_swarm E) (swarm_of n) (sw_with_p2p (sy_swarm E) a p) = (Inr (), s)"
    "v s = (v (swarm_of n))\<lparr>pv_out := pv_out (v (swarm_of n)) @ [(p, Connect)]\<rparr>"
    using dial [OF assms(4), of "swarm_of n"] assms(5,6) by (auto simp: picture_of_def)
  with assms show ?thesis
    by (simp add: network_turn_def picture_of_def node_sound_def add_address)
qed

lemma gossip_published:
  "handle_command (sy_ext E) (sy_swarm E) nm w (gossip_command g k) =
    publish_and_answer (sy_swarm E) nm w (gossip_topic g) (gossip_bytes E g) k"
  by (cases g) simp_all

lemma publish_command:
  assumes "sound n" and "pi_cmds (pic n) = [gossip_command g k]" and "can_answer k (pic n)"
    and "mid (gossip_bytes E g) \<notin> pv_seen (pi_view (pic n))" and "pv_peers (pi_view (pic n)) \<noteq> []"
  shows "\<exists>n'. network_turn E NextCommand n = Ret n' \<and> sound n' \<and>
    pic n' = (pic n)\<lparr>pi_cmds := [], pi_chans := answered k (UnitReply (Inr ())) (pi_chans (pic n)),
      pi_view := (pi_view (pic n))\<lparr>
        pv_seen := insert (mid (gossip_bytes E g)) (pv_seen (pi_view (pic n))),
        pv_out := pv_out (pi_view (pic n)) @
          map (\<lambda>p. (p, Gossip (gossip_topic g) (gossip_bytes E g))) (pv_peers (pi_view (pic n)))\<rparr>\<rparr>"
proof -
  obtain s where "sw_publish (sy_swarm E) (swarm_of n) (gossip_topic g) (gossip_bytes E g) = (Inr (), s)"
    "v s = (v (swarm_of n))\<lparr>pv_seen := insert (mid (gossip_bytes E g)) (pv_seen (v (swarm_of n))),
      pv_out := pv_out (v (swarm_of n)) @
        map (\<lambda>p. (p, Gossip (gossip_topic g) (gossip_bytes E g))) (pv_peers (v (swarm_of n)))\<rparr>"
    using publish_new [of "gossip_bytes E g" "swarm_of n" "gossip_topic g"] assms(4,5)
    by (auto simp: picture_of_def)
  with assms show ?thesis
    by (simp add: network_turn_def picture_of_def node_sound_def gossip_published
        publish_and_answer_def answer_to_answered)
qed

lemma duplicate_command:
  assumes "sound n" and "pi_cmds (pic n) = [gossip_command g k]" and "can_answer k (pic n)"
    and "mid (gossip_bytes E g) \<in> pv_seen (pi_view (pic n))"
  shows "\<exists>e n'. network_turn E NextCommand n = Ret n' \<and> sound n' \<and>
    pic n' = (pic n)\<lparr>pi_cmds := [], pi_chans := answered k (UnitReply (Inl e)) (pi_chans (pic n))\<rparr>"
proof -
  obtain e s where "sw_publish (sy_swarm E) (swarm_of n) (gossip_topic g) (gossip_bytes E g) = (Inl e, s)"
    "v s = v (swarm_of n)"
    using publish_seen [of "gossip_bytes E g" "swarm_of n" "gossip_topic g"] assms(4)
    by (auto simp: picture_of_def)
  with assms show ?thesis
    by (intro exI [of _ "PublishError e"]) (simp add: network_turn_def picture_of_def node_sound_def
        gossip_published publish_and_answer_def answer_to_answered)
qed

subsection \<open>Events\<close>

abbreviation quieter :: "('db, 's, 'i) node \<Rightarrow> ('db, 's, 'i) node \<Rightarrow> bool" where
  "quieter n n' \<equiv> pic n' = pic n \<and> backlog (swarm_of n') < backlog (swarm_of n)"

lemma listen_event:
  assumes "sound n" and "pv_news (pi_view (pic n)) = [NewListenAddr l a]"
    and "pi_listen (pic n) = [l \<mapsto> k]" and "can_answer k (pic n)"
  shows "\<exists>n'. event_turn E n = Ret n' \<and> sound n' \<and> (quieter n n' \<or>
    pic n' = (pic n)\<lparr>pi_listen := Map.empty,
      pi_chans := answered k (UnitReply (Inr ())) (pi_chans (pic n)), pi_view := (pi_view (pic n))\<lparr>
        pv_news := [], pv_addrs := pv_addrs (pi_view (pic n)) @ [a]\<rparr>\<rparr>)"
  using assms(1)
proof (cases rule: event_turn_cases)
  case (news e es s)
  with assms show ?thesis
    by (auto simp: network_turn_def picture_of_def node_sound_def answer_to_answered)
qed (use assms in \<open>auto simp: picture_of_def\<close>)

lemma dial_event:
  assumes "sound n" and "pv_news (pi_view (pic n)) = [ConnectionEstablished p True]"
    and "pi_dial (pic n) = [p \<mapsto> k]" and "can_answer k (pic n)"
  shows "\<exists>n'. event_turn E n = Ret n' \<and> sound n' \<and> (quieter n n' \<or>
    pic n' = (pic n)\<lparr>pi_dial := Map.empty,
      pi_chans := answered k (UnitReply (Inr ())) (pi_chans (pic n)),
      pi_view := (pi_view (pic n))\<lparr>pv_news := []\<rparr>\<rparr>)"
  using assms(1)
proof (cases rule: event_turn_cases)
  case (news e es s)
  with assms show ?thesis
    by (auto simp: network_turn_def picture_of_def node_sound_def answer_dial_def answer_to_answered)
qed (use assms in \<open>auto simp: picture_of_def\<close>)

lemma gossip_handled:
  assumes "event_open nm"
  shows "handle_gossipsub_message (sy_ext E) (sy_swarm E) nm (gossip_topic g) (gossip_bytes E g) =
    Ret (nm\<lparr>event_sender := event_sender nm @ [gossip_event g]\<rparr>)"
  using assms by (cases g) (simp_all add: handle_gossipsub_message_def decode_encode txs_codec)

lemma gossip_event_turn:
  assumes "sound n"
    and "pv_news (pi_view (pic n)) = [GossipMessage (gossip_topic g) (gossip_bytes E g)]"
  shows "\<exists>n'. event_turn E n = Ret n' \<and> sound n' \<and> (quieter n n' \<or>
    pic n' = (pic n)\<lparr>pi_sent := pi_sent (pic n) @ [gossip_event g],
      pi_view := (pi_view (pic n))\<lparr>pv_news := []\<rparr>\<rparr>)"
  using assms(1)
proof (cases rule: event_turn_cases)
  case (news e es s)
  with assms show ?thesis
    by (auto simp: network_turn_def picture_of_def node_sound_def gossip_handled)
qed (use assms in \<open>auto simp: picture_of_def\<close>)

subsection \<open>The chain manager\<close>

lemma delivered:
  assumes "sound n" and "pi_sent (pic n) = [e]"
  shows "sound (deliver_turn n) \<and>
    pic (deliver_turn n) = (pic n)\<lparr>pi_sent := [], pi_recv := pi_recv (pic n) @ [e]\<rparr>"
  using assms by (simp add: deliver_turn_def picture_of_def node_sound_def)

text \<open>The manager adopts what another node published, and broadcasts it in its turn.\<close>

lemma adopt_event:
  fixes n :: "('db, 's, 'i) node" and g :: gossip
  defines "D \<equiv> node_deps (sy_ext E) (sy_redb E) (sy_pick E) (sy_woken E)"
    and "st \<equiv> (no_manager n)\<lparr>cn_chain := no_db n\<rparr>" and "k \<equiv> length (channels (no_world n))"
    and "w \<equiv> (no_world n)\<lparr>commands := commands (no_world n) @ [gossip_command g (length (channels (no_world n)))],
      channels := channels (no_world n) @ [fresh_chan]\<rparr>"
  assumes ok: "sound n" and recv: "pi_recv (pic n) = [gossip_event g]" and reqs: "pi_reqs (pic n) = []"
    and fits: "adoptable (sy_ext E) g (pi_headers (pic n))"
  shows "\<exists>db. db_ok db \<and> wf_tables (sy_ext E) (stored db) \<and>
    headers_of (sy_ext E) (stored db) = pi_headers (adopt g (pic n)) \<and>
    poll_events D (event_recv st) st (no_world n) = Ret (st\<lparr>cn_chain := db, event_recv := [],
      cn_pool := pi_pool (adopt g (pic n)), broadcast_requests := [BroadcastFut k]\<rparr>, w)"
proof (cases g)
  case (NewHeader h)
  have "np_broadcast_block_header (no_world n) h = Ret (BroadcastFut k, w)"
    using ok by (simp add: NewHeader np_broadcast_block_header_def oneshot_channel_def
        send_command_def fresh_chan_def node_sound_def w_def k_def)
  with rbt.new_header_result [of D "st\<lparr>event_recv := []\<rparr>" "no_world n" h "BroadcastFut k" w
      "Inr ExtendTip"] ok recv reqs fits NewHeader
  obtain db where "db_ok db" "wf_tables (sy_ext E) (stored db)"
    "headers_of (sy_ext E) (stored db) = pi_headers (adopt g (pic n))"
    "on_new_header D (st\<lparr>event_recv := []\<rparr>) (no_world n) h = Ret (st\<lparr>event_recv := [], cn_chain := db,
      broadcast_requests := [BroadcastFut k]\<rparr>, w)"
    by (auto simp: picture_of_def node_sound_def D_def st_def)
  with recv NewHeader show ?thesis by (intro exI [of _ db]) (simp add: picture_of_def st_def)
next
  case (NewTransactions txs)
  have "np_broadcast_transactions (no_world n) txs = Ret (BroadcastFut k, w)"
    using ok by (simp add: NewTransactions np_broadcast_transactions_def oneshot_channel_def
        send_command_def fresh_chan_def node_sound_def w_def k_def)
  with ok recv reqs NewTransactions show ?thesis
    by (intro exI [of _ "no_db n"]) (simp add: picture_of_def node_sound_def D_def st_def split: prod.splits)
qed

lemma manage_adopts:
  assumes ok: "sound n" and recv: "pi_recv (pic n) = [gossip_event g]" and reqs: "pi_reqs (pic n) = []"
    and fits: "adoptable (sy_ext E) g (pi_headers (pic n))"
  shows "\<exists>n'. manage_turn E n = Ret n' \<and> sound n' \<and>
    pic n' = (adopt g (pic n))\<lparr>pi_recv := [],
      pi_reqs := [BroadcastFut (length (pi_chans (pic n)))],
      pi_cmds := pi_cmds (pic n) @ [gossip_command g (length (pi_chans (pic n)))],
      pi_chans := pi_chans (pic n) @ [fresh_chan]\<rparr>"
proof -
  let ?D = "node_deps (sy_ext E) (sy_redb E) (sy_pick E) (sy_woken E)"
  let ?st = "(no_manager n)\<lparr>cn_chain := no_db n\<rparr>" and ?w = "no_world n"
  let ?k = "length (channels ?w)"
  let ?w1 = "?w\<lparr>commands := commands ?w @ [gossip_command g ?k],
    channels := channels ?w @ [fresh_chan]\<rparr>"
  obtain db where db: "db_ok db" "wf_tables (sy_ext E) (stored db)"
      "headers_of (sy_ext E) (stored db) = pi_headers (adopt g (pic n))"
    and p: "poll_events ?D (event_recv ?st) ?st ?w = Ret (?st\<lparr>cn_chain := db, event_recv := [],
        cn_pool := pi_pool (adopt g (pic n)), broadcast_requests := [BroadcastFut ?k]\<rparr>, ?w1)"
    using adopt_event [OF assms] by blast
  let ?st1 = "?st\<lparr>cn_chain := db, event_recv := [],
    cn_pool := pi_pool (adopt g (pic n)), broadcast_requests := [BroadcastFut ?k]\<rparr>"
  have "chain_net_poll ?D ?st ?w = Ret (Pending, ?st1\<lparr>broadcast_requests := [BroadcastFut ?k]\<rparr>, ?w1)"
    by (rule idle_poll [OF refl _ _ p])
      (use ok in \<open>simp_all add: node_sound_def no_ready_broadcast poll_fresh del: poll_unit_fut.simps\<close>)
  then have "manage_turn E n = Ret (n\<lparr>no_db := db, no_manager := ?st1, no_world := ?w1\<rparr>)"
    by (simp add: manage_turn_def)
  then show ?thesis
    using db ok by (cases g) (simp_all add: picture_of_def node_sound_def)
qed

lemma manage_answered:
  assumes "sound n" and "pi_recv (pic n) = []" and "pi_reqs (pic n) = [f]"
    and "poll_unit_fut (pi_chans (pic n)) f = Ret (Ready r)"
  shows "\<exists>n'. manage_turn E n = Ret n' \<and> sound n' \<and> pic n' = (pic n)\<lparr>pi_reqs := []\<rparr>"
proof -
  let ?st = "(no_manager n)\<lparr>cn_chain := no_db n\<rparr>"
  have "chain_net_poll (node_deps (sy_ext E) (sy_redb E) (sy_pick E) (sy_woken E)) ?st (no_world n) =
      Ret (Pending, ?st\<lparr>broadcast_requests := []\<rparr>, no_world n)"
    by (rule idle_poll [where es = "[]" and ?st1.0 = ?st and ?w1.0 = "no_world n"])
      (use assms in \<open>simp_all add: node_sound_def picture_of_def ready_broadcast\<close>)
  then show ?thesis
    using assms(1) by (simp add: manage_turn_def node_sound_def picture_of_def)
qed

end


section \<open>Turns of a cluster\<close>

fun receive_view :: "(bytes \<Rightarrow> string) \<Rightarrow> peer_id \<Rightarrow> packet \<Rightarrow> peer_view \<Rightarrow> peer_view" where
  "receive_view mid p Connect w =
     w\<lparr>pv_peers := pv_peers w @ [p], pv_out := pv_out w @ [(p, Accept)]\<rparr>"
| "receive_view mid p Accept w =
     w\<lparr>pv_peers := pv_peers w @ [p], pv_news := pv_news w @ [ConnectionEstablished p True]\<rparr>"
| "receive_view mid p (Gossip t d) w =
     (if mid d \<in> pv_seen w then w
      else w\<lparr>pv_seen := insert (mid d) (pv_seen w), pv_news := pv_news w @ [GossipMessage t d],
        pv_out := pv_out w @ map (\<lambda>q. (q, Gossip t d)) (filter (\<lambda>q. q \<noteq> p) (pv_peers w))\<rparr>)"

definition receive_picture ::
  "(bytes \<Rightarrow> string) \<Rightarrow> peer_id \<Rightarrow> peer_id \<Rightarrow> packet \<Rightarrow> picture \<Rightarrow> picture" where
  "receive_picture mid from to pk P =
     (if pv_id (pi_view P) = to then P\<lparr>pi_view := receive_view mid from pk (pi_view P)\<rparr> else P)"

definition sent_picture :: "picture \<Rightarrow> picture" where
  "sent_picture P = P\<lparr>pi_view := (pi_view P)\<lparr>pv_out := tl (pv_out (pi_view P))\<rparr>\<rparr>"

context connected_swarms
begin

abbreviation pics :: "('db, 's, 'i) cluster \<Rightarrow> picture list" where
  "pics c \<equiv> map pic c"

lemma received: "v (tr_receive (sy_transport E) s p pk) = receive_view mid p pk (v s)"
  by (cases pk) (simp_all add: receive_connect receive_accept receive_new receive_seen)

lemma pic_swarm:
  "pic (set_swarm s n) = (pic n)\<lparr>pi_view := v s\<rparr>" "sound (set_swarm s n) = sound n"
  "swarm_of (set_swarm s n) = s"
  by (simp_all add: set_swarm_def picture_of_def node_sound_def)

lemma pic_view: "pi_view (pic n) = v (swarm_of n)"
  by (simp add: picture_of_def)

lemma carried:
  assumes "list_all sound c" and i: "i < length c"
    and out: "pv_out (pi_view (pic (c ! i))) = (to, pk) # out"
  shows "\<exists>c'. cluster_step E (Carry i) c = Ret c' \<and> list_all sound c' \<and>
    pics c' = map (receive_picture mid (pv_id (pi_view (pic (c ! i)))) to pk)
      ((pics c)[i := sent_picture (pic (c ! i))])"
proof -
  obtain s where s: "tr_send (sy_transport E) (swarm_of (c ! i)) = Some (to, pk, s)"
    "v s = (v (swarm_of (c ! i)))\<lparr>pv_out := out\<rparr>"
    using send_some [of "swarm_of (c ! i)"] out by (auto simp: picture_of_def)
  have rec: "pic (receive_at E q to pk n) = receive_picture mid q to pk (pic n)"
    "sound (receive_at E q to pk n) = sound n" for q n
    by (simp_all add: receive_at_def receive_picture_def pic_swarm pic_view local_peer received)
  have "pic (set_swarm s (c ! i)) = sent_picture (pic (c ! i))"
    using s(2) out by (simp add: pic_swarm sent_picture_def pic_view)
  then show ?thesis
    using assms(1) i s(1)
    by (simp add: cluster_step_def carry_turn_def rec map_update local_peer pic_view list.pred_map o_def
        list_all_length nth_list_update pic_swarm)
qed

lemma step_at_node:
  assumes "list_all sound c" and "turn_node t < length c" and "\<And>i. t \<noteq> Carry i"
    and "node_turn E t (c ! turn_node t) = Ret n'" and "sound n'"
  shows "\<exists>c'. cluster_step E t c = Ret c' \<and> list_all sound c' \<and>
    pics c' = (pics c)[turn_node t := pic n'] \<and> c' = c[turn_node t := n']"
  using assms
  by (cases t) (auto simp: cluster_step_def map_update list_all_length nth_list_update)

lemma idle_node_turn:
  assumes "sound n" and "\<not> wakes t (pic n)"
  shows "\<exists>n'. node_turn E t n = Ret n' \<and> sound n' \<and> pic n' = pic n"
proof (cases t)
  case (Event i)
  from assms(1) show ?thesis
  proof (cases rule: event_turn_cases)
    case (news e es s)
    with assms(2) Event show ?thesis by (simp add: picture_of_def)
  qed (use assms(1) Event in auto)
qed (use assms idle_command [of n] idle_answer [of n] idle_timer [of n] idle_deliver [of n]
    idle_manage [of n] in auto)

lemma idle_turn:
  assumes ok: "list_all sound c" and idle: "\<not> triggered t (pics c)"
  shows "\<exists>c'. cluster_step E t c = Ret c' \<and> list_all sound c' \<and> pics c' = pics c"
proof (cases "turn_node t < length c")
  case i: True
  then have n: "sound (c ! turn_node t)" "\<not> wakes t (pic (c ! turn_node t))"
    using ok idle by (simp_all add: list_all_length triggered_def)
  show ?thesis
  proof (cases "\<exists>i. t = Carry i")
    case True
    then have "carry_turn E (turn_node t) c = c"
      using n(2) send_none [of "swarm_of (c ! turn_node t)"] by (auto simp: carry_turn_def pic_view)
    with True ok i show ?thesis by (auto simp: cluster_step_def)
  next
    case False
    from idle_node_turn [OF n] obtain n' where "node_turn E t (c ! turn_node t) = Ret n'" "sound n'"
      "pic n' = pic (c ! turn_node t)" by blast
    with step_at_node [OF ok i] False i show ?thesis by (metis length_map list_update_id nth_map)
  qed
qed (use ok in \<open>simp add: cluster_step_def\<close>)

lemma quiet_not_triggered:
  assumes "list_all (node_quiet (sy_transport E)) c"
  shows "\<not> triggered t (pics c)"
proof -
  have out: "pv_out (v s) = []" if "tr_send (sy_transport E) s = None" for s
    using that send_some [of s] by (cases "pv_out (v s)") auto
  show ?thesis
    using assms
    by (cases t) (auto simp: triggered_def list_all_length node_quiet_def picture_of_def next_none out)
qed

abbreviation noise :: "('db, 's, 'i) cluster \<Rightarrow> nat" where
  "noise c \<equiv> sum_list (map (\<lambda>n. backlog (swarm_of n)) c)"

lemma noise_update:
  assumes "i < length c" and "backlog (swarm_of n) < backlog (swarm_of (c ! i))"
  shows "noise (c[i := n]) < noise c"
  using assms
proof (induction c arbitrary: i)
  case (Cons m c)
  then show ?case by (cases i) auto
qed simp

lemma noise_turn:
  assumes ok: "list_all sound c" and idle: "\<And>t. \<not> triggered t (pics c)"
    and reqs: "\<forall>P \<in> set (pics c). pi_reqs P = []"
    and busy: "\<not> list_all (node_quiet (sy_transport E)) c"
  shows "\<exists>t c'. cluster_step E t c = Ret c' \<and> list_all sound c' \<and> pics c' = pics c \<and> noise c' < noise c"
proof -
  obtain i where i: "i < length c" "\<not> node_quiet (sy_transport E) (c ! i)"
    using busy by (auto simp: list_all_length)
  have "commands (no_world (c ! i)) = []" "event_sender (no_network (c ! i)) = []"
    "event_recv (no_manager (c ! i)) = []" "pv_out (v (swarm_of (c ! i))) = []"
    "pv_news (v (swarm_of (c ! i))) = []" "broadcast_requests (no_manager (c ! i)) = []"
    using idle [of "Command i"] idle [of "Deliver i"] idle [of "Manage i"] idle [of "Carry i"]
      idle [of "Event i"] i(1) reqs by (simp_all add: triggered_def picture_of_def)
  then have n: "tr_next (sy_transport E) (swarm_of (c ! i)) \<noteq> None" "pv_news (v (swarm_of (c ! i))) = []"
    using i(2) send_none [of "swarm_of (c ! i)"] by (auto simp: node_quiet_def)
  have "sound (c ! i)" using ok i(1) by (simp add: list_all_length)
  then obtain n' where n': "event_turn E (c ! i) = Ret n'" "sound n'" "pic n' = pic (c ! i)"
    "backlog (swarm_of n') < backlog (swarm_of (c ! i))"
    by (cases rule: event_turn_cases) (use n in auto)
  have "(pics c)[i := pic (c ! i)] = pics c" using i(1) by (metis length_map list_update_id nth_map)
  with step_at_node [of c "Event i" n'] ok i(1) n' noise_update [OF i(1) n'(4)]
  show ?thesis by (intro exI [of _ "Event i"]) auto
qed

text \<open>
  A phase of a test: an invariant \<open>J m\<close> of the pictures, with a number \<open>m\<close> that every turn with
  something to do decreases. A tireless scheduler gets to its end, where nothing is left to
  do, and no task panics.
\<close>

lemma phase_settles:
  fixes J :: "nat \<Rightarrow> picture list \<Rightarrow> bool"
  assumes ok: "list_all sound c" and J: "J m (pics c)"
    and step: "\<And>c t m. list_all sound c \<Longrightarrow> J m (pics c) \<Longrightarrow> triggered t (pics c) \<Longrightarrow>
      \<exists>c'. cluster_step E t c = Ret c' \<and> list_all sound c' \<and>
        (pics c' = pics c \<and> noise c' < noise c \<or> (\<exists>m' < m. J m' (pics c')))"
    and reqs: "\<And>Ps m. J m Ps \<Longrightarrow> (\<And>t. \<not> triggered t Ps) \<Longrightarrow> \<forall>P \<in> set Ps. pi_reqs P = []"
  shows "\<exists>ts. settles E ts c"
  using ok J
proof (induction "(m, noise c)" arbitrary: m c rule: wf_induct_rule
    [OF wf_lex_prod [OF wf_measure [of "\<lambda>n :: nat. n"] wf_measure [of "\<lambda>n :: nat. n"]]])
  case less: 1
  have smaller: "\<exists>ts. settles E ts c" if "cluster_step E t c = Ret c'" "list_all sound c'" "J m' (pics c')"
    "m' < m \<or> m' = m \<and> noise c' < noise c" for t c' m'
  proof -
    from less.hyps [OF _ that(2,3)] that(4) obtain ts where "settles E ts c'" by auto
    then have "settles E (t # ts) c" using that(1) by (simp add: settles_def)
    then show ?thesis by blast
  qed
  show ?case
  proof (cases "\<exists>t. triggered t (pics c)")
    case True
    with step [OF less.prems] smaller less.prems(2) show ?thesis by (metis (no_types, lifting))
  next
    case False
    then have r: "\<forall>P \<in> set (pics c). pi_reqs P = []" using reqs [OF less.prems(2)] by blast
    show ?thesis
    proof (cases "list_all (node_quiet (sy_transport E)) c")
      case True
      then have "settles E [] c" by (simp add: settles_def)
      then show ?thesis by blast
    next
      case busy: False
      from noise_turn [OF less.prems(1) _ r busy] False smaller less.prems(2) show ?thesis
        by (metis (no_types, lifting))
    qed
  qed
qed

lemma phase_ends:
  fixes J :: "nat \<Rightarrow> picture list \<Rightarrow> bool"
  assumes tireless: "tireless E sched" and ok: "list_all sound c" and J: "J m (pics c)"
    and step: "\<And>c t m. list_all sound c \<Longrightarrow> J m (pics c) \<Longrightarrow> triggered t (pics c) \<Longrightarrow>
      \<exists>c'. cluster_step E t c = Ret c' \<and> list_all sound c' \<and>
        (pics c' = pics c \<and> noise c' < noise c \<or> (\<exists>m' < m. J m' (pics c')))"
    and reqs: "\<And>Ps m. J m Ps \<Longrightarrow> (\<And>t. \<not> triggered t Ps) \<Longrightarrow> \<forall>P \<in> set Ps. pi_reqs P = []"
  shows "\<exists>c' m. run_turns E (sched c) c = Ret c' \<and> list_all sound c' \<and> J m (pics c') \<and>
    (\<forall>t. \<not> triggered t (pics c'))"
proof -
  have any: "\<exists>c' m. cluster_step E t c = Ret c' \<and> list_all sound c' \<and> J m (pics c')"
    if "list_all sound c" "J m (pics c)" for c t m
    using step [OF that, of t] idle_turn [OF that(1), of t] that(2) by (metis (no_types, lifting))
  have run: "\<exists>c' m. run_turns E ts c = Ret c' \<and> list_all sound c' \<and> J m (pics c')"
    if "list_all sound c" "J m (pics c)" for ts c m
    using that
  proof (induction ts arbitrary: c m)
    case (Cons t ts)
    from any [OF Cons.prems, of t] Cons.IH show ?case by (metis obind_Ret run_turns.simps(2))
  qed auto
  have "\<exists>ts. settles E ts c" by (rule phase_settles [OF ok J step reqs])
  then have "settles E (sched c) c" using tireless by (auto simp: tireless_def)
  moreover obtain c' m' where c': "run_turns E (sched c) c = Ret c'" "list_all sound c'" "J m' (pics c')"
    using run [OF ok J] by blast
  ultimately have "list_all (node_quiet (sy_transport E)) c'" by (simp add: settles_def)
  from quiet_not_triggered [OF this] c' show ?thesis by blast
qed

lemma node_step:
  assumes "list_all sound c" and "turn_node t < length c" and "\<And>i. t \<noteq> Carry i"
    and "\<exists>n'. node_turn E t (c ! turn_node t) = Ret n' \<and> sound n' \<and>
      (quieter (c ! turn_node t) n' \<or> Q (pic n'))"
  shows "\<exists>c'. cluster_step E t c = Ret c' \<and> list_all sound c' \<and>
    (pics c' = pics c \<and> noise c' < noise c \<or> (\<exists>P. Q P \<and> pics c' = (pics c)[turn_node t := P]))"
proof -
  from assms(4) obtain n' where n': "node_turn E t (c ! turn_node t) = Ret n'" "sound n'"
    "quieter (c ! turn_node t) n' \<or> Q (pic n')" by blast
  from step_at_node [OF assms(1-3) n'(1,2)] n'(3) noise_update [OF assms(2), of n'] assms(2)
  show ?thesis by (metis (no_types, lifting) length_map list_update_id nth_map)
qed

end

end
