(* ===== verification/Cluster_Connect.thy ===== *)
theory Cluster_Connect
  imports Cluster_Phases
begin

text \<open>
  The phases in which a test sets its nodes up: a node starts to listen, tells its addresses,
  and connects to another one. Each starts and ends with all nodes calm.
\<close>

definition calm :: "picture \<Rightarrow> bool" where
  "calm P \<longleftrightarrow> pi_cmds P = [] \<and> pi_sent P = [] \<and> pi_recv P = [] \<and> pi_reqs P = [] \<and>
     pi_dial P = Map.empty \<and> pi_listen P = Map.empty \<and>
     pv_news (pi_view P) = [] \<and> pv_out (pi_view P) = []"

lemma calm_cases:
  assumes "calm P"
  obtains hs pool p as ps sn cs where "P = \<lparr>pi_headers = hs, pi_pool = pool,
    pi_view = \<lparr>pv_id = p, pv_addrs = as, pv_peers = ps, pv_seen = sn, pv_news = [], pv_out = []\<rparr>,
    pi_cmds = [], pi_sent = [], pi_recv = [], pi_reqs = [], pi_dial = Map.empty,
    pi_listen = Map.empty, pi_chans = cs\<rparr>"
  using assms by (cases P; cases "pi_view P") (auto simp: calm_def)

lemma calm_sleeps: "calm P \<Longrightarrow> \<not> wakes t P"
  by (cases t) (auto simp: calm_def)

lemma triggered_at:
  assumes "triggered t (Bs[i := P])" and "list_all calm Bs" and "i < length Bs"
  shows "turn_node t = i" and "wakes t P"
proof -
  show i: "turn_node t = i"
    using assms calm_sleeps [of "Bs ! turn_node t" t]
    by (cases "turn_node t = i") (auto simp: triggered_def list_all_length)
  then show "wakes t P" using assms(1,3) by (simp add: triggered_def)
qed

abbreviation ids :: "picture list \<Rightarrow> peer_id list" where
  "ids Ps \<equiv> map (\<lambda>P. pv_id (pi_view P)) Ps"

lemma receive_one:
  assumes "distinct (ids Ps)" and "j < length Ps" and "pv_id (pi_view (Ps ! j)) = to"
  shows "map (receive_picture mid q to pk) Ps =
    Ps[j := (Ps ! j)\<lparr>pi_view := receive_view mid q pk (pi_view (Ps ! j))\<rparr>]"
proof (rule nth_equalityI)
  fix i
  assume "i < length (map (receive_picture mid q to pk) Ps)"
  then show "map (receive_picture mid q to pk) Ps ! i =
      Ps[j := (Ps ! j)\<lparr>pi_view := receive_view mid q pk (pi_view (Ps ! j))\<rparr>] ! i"
    using assms nth_eq_iff_index_eq [OF assms(1), of i j]
    by (auto simp: receive_picture_def nth_list_update)
qed simp

context connected_swarms
begin

lemma fresh_alive [simp]: "rx_alive fresh_chan"
  by (simp add: fresh_chan_def)

lemma pic_at:
  assumes "pics c = Bs[i := P]" and "i < length Bs"
  shows "i < length c" and "pic (c ! i) = P"
proof -
  show i: "i < length c" using arg_cong [OF assms(1), of length] assms(2) by simp
  show "pic (c ! i) = P" using arg_cong [OF assms(1), of "\<lambda>xs. xs ! i"] assms(2) i by simp
qed

lemma sound_at: "list_all sound c \<Longrightarrow> i < length c \<Longrightarrow> sound (c ! i)"
  by (simp add: list_all_length)

text \<open>Only the node at \<open>i\<close> has something to do, and does not send packets.\<close>

lemma solo_phase:
  fixes S :: "nat \<Rightarrow> picture \<Rightarrow> bool"
  assumes tireless: "tireless E sched" and ok: "list_all sound c" and calm: "list_all calm Bs"
    and i: "i < length Bs" and c: "pics c = Bs[i := P]" and S: "S m P"
    and step: "\<And>n t m. sound n \<Longrightarrow> S m (pic n) \<Longrightarrow> wakes t (pic n) \<Longrightarrow>
      (\<exists>n'. node_turn E t n = Ret n' \<and> sound n' \<and> (quieter n n' \<or> (\<exists>m' < m. S m' (pic n'))))"
    and silent: "\<And>m P. S m P \<Longrightarrow> pv_out (pi_view P) = [] \<and> pi_reqs P = []"
  shows "\<exists>c' P m. run_turns E (sched c) c = Ret c' \<and> list_all sound c' \<and> pics c' = Bs[i := P] \<and>
    S m P \<and> (\<forall>t. turn_node t = i \<longrightarrow> \<not> wakes t P)"
proof -
  let ?J = "\<lambda>m Ps. \<exists>P. Ps = Bs[i := P] \<and> S m P"
  have "\<exists>c' m. run_turns E (sched c) c = Ret c' \<and> list_all sound c' \<and> ?J m (pics c') \<and>
      (\<forall>t. \<not> triggered t (pics c'))"
  proof (rule phase_ends [OF tireless ok, of ?J m])
    show "?J m (pics c)" using c S by blast
  next
    fix c :: "('db, 's, 'i) cluster" and t m
    assume ok: "list_all sound c" and "?J m (pics c)" and t: "triggered t (pics c)"
    then obtain P where P: "pics c = Bs[i := P]" "S m P" by blast
    note at = pic_at [OF P(1) i] and trig = triggered_at [OF t [unfolded P(1)] calm i]
    have "t \<noteq> Carry j" for j using trig(2) silent [OF P(2)] by auto
    with node_step [of c t "\<lambda>P. \<exists>m' < m. S m' P"] step [of "c ! i" m t] sound_at [OF ok at(1)]
      ok P(2) at trig obtain c' where c': "cluster_step E t c = Ret c'" "list_all sound c'"
      "pics c' = pics c \<and> noise c' < noise c \<or>
        (\<exists>P. (\<exists>m' < m. S m' P) \<and> pics c' = (pics c)[i := P])" by auto
    then show "\<exists>c'. cluster_step E t c = Ret c' \<and> list_all sound c' \<and>
        (pics c' = pics c \<and> noise c' < noise c \<or> (\<exists>m' < m. ?J m' (pics c')))"
      using P(1) by (intro exI [of _ c']) auto
  next
    fix Ps m
    assume "?J m Ps"
    then show "\<forall>P \<in> set Ps. pi_reqs P = []"
      using calm silent by (auto simp: calm_def list.pred_set dest!: set_update_subset_insert [THEN subsetD])
  qed
  then show ?thesis using i by (fastforce simp: triggered_def)
qed

lemma calm_phase:
  assumes "tireless E sched" and "list_all sound c" and "list_all calm (pics c)"
  shows "\<exists>c'. run_turns E (sched c) c = Ret c' \<and> list_all sound c' \<and> pics c' = pics c"
proof -
  have calm: "\<not> triggered t (pics c)" for t
    using assms(3) calm_sleeps [of "pics c ! turn_node t" t]
    by (auto simp: list_all_length triggered_def)
  have "\<exists>c' m. run_turns E (sched c) c = Ret c' \<and> list_all sound c' \<and> (m = (0::nat) \<and> pics c' = pics c) \<and>
      (\<forall>t. \<not> triggered t (pics c'))"
    by (rule phase_ends [where J = "\<lambda>m Ps. m = 0 \<and> Ps = pics c", OF assms(1,2)])
      (use calm assms(3) in \<open>auto simp: calm_def list.pred_set\<close>)
  then show ?thesis by blast
qed

text \<open>A node that waits for an answer on a new channel, and one that has got it.\<close>

abbreviation asking :: "network_provider_message list \<Rightarrow> picture \<Rightarrow> picture" where
  "asking cmds B \<equiv> B\<lparr>pi_cmds := cmds, pi_chans := pi_chans B @ [fresh_chan]\<rparr>"

abbreviation told :: "reply \<Rightarrow> picture \<Rightarrow> picture" where
  "told r B \<equiv> B\<lparr>pi_chans := answered (length (pi_chans B)) r (pi_chans B @ [fresh_chan])\<rparr>"

abbreviation listen_queued :: "picture \<Rightarrow> picture" where
  "listen_queued B \<equiv> asking [StartListening ''/ip4/0.0.0.0/tcp/0'' (length (pi_chans B))] B"

abbreviation listen_taken :: "picture \<Rightarrow> listener_id \<Rightarrow> multiaddr \<Rightarrow> picture" where
  "listen_taken B l a \<equiv> (asking [] B)\<lparr>pi_listen := [l \<mapsto> length (pi_chans B)],
     pi_view := (pi_view B)\<lparr>pv_news := [NewListenAddr l a]\<rparr>\<rparr>"

abbreviation listen_done :: "picture \<Rightarrow> multiaddr \<Rightarrow> picture" where
  "listen_done B a \<equiv> (told (UnitReply (Inr ())) B)\<lparr>pi_view :=
     (pi_view B)\<lparr>pv_addrs := pv_addrs (pi_view B) @ [a]\<rparr>\<rparr>"

text \<open>The pictures of a node that starts to listen, by the number of turns that are left.\<close>

abbreviation listening :: "picture \<Rightarrow> nat \<Rightarrow> picture \<Rightarrow> bool" where
  "listening B m P \<equiv> m = 2 \<and> P = listen_queued B \<or> m = 1 \<and> (\<exists>l a. P = listen_taken B l a) \<or>
     m = 0 \<and> (\<exists>a. P = listen_done B a)"

lemma listen_taken_step:
  assumes ok: "sound n" and B: "calm B" and P: "pic n = listen_queued B"
  shows "\<exists>l a n'. network_turn E NextCommand n = Ret n' \<and> sound n' \<and> pic n' = listen_taken B l a"
proof -
  let ?k = "length (pi_chans B)"
  obtain l a n' where n': "network_turn E NextCommand n = Ret n'" "sound n'"
    and p: "pic n' = (pic n)\<lparr>pi_cmds := [], pi_listen := [l \<mapsto> ?k], pi_view :=
      (pi_view (pic n))\<lparr>pv_news := pv_news (pi_view (pic n)) @ [NewListenAddr l a]\<rparr>\<rparr>"
    using listen_command [OF ok, of ?k] B P by (auto simp: calm_def)
  have "pic n' = listen_taken B l a" unfolding p P by (cases rule: calm_cases [OF B]) simp
  with n' show ?thesis by blast
qed

lemma listen_done_step:
  assumes ok: "sound n" and B: "calm B" and P: "pic n = listen_taken B l a"
  shows "\<exists>n'. event_turn E n = Ret n' \<and> sound n' \<and> (quieter n n' \<or> pic n' = listen_done B a)"
proof -
  let ?k = "length (pi_chans B)"
  obtain n' where n': "event_turn E n = Ret n'" "sound n'"
    and p: "quieter n n' \<or> pic n' = (pic n)\<lparr>pi_listen := Map.empty,
      pi_chans := answered ?k (UnitReply (Inr ())) (pi_chans (pic n)),
      pi_view := (pi_view (pic n))\<lparr>pv_news := [], pv_addrs := pv_addrs (pi_view (pic n)) @ [a]\<rparr>\<rparr>"
    using listen_event [OF ok, of l a ?k] B P by (auto simp: calm_def)
  have "quieter n n' \<or> pic n' = listen_done B a"
    using p unfolding P by (cases rule: calm_cases [OF B]) simp
  with n' show ?thesis by blast
qed

lemma listening_step:
  assumes ok: "sound n" and B: "calm B" and P: "listening B m (pic n)" and wakes: "wakes t (pic n)"
  shows "\<exists>n'. node_turn E t n = Ret n' \<and> sound n' \<and> (quieter n n' \<or> (\<exists>m' < m. listening B m' (pic n')))"
proof -
  from P consider "m = 2" "pic n = listen_queued B" | l a where "m = 1" "pic n = listen_taken B l a"
    | a where "pic n = listen_done B a" by blast
  then show ?thesis
  proof cases
    case 1
    then obtain j where t: "t = Command j" using wakes B by (cases t) (auto simp: calm_def)
    obtain l a n' where "network_turn E NextCommand n = Ret n'" "sound n'" "pic n' = listen_taken B l a"
      using listen_taken_step [OF ok B 1(2)] by blast
    moreover from this have "\<exists>m' < m. listening B m' (pic n')" using 1(1) by (intro exI [of _ 1]) auto
    ultimately show ?thesis using t by auto
  next
    case 2
    then obtain j where t: "t = Event j" using wakes B by (cases t) (auto simp: calm_def)
    obtain n' where "event_turn E n = Ret n'" "sound n'" "quieter n n' \<or> pic n' = listen_done B a"
      using listen_done_step [OF ok B 2(2)] by blast
    moreover from this have "quieter n n' \<or> (\<exists>m' < m. listening B m' (pic n'))" using 2(1) by auto
    ultimately show ?thesis using t by auto
  next
    case 3
    then show ?thesis using wakes B by (cases t) (auto simp: calm_def)
  qed
qed

lemma listen_phase:
  assumes tireless: "tireless E sched" and ok: "list_all sound c" and calm: "list_all calm Bs"
    and i: "i < length Bs" and B: "calm B" and c: "pics c = Bs[i := listen_queued B]"
  shows "\<exists>c' a. run_turns E (sched c) c = Ret c' \<and> list_all sound c' \<and> pics c' = Bs[i := listen_done B a]"
proof -
  have "\<exists>c' P m. run_turns E (sched c) c = Ret c' \<and> list_all sound c' \<and> pics c' = Bs[i := P] \<and>
      listening B m P \<and> (\<forall>t. turn_node t = i \<longrightarrow> \<not> wakes t P)"
  proof (rule solo_phase [OF tireless ok calm i c, of "listening B" 2])
    show "\<exists>n'. node_turn E t n = Ret n' \<and> sound n' \<and> (quieter n n' \<or> (\<exists>m' < m. listening B m' (pic n')))"
      if "sound n" "listening B m (pic n)" "wakes t (pic n)" for n t m
      using that by (intro listening_step [OF _ B])
  qed (use B in \<open>auto simp: calm_def\<close>)
  then obtain c' P m where c': "run_turns E (sched c) c = Ret c'" "list_all sound c'" "pics c' = Bs[i := P]"
    "listening B m P" and quiet: "\<And>t. turn_node t = i \<Longrightarrow> \<not> wakes t P" by blast
  from c'(4) quiet [of "Command i"] quiet [of "Event i"] obtain a where "P = listen_done B a" by auto
  with c'(1-3) show ?thesis by (intro exI [of _ c'] exI [of _ a]) simp
qed

lemma addrs_phase:
  assumes tireless: "tireless E sched" and ok: "list_all sound c" and calm: "list_all calm Bs"
    and i: "i < length Bs" and B: "calm B"
    and c: "pics c = Bs[i := asking [ListenAddrs (length (pi_chans B))] B]"
  shows "\<exists>c'. run_turns E (sched c) c = Ret c' \<and> list_all sound c' \<and>
    pics c' = Bs[i := told (AddrsReply (Inr (pv_addrs (pi_view B)))) B]"
proof -
  let ?k = "length (pi_chans B)"
  let ?P = "asking [ListenAddrs ?k] B" and ?R = "told (AddrsReply (Inr (pv_addrs (pi_view B)))) B"
  let ?S = "\<lambda>m P. m = (1::nat) \<and> P = ?P \<or> m = 0 \<and> P = ?R"
  obtain hs pool p as ps sn cs where B': "B = \<lparr>pi_headers = hs, pi_pool = pool,
    pi_view = \<lparr>pv_id = p, pv_addrs = as, pv_peers = ps, pv_seen = sn, pv_news = [], pv_out = []\<rparr>,
    pi_cmds = [], pi_sent = [], pi_recv = [], pi_reqs = [], pi_dial = Map.empty,
    pi_listen = Map.empty, pi_chans = cs\<rparr>" using B by (rule calm_cases)
  have "\<exists>c' P m. run_turns E (sched c) c = Ret c' \<and> list_all sound c' \<and> pics c' = Bs[i := P] \<and>
      ?S m P \<and> (\<forall>t. turn_node t = i \<longrightarrow> \<not> wakes t P)"
  proof (rule solo_phase [OF tireless ok calm i c, of ?S 1])
    fix n :: "('db, 's, 'i) node" and t m
    assume ok: "sound n" and "?S m (pic n)" and wakes: "wakes t (pic n)"
    then consider "m = 1" "pic n = ?P" | "pic n = ?R" by blast
    then show "\<exists>n'. node_turn E t n = Ret n' \<and> sound n' \<and> (quieter n n' \<or> (\<exists>m' < m. ?S m' (pic n')))"
    proof cases
      case 1
      then obtain j where t: "t = Command j" using wakes B' by (cases t) auto
      obtain n' where n': "network_turn E NextCommand n = Ret n'" "sound n'"
        and p: "pic n' = (pic n)\<lparr>pi_cmds := [], pi_chans :=
          answered ?k (AddrsReply (Inr (pv_addrs (pi_view (pic n))))) (pi_chans (pic n))\<rparr>"
        using addrs_command [OF ok, of ?k] B' 1 by auto
      have "pic n' = ?R" unfolding p 1 B' by simp
      then have "\<exists>m' < m. ?S m' (pic n')" using 1(1) by auto
      with n' t show ?thesis by auto
    next
      case 2
      then show ?thesis using wakes B' by (cases t) auto
    qed
  qed (use B' in auto)
  then obtain c' P m where c': "run_turns E (sched c) c = Ret c'" "list_all sound c'" "pics c' = Bs[i := P]"
    "?S m P" and quiet: "\<And>t. turn_node t = i \<Longrightarrow> \<not> wakes t P" by blast
  from c'(4) quiet [of "Command i"] have "P = ?R" by auto
  with c'(1-3) show ?thesis by (intro exI [of _ c']) simp
qed

text \<open>Two nodes connect: \<open>i\<close> dials \<open>j\<close>.\<close>

lemma triggered_at2:
  assumes "triggered t (Bs[i := P, j := Q])" and "list_all calm Bs" and "i < length Bs" and "j < length Bs"
    and "i \<noteq> j"
  shows "turn_node t = i \<and> wakes t P \<or> turn_node t = j \<and> wakes t Q"
  using assms calm_sleeps [of "Bs ! turn_node t" t]
  by (cases "turn_node t = i"; cases "turn_node t = j") (auto simp: triggered_def list_all_length)

lemma update_again: "i \<noteq> j \<Longrightarrow> xs[i := P, j := Q, i := R] = xs[i := R, j := Q]"
  by (simp add: list_update_swap [of i j])

lemma chain_phase:
  fixes Z :: "nat \<Rightarrow> picture list"
  assumes tireless: "tireless E sched" and ok: "list_all sound c" and c: "pics c = Z len"
    and step: "\<And>c t m. list_all sound c \<Longrightarrow> pics c = Z m \<Longrightarrow> m \<le> len \<Longrightarrow> triggered t (Z m) \<Longrightarrow>
      0 < m \<and> (\<exists>c'. cluster_step E t c = Ret c' \<and> list_all sound c' \<and>
        (pics c' = pics c \<and> noise c' < noise c \<or> pics c' = Z (m - 1)))"
    and busy: "\<And>m. 0 < m \<Longrightarrow> m \<le> len \<Longrightarrow> \<exists>t. triggered t (Z m)"
    and reqs: "\<And>m P. m \<le> len \<Longrightarrow> P \<in> set (Z m) \<Longrightarrow> pi_reqs P = []"
  shows "\<exists>c'. run_turns E (sched c) c = Ret c' \<and> list_all sound c' \<and> pics c' = Z 0"
proof -
  let ?J = "\<lambda>m Ps. m \<le> len \<and> Ps = Z m"
  have "\<exists>c' m. run_turns E (sched c) c = Ret c' \<and> list_all sound c' \<and> ?J m (pics c') \<and>
      (\<forall>t. \<not> triggered t (pics c'))"
  proof (rule phase_ends [OF tireless ok, of ?J len])
    fix c :: "('db, 's, 'i) cluster" and t m
    assume c: "list_all sound c" "?J m (pics c)" and t: "triggered t (pics c)"
    from step [OF c(1)] t c(2) obtain c' where c': "0 < m" "cluster_step E t c = Ret c'" "list_all sound c'"
      "pics c' = pics c \<and> noise c' < noise c \<or> pics c' = Z (m - 1)" by metis
    have "m - 1 < m" "m - 1 \<le> len" using c'(1) c(2) by linarith+
    with c'(4) have "pics c' = pics c \<and> noise c' < noise c \<or> (\<exists>m' < m. ?J m' (pics c'))" by blast
    with c'(2,3) show "\<exists>c'. cluster_step E t c = Ret c' \<and> list_all sound c' \<and>
      (pics c' = pics c \<and> noise c' < noise c \<or> (\<exists>m' < m. ?J m' (pics c')))" by blast
  qed (use c reqs in auto)
  then show ?thesis using busy by (metis gr0I)
qed

end

text \<open>The pictures of the two, by the number of turns that are left.\<close>

fun dial_stage :: "multiaddr \<Rightarrow> picture \<Rightarrow> picture \<Rightarrow> nat \<Rightarrow> picture \<times> picture" where
  "dial_stage a Bi Bj m =
     (let k = length (pi_chans Bi); u = pi_view Bi; w = pi_view Bj; p = pv_id w;
          P = Bi\<lparr>pi_chans := pi_chans Bi @ [fresh_chan], pi_dial := [p \<mapsto> k]\<rparr>;
          w' = w\<lparr>pv_peers := pv_peers w @ [pv_id u]\<rparr>;
          u' = u\<lparr>pv_peers := pv_peers u @ [p]\<rparr> in
      if m = 0 then (Bi\<lparr>pi_view := u', pi_chans :=
          answered k (UnitReply (Inr ())) (pi_chans Bi @ [fresh_chan])\<rparr>, Bj\<lparr>pi_view := w'\<rparr>)
      else if m = 1 then
        (P\<lparr>pi_view := u'\<lparr>pv_news := [ConnectionEstablished p True]\<rparr>\<rparr>, Bj\<lparr>pi_view := w'\<rparr>)
      else if m = 2 then (P, Bj\<lparr>pi_view := w'\<lparr>pv_out := [(pv_id u, Accept)]\<rparr>\<rparr>)
      else if m = 3 then (P\<lparr>pi_view := u\<lparr>pv_out := [(p, Connect)]\<rparr>\<rparr>, Bj)
      else (Bi\<lparr>pi_cmds := [Dial p a k], pi_chans := pi_chans Bi @ [fresh_chan]\<rparr>, Bj))"

declare dial_stage.simps [simp del]

abbreviation dial_stages :: "multiaddr \<Rightarrow> picture list \<Rightarrow> nat \<Rightarrow> nat \<Rightarrow> nat \<Rightarrow> picture list" where
  "dial_stages a Bs i j m \<equiv> Bs[i := fst (dial_stage a (Bs ! i) (Bs ! j) m),
     j := snd (dial_stage a (Bs ! i) (Bs ! j) m)]"

lemma dial_stage_ids:
  "pv_id (pi_view (fst (dial_stage a Bi Bj m))) = pv_id (pi_view Bi)"
  "pv_id (pi_view (snd (dial_stage a Bi Bj m))) = pv_id (pi_view Bj)"
  by (simp_all add: dial_stage.simps Let_def)

lemma dial_wakes:
  assumes "calm Bi" and "calm Bj" and "m \<le> 4"
  shows "wakes t (fst (dial_stage a Bi Bj m)) \<Longrightarrow>
      m = 4 \<and> (\<exists>n. t = Command n) \<or> m = 3 \<and> (\<exists>n. t = Carry n) \<or> m = 1 \<and> (\<exists>n. t = Event n)"
    and "wakes t (snd (dial_stage a Bi Bj m)) \<Longrightarrow> m = 2 \<and> (\<exists>n. t = Carry n)"
  using assms
  by (cases t; auto simp: dial_stage.simps Let_def calm_def split: if_splits)+

context connected_swarms
begin

abbreviation dialling ::
  "multiaddr \<Rightarrow> picture list \<Rightarrow> nat \<Rightarrow> nat \<Rightarrow> nat \<Rightarrow> ('db, 's, 'i) cluster \<Rightarrow> bool" where
  "dialling a Bs i j m c \<equiv> list_all sound c \<and> pics c = dial_stages a Bs i j m \<and> list_all calm Bs \<and>
     i < length Bs \<and> j < length Bs \<and> i \<noteq> j \<and> distinct (ids Bs) \<and> a \<in> set (pv_addrs (pi_view (Bs ! j)))"

abbreviation dial_moves ::
  "multiaddr \<Rightarrow> picture list \<Rightarrow> nat \<Rightarrow> nat \<Rightarrow> nat \<Rightarrow> turn \<Rightarrow> ('db, 's, 'i) cluster \<Rightarrow> bool" where
  "dial_moves a Bs i j m t c \<equiv> \<exists>c'. cluster_step E t c = Ret c' \<and> list_all sound c' \<and>
     (pics c' = pics c \<and> noise c' < noise c \<or> pics c' = dial_stages a Bs i j m)"

lemma dialling_at:
  assumes "dialling a Bs i j m c"
  shows "length c = length Bs" and "pic (c ! i) = fst (dial_stage a (Bs ! i) (Bs ! j) m)"
    and "pic (c ! j) = snd (dial_stage a (Bs ! i) (Bs ! j) m)" and "sound (c ! i)" and "sound (c ! j)"
    and "calm (Bs ! i)" and "calm (Bs ! j)" and "pv_id (pi_view (Bs ! j)) \<noteq> pv_id (pi_view (Bs ! i))"
proof -
  have c: "pics c = dial_stages a Bs i j m" using assms by blast
  show len: "length c = length Bs" using arg_cong [OF c, of length] by simp
  have ij: "i < length Bs" "j < length Bs" "i \<noteq> j" using assms by blast+
  show "pic (c ! i) = fst (dial_stage a (Bs ! i) (Bs ! j) m)"
    "pic (c ! j) = snd (dial_stage a (Bs ! i) (Bs ! j) m)"
    using arg_cong [OF c, of "\<lambda>xs. xs ! i"] arg_cong [OF c, of "\<lambda>xs. xs ! j"] ij len by simp_all
  show "pv_id (pi_view (Bs ! j)) \<noteq> pv_id (pi_view (Bs ! i))"
    using nth_eq_iff_index_eq [of "ids Bs" i j] assms by simp
  show "sound (c ! i)" "sound (c ! j)" using assms len by (simp_all add: list_all_length)
  show "calm (Bs ! i)" "calm (Bs ! j)" using assms by (simp_all add: list_all_length)
qed

lemma dialling_ids:
  assumes "dialling a Bs i j m c"
    and "pv_id (pi_view P) = pv_id (pi_view (Bs ! i))" "pv_id (pi_view Q) = pv_id (pi_view (Bs ! j))"
  shows "distinct (ids (Bs[i := P, j := Q]))"
proof -
  have "ids (Bs[i := P, j := Q]) = ids Bs"
    using assms by (auto simp: list_eq_iff_nth_eq nth_list_update)
  with assms(1) show ?thesis by simp
qed

lemma dial_own_turn:
  assumes d: "dialling a Bs i j (Suc m) c" and t: "turn_node t = i" "\<And>n. t \<noteq> Carry n"
    and same: "snd (dial_stage a (Bs ! i) (Bs ! j) m) = snd (dial_stage a (Bs ! i) (Bs ! j) (Suc m))"
    and n': "\<exists>n'. node_turn E t (c ! i) = Ret n' \<and> sound n' \<and>
      (quieter (c ! i) n' \<or> pic n' = fst (dial_stage a (Bs ! i) (Bs ! j) m))"
  shows "dial_moves a Bs i j m t c"
proof -
  let ?P = "fst (dial_stage a (Bs ! i) (Bs ! j) m)"
  have "pics c = dial_stages a Bs i j (Suc m)" "i \<noteq> j" using d by blast+
  then have "(pics c)[i := ?P] = dial_stages a Bs i j m" unfolding same by (simp add: update_again)
  with node_step [of c t "\<lambda>P. P = ?P"] t n' d dialling_at(1) [OF d] show ?thesis by auto
qed

lemma dial_carry_turn:
  assumes d: "dialling a Bs i j (Suc m) c" and n: "n < length Bs"
    and out: "pv_out (pi_view (pic (c ! n))) = [(to, pk)]"
    and moved: "map (receive_picture mid (pv_id (pi_view (pic (c ! n)))) to pk)
      ((pics c)[n := sent_picture (pic (c ! n))]) = dial_stages a Bs i j m"
  shows "dial_moves a Bs i j m (Carry n) c"
  using carried [OF _ _ out] d n moved dialling_at(1) [OF d] by auto

lemma dial_sent:
  assumes d: "dialling a Bs i j 4 c" and t: "turn_node t = i" "\<exists>n. t = Command n"
  shows "dial_moves a Bs i j 3 t c"
proof (rule dial_own_turn [OF _ t(1)])
  note at = dialling_at [OF d]
  let ?p = "pv_id (pi_view (Bs ! j))" and ?k = "length (pi_chans (Bs ! i))" and ?P = "pic (c ! i)"
  have P: "?P = (Bs ! i)\<lparr>pi_cmds := [Dial ?p a ?k], pi_chans := pi_chans (Bs ! i) @ [fresh_chan]\<rparr>"
    unfolding at(2) by (simp add: dial_stage.simps Let_def)
  have "v (swarm_of (c ! j)) = pi_view (Bs ! j)"
    unfolding pic_view [symmetric] at(3) by (simp add: dial_stage.simps Let_def)
  then have "a \<in> set (pv_addrs (v (swarm_of (c ! j))))" "?p = pv_id (v (swarm_of (c ! j)))"
    "?p \<noteq> pv_id (pi_view ?P)" "pi_cmds ?P = [Dial ?p a ?k]" "pi_dial ?P = Map.empty"
    using d at(6,8) P by (simp_all add: calm_def)
  then obtain n' where n': "network_turn E NextCommand (c ! i) = Ret n'" "sound n'"
    and p: "pic n' = ?P\<lparr>pi_cmds := [], pi_dial := [?p \<mapsto> ?k], pi_view :=
      (pi_view ?P)\<lparr>pv_out := pv_out (pi_view ?P) @ [(?p, Connect)]\<rparr>\<rparr>"
    using dial_command [OF at(4)] by blast
  have "pic n' = fst (dial_stage a (Bs ! i) (Bs ! j) 3)"
    unfolding p P using at(6) by (simp add: dial_stage.simps Let_def calm_def)
  with n' t(2) show "\<exists>n'. node_turn E t (c ! i) = Ret n' \<and> sound n' \<and>
      (quieter (c ! i) n' \<or> pic n' = fst (dial_stage a (Bs ! i) (Bs ! j) 3))" by auto
qed (use d t(2) in \<open>auto simp: dial_stage.simps Let_def\<close>)

lemma dial_requested:
  assumes d: "dialling a Bs i j 3 c"
  shows "dial_moves a Bs i j 2 (Carry i) c"
proof (rule dial_carry_turn)
  note at = dialling_at [OF d]
  let ?D = "dial_stage a (Bs ! i) (Bs ! j)" and ?p = "pv_id (pi_view (Bs ! i))" and ?q = "pv_id (pi_view (Bs ! j))"
  let ?Ps = "Bs[i := sent_picture (fst (?D 3)), j := snd (?D 3)]"
  have out: "sent_picture (fst (?D 3)) = fst (?D 2)"
    using at(6,7) by (simp add: dial_stage.simps Let_def sent_picture_def calm_def)
  show "pv_out (pi_view (pic (c ! i))) = [(?q, Connect)]" unfolding at(2) by (simp add: dial_stage.simps Let_def)
  have "(pics c)[i := sent_picture (pic (c ! i))] = ?Ps"
    unfolding at(2) using d by (simp add: update_again)
  moreover have "map (receive_picture mid ?p ?q Connect) ?Ps =
      ?Ps[j := (?Ps ! j)\<lparr>pi_view := receive_view mid ?p Connect (pi_view (?Ps ! j))\<rparr>]"
    using d by (intro receive_one dialling_ids [OF d]) (simp_all add: dial_stage_ids out)
  moreover have "(?Ps ! j)\<lparr>pi_view := receive_view mid ?p Connect (pi_view (?Ps ! j))\<rparr> = snd (?D 2)"
    using d at(7) by (simp add: dial_stage.simps Let_def calm_def)
  ultimately show "map (receive_picture mid (pv_id (pi_view (pic (c ! i)))) ?q Connect)
      ((pics c)[i := sent_picture (pic (c ! i))]) = dial_stages a Bs i j 2"
    by (simp add: at(2) dial_stage_ids out)
qed (use d in simp_all)

lemma dial_accepted:
  assumes d: "dialling a Bs i j 2 c"
  shows "dial_moves a Bs i j 1 (Carry j) c"
proof (rule dial_carry_turn [where m = 1])
  note at = dialling_at [OF d]
  let ?D = "dial_stage a (Bs ! i) (Bs ! j)" and ?p = "pv_id (pi_view (Bs ! i))" and ?q = "pv_id (pi_view (Bs ! j))"
  let ?Ps = "Bs[i := fst (?D 2), j := sent_picture (snd (?D 2))]"
  have out: "sent_picture (snd (?D 2)) = snd (?D 1)"
    using at(6,7) by (simp add: dial_stage.simps Let_def sent_picture_def calm_def)
  show "pv_out (pi_view (pic (c ! j))) = [(?p, Accept)]" unfolding at(3) by (simp add: dial_stage.simps Let_def)
  have "(pics c)[j := sent_picture (pic (c ! j))] = ?Ps"
    unfolding at(3) using d by simp
  moreover have "map (receive_picture mid ?q ?p Accept) ?Ps =
      ?Ps[i := (?Ps ! i)\<lparr>pi_view := receive_view mid ?q Accept (pi_view (?Ps ! i))\<rparr>]"
    using d by (intro receive_one dialling_ids [OF d]) (simp_all add: dial_stage_ids out)
  moreover have "(?Ps ! i)\<lparr>pi_view := receive_view mid ?q Accept (pi_view (?Ps ! i))\<rparr> = fst (?D 1)"
    using d at(6) by (simp add: dial_stage.simps Let_def calm_def)
  ultimately show "map (receive_picture mid (pv_id (pi_view (pic (c ! j)))) ?p Accept)
      ((pics c)[j := sent_picture (pic (c ! j))]) = dial_stages a Bs i j 1"
    using d by (simp add: at(3) dial_stage_ids out update_again)
qed (use d in \<open>simp_all add: numeral_2_eq_2\<close>)

lemma dial_done:
  assumes d: "dialling a Bs i j 1 c" and t: "turn_node t = i" "\<exists>n. t = Event n"
  shows "dial_moves a Bs i j 0 t c"
proof (rule dial_own_turn [OF _ t(1)])
  note at = dialling_at [OF d]
  have "\<exists>n'. event_turn E (c ! i) = Ret n' \<and> sound n' \<and>
      (quieter (c ! i) n' \<or> pic n' = fst (dial_stage a (Bs ! i) (Bs ! j) 0))"
    using dial_event [OF at(4), of "pv_id (pi_view (Bs ! j))" "length (pi_chans (Bs ! i))"] at(2)
    by (cases rule: calm_cases [OF at(6)]) (simp add: dial_stage.simps Let_def)
  with t(2) show "\<exists>n'. node_turn E t (c ! i) = Ret n' \<and> sound n' \<and>
      (quieter (c ! i) n' \<or> pic n' = fst (dial_stage a (Bs ! i) (Bs ! j) 0))" by auto
qed (use d t(2) in \<open>auto simp: dial_stage.simps Let_def\<close>)

lemma dial_step:
  assumes d: "dialling a Bs i j m c" and m: "0 < m" "m \<le> 4"
    and t: "turn_node t = i \<and> wakes t (fst (dial_stage a (Bs ! i) (Bs ! j) m)) \<or>
      turn_node t = j \<and> wakes t (snd (dial_stage a (Bs ! i) (Bs ! j) m))"
  shows "dial_moves a Bs i j (m - 1) t c"
proof -
  note wake = dial_wakes [OF dialling_at(6,7) [OF d] m(2), of t a]
  consider "m = 4" | "m = 3" | "m = 2" | "m = 1" using m by linarith
  then show ?thesis
  proof cases
    case 1
    with t wake have "turn_node t = i" "\<exists>n. t = Command n" by auto
    with dial_sent [OF d [unfolded 1]] show ?thesis by (simp add: 1)
  next
    case 2
    with t wake have "t = Carry i" by auto
    with dial_requested [OF d [unfolded 2]] show ?thesis by (simp add: 2)
  next
    case 3
    with t wake have "t = Carry j" by auto
    with dial_accepted [OF d [unfolded 3]] show ?thesis by (simp add: 3)
  next
    case 4
    with t wake have "turn_node t = i" "\<exists>n. t = Event n" by auto
    with dial_done [OF d [unfolded 4]] show ?thesis by (simp add: 4)
  qed
qed

lemma dial_busy:
  assumes ij: "i < length Bs" "j < length Bs" "i \<noteq> j" and m: "0 < m" "m \<le> 4"
  shows "\<exists>t. triggered t (dial_stages a Bs i j m)"
proof -
  let ?t = "if m = 4 then Command i else if m = 3 then Carry i else if m = 2 then Carry j else Event i"
  have "m = 4 \<or> m = 3 \<or> m = 2 \<or> m = 1" using m by linarith
  with ij have "triggered ?t (dial_stages a Bs i j m)"
    by (auto simp: triggered_def dial_stage.simps Let_def)
  then show ?thesis by blast
qed

lemma dial_phase:
  assumes tireless: "tireless E sched" and ok: "list_all sound c"
    and c: "pics c = dial_stages a Bs i j 4"
    and calm: "list_all calm Bs" and ij: "i < length Bs" "j < length Bs" "i \<noteq> j"
    and dist: "distinct (ids Bs)" and a: "a \<in> set (pv_addrs (pi_view (Bs ! j)))"
  shows "\<exists>c'. run_turns E (sched c) c = Ret c' \<and> list_all sound c' \<and>
    pics c' = dial_stages a Bs i j 0"
proof (rule chain_phase [where Z = "dial_stages a Bs i j" and len = 4, OF tireless ok c])
  have cB: "calm (Bs ! i)" "calm (Bs ! j)" using calm ij by (simp_all add: list_all_length)
  fix c :: "('db, 's, 'i) cluster" and t m
  assume c: "list_all sound c" "pics c = dial_stages a Bs i j m" and m: "m \<le> 4"
    and t: "triggered t (dial_stages a Bs i j m)"
  note t' = triggered_at2 [OF t calm ij]
  moreover have "0 < m" using t' dial_wakes [OF cB m] by (cases m) auto
  ultimately show "0 < m \<and> (\<exists>c'. cluster_step E t c = Ret c' \<and> list_all sound c' \<and>
      (pics c' = pics c \<and> noise c' < noise c \<or> pics c' = dial_stages a Bs i j (m - 1)))"
    using dial_step [where a = a and Bs = Bs and i = i and j = j and m = m and c = c and t = t] c m calm ij dist a by blast
next
  show "\<exists>t. triggered t (dial_stages a Bs i j m)" if "0 < m" "m \<le> 4" for m
    by (rule dial_busy [OF ij that])
next
  fix m P
  assume "P \<in> set (dial_stages a Bs i j m)"
  then have "P \<in> {fst (dial_stage a (Bs ! i) (Bs ! j) m), snd (dial_stage a (Bs ! i) (Bs ! j) m)} \<union> set Bs"
    by (auto dest!: set_update_subset_insert [THEN subsetD])
  moreover have "pi_reqs Q = []" if "Q \<in> set Bs" for Q
    using that calm by (auto simp: list.pred_set calm_def)
  ultimately show "pi_reqs P = []" using ij by (auto simp: dial_stage.simps Let_def)
qed

end

end
