(* ===== verification/Cluster_Flood.thy ===== *)
theory Cluster_Flood
  imports Cluster_Connect
begin

text \<open>
  How a header or a list of transactions spreads. The node \<open>k\<close> publishes it; every node that
  it reaches passes it on, hands it to its chain manager, which adopts it and broadcasts it
  once more, in vain. At the end all nodes that are connected with \<open>k\<close> have it, and the other
  nodes have not changed.
\<close>

section \<open>Stages of a node\<close>

datatype stage =
    Outside
  | Fresh
  | Arrived
  | Passed
  | Received
  | Adopted
  | Refused request_error
  | Finished request_error
  | Publishing
  | Published

text \<open>
  The picture of a node in a stage, from its picture \<open>B\<close> before: \<open>out\<close> is what it has to send,
  and \<open>x\<close> the identifier of the message.
\<close>

fun stage_picture ::
  "('db, 'txn, 's, 'i) system \<Rightarrow> string \<Rightarrow> gossip \<Rightarrow> picture \<Rightarrow> stage \<Rightarrow> (peer_id \<times> packet) list \<Rightarrow>
     picture" where
  "stage_picture E x g B st out =
     (let k = length (pi_chans B); cs = pi_chans B @ [fresh_chan];
          vw = (pi_view B)\<lparr>pv_seen := insert x (pv_seen (pi_view B)), pv_out := out\<rparr>;
          A = adopt g B in
      case st of
        Outside \<Rightarrow> B
      | Fresh \<Rightarrow> B
      | Arrived \<Rightarrow> B\<lparr>pi_view := vw\<lparr>pv_news := [GossipMessage (gossip_topic g) (gossip_bytes E g)]\<rparr>\<rparr>
      | Passed \<Rightarrow> B\<lparr>pi_view := vw, pi_sent := [gossip_event g]\<rparr>
      | Received \<Rightarrow> B\<lparr>pi_view := vw, pi_recv := [gossip_event g]\<rparr>
      | Adopted \<Rightarrow> A\<lparr>pi_view := vw, pi_cmds := [gossip_command g k], pi_reqs := [BroadcastFut k],
          pi_chans := cs\<rparr>
      | Refused e \<Rightarrow> A\<lparr>pi_view := vw, pi_reqs := [BroadcastFut k],
          pi_chans := answered k (UnitReply (Inl e)) cs\<rparr>
      | Finished e \<Rightarrow> A\<lparr>pi_view := vw, pi_chans := answered k (UnitReply (Inl e)) cs\<rparr>
      | Publishing \<Rightarrow> B\<lparr>pi_cmds := [gossip_command g k], pi_chans := cs\<rparr>
      | Published \<Rightarrow> B\<lparr>pi_view := vw, pi_chans := answered k (UnitReply (Inr ())) cs\<rparr>)"

declare stage_picture.simps [simp del]

text \<open>Whether the node has the message, and how many turns it may still take.\<close>

fun reached :: "stage \<Rightarrow> bool" where
  "reached Outside \<longleftrightarrow> False"
| "reached Fresh \<longleftrightarrow> False"
| "reached Publishing \<longleftrightarrow> False"
| "reached st \<longleftrightarrow> True"

fun stage_rank :: "nat \<Rightarrow> stage \<Rightarrow> nat" where
  "stage_rank d Fresh = d + 6"
| "stage_rank d Arrived = 5"
| "stage_rank d Passed = 4"
| "stage_rank d Received = 3"
| "stage_rank d Adopted = 2"
| "stage_rank d (Refused e) = 1"
| "stage_rank d Publishing = d + 1"
| "stage_rank d st = 0"

text \<open>The stage after a turn of the node.\<close>

fun stage_next :: "request_error \<Rightarrow> stage \<Rightarrow> stage" where
  "stage_next e Arrived = Passed"
| "stage_next e Passed = Received"
| "stage_next e Received = Adopted"
| "stage_next e Adopted = Refused e"
| "stage_next e (Refused e') = Finished e'"
| "stage_next e Publishing = Published"
| "stage_next e st = st"

abbreviation packets :: "('db, 'txn, 's, 'i) system \<Rightarrow> gossip \<Rightarrow> peer_id list \<Rightarrow> (peer_id \<times> packet) list" where
  "packets E g ps \<equiv> map (\<lambda>p. (p, Gossip (gossip_topic g) (gossip_bytes E g))) ps"

lemma stage_picture_id: "pv_id (pi_view (stage_picture E x g B st out)) = pv_id (pi_view B)"
  by (cases st) (simp_all add: stage_picture.simps Let_def)

lemma stage_picture_seen:
  "reached st \<Longrightarrow> x \<in> pv_seen (pi_view (stage_picture E x g B st out))"
  by (cases st) (simp_all add: stage_picture.simps Let_def)

lemma stage_picture_out:
  "calm B \<Longrightarrow> pv_out (pi_view (stage_picture E x g B st out)) = (if reached st then out else [])"
  by (cases st) (simp_all add: stage_picture.simps Let_def calm_def)

lemma stage_wakes:
  assumes "calm B" and "wakes t (stage_picture E x g B st out)" and "\<And>i. t \<noteq> Carry i"
  shows "st = Arrived \<and> (\<exists>i. t = Event i) \<or> st = Passed \<and> (\<exists>i. t = Deliver i) \<or>
    st \<in> {Received} \<union> range Refused \<and> (\<exists>i. t = Manage i) \<or>
    st \<in> {Adopted, Publishing} \<and> (\<exists>i. t = Command i)"
proof -
  have "st \<in> {Received} \<union> range Refused" if "t = Manage i" for i
    using assms(1,2) that by (cases st; cases g)
      (auto simp: stage_picture.simps Let_def calm_def poll_fresh simp del: poll_unit_fut.simps)
  then show ?thesis
    using assms by (cases t; cases st; cases g) (auto simp: stage_picture.simps Let_def calm_def)
qed

section \<open>The flood\<close>

text \<open>
  The stages \<open>st\<close> and the packets \<open>os\<close> of all nodes while the message of \<open>k\<close> spreads through
  the group \<open>G\<close>: a node that has it has packets for all peers that have not.
\<close>

definition flood_ok ::
  "('db, 'txn, 's, 'i) system \<Rightarrow> gossip \<Rightarrow> nat set \<Rightarrow> nat \<Rightarrow> picture list \<Rightarrow> (nat \<Rightarrow> stage) \<Rightarrow>
     (nat \<Rightarrow> (peer_id \<times> packet) list) \<Rightarrow> bool" where
  "flood_ok E g G k Bs st os \<longleftrightarrow>
     (\<forall>i < length Bs. (st i = Outside \<longleftrightarrow> i \<notin> G) \<and>
       (st i \<in> {Publishing, Published} \<longleftrightarrow> i = k) \<and>
       set (os i) \<subseteq> set (packets E g (pv_peers (pi_view (Bs ! i)))) \<and>
       (\<not> reached (st i) \<longrightarrow> os i = []) \<and>
       (st k = Publishing \<longrightarrow> \<not> reached (st i)) \<and>
       (\<forall>j < length Bs. reached (st i) \<longrightarrow> pv_id (pi_view (Bs ! j)) \<in> set (pv_peers (pi_view (Bs ! i))) \<longrightarrow>
         st j \<noteq> Fresh \<or> set (packets E g [pv_id (pi_view (Bs ! j))]) \<subseteq> set (os i)))"

lemma flood_okI:
  assumes "\<And>i. i < length Bs \<Longrightarrow> st i = Outside \<longleftrightarrow> i \<notin> G"
    and "\<And>i. i < length Bs \<Longrightarrow> st i \<in> {Publishing, Published} \<longleftrightarrow> i = k"
    and "\<And>i. i < length Bs \<Longrightarrow> set (os i) \<subseteq> set (packets E g (pv_peers (pi_view (Bs ! i))))"
    and "\<And>i. i < length Bs \<Longrightarrow> \<not> reached (st i) \<Longrightarrow> os i = []"
    and "\<And>i. i < length Bs \<Longrightarrow> st k = Publishing \<Longrightarrow> \<not> reached (st i)"
    and "\<And>i j. i < length Bs \<Longrightarrow> j < length Bs \<Longrightarrow> reached (st i) \<Longrightarrow>
      pv_id (pi_view (Bs ! j)) \<in> set (pv_peers (pi_view (Bs ! i))) \<Longrightarrow> st j = Fresh \<Longrightarrow>
      set (packets E g [pv_id (pi_view (Bs ! j))]) \<subseteq> set (os i)"
  shows "flood_ok E g G k Bs st os"
  unfolding flood_ok_def using assms by blast

lemma flood_okD:
  assumes "flood_ok E g G k Bs st os" and "i < length Bs"
  shows "st i = Outside \<longleftrightarrow> i \<notin> G" and "st i \<in> {Publishing, Published} \<longleftrightarrow> i = k"
    and "set (os i) \<subseteq> set (packets E g (pv_peers (pi_view (Bs ! i))))"
    and "\<not> reached (st i) \<Longrightarrow> os i = []" and "st k = Publishing \<Longrightarrow> \<not> reached (st i)"
    and "j < length Bs \<Longrightarrow> reached (st i) \<Longrightarrow>
      pv_id (pi_view (Bs ! j)) \<in> set (pv_peers (pi_view (Bs ! i))) \<Longrightarrow> st j = Fresh \<Longrightarrow>
      set (packets E g [pv_id (pi_view (Bs ! j))]) \<subseteq> set (os i)"
  using assms unfolding flood_ok_def by blast+

definition flood_measure ::
  "picture list \<Rightarrow> (nat \<Rightarrow> stage) \<Rightarrow> (nat \<Rightarrow> (peer_id \<times> packet) list) \<Rightarrow> nat" where
  "flood_measure Bs st os =
     (\<Sum>i < length Bs. stage_rank (length (pv_peers (pi_view (Bs ! i)))) (st i) + length (os i))"

lemma flood_measure_less:
  assumes "\<And>i. i < length Bs \<Longrightarrow>
      stage_rank (length (pv_peers (pi_view (Bs ! i)))) (st' i) + length (os' i) \<le>
      stage_rank (length (pv_peers (pi_view (Bs ! i)))) (st i) + length (os i)"
    and "n < length Bs"
    and "stage_rank (length (pv_peers (pi_view (Bs ! n)))) (st' n) + length (os' n) <
      stage_rank (length (pv_peers (pi_view (Bs ! n)))) (st n) + length (os n)"
  shows "flood_measure Bs st' os' < flood_measure Bs st os"
  unfolding flood_measure_def by (rule sum_strict_mono_ex1) (use assms in auto)

text \<open>A node takes a turn.\<close>

lemma flood_turn:
  assumes ok: "flood_ok E g G k Bs st os" and i: "i < length Bs"
    and st: "st i \<in> {Arrived, Passed, Received, Adopted, Publishing} \<union> range Refused"
    and st': "st' = st(i := stage_next e (st i))"
    and os': "os' = os(i := if st i = Publishing then packets E g (pv_peers (pi_view (Bs ! i))) else os i)"
  shows "flood_ok E g G k Bs st' os'" and "flood_measure Bs st' os' < flood_measure Bs st os"
proof -
  have next_st: "stage_next e (st i) \<noteq> Outside" "stage_next e (st i) \<noteq> Fresh" "stage_next e (st i) \<noteq> Publishing"
    "st i \<noteq> Outside" "st i \<noteq> Fresh" "st i \<noteq> Published" "reached (stage_next e (st i))"
    "stage_next e (st i) = Published \<longleftrightarrow> st i = Publishing" "st i \<noteq> Publishing \<Longrightarrow> reached (st i)"
    using st by auto
  show "flood_ok E g G k Bs st' os'"
  proof (rule flood_okI)
    fix n
    assume n: "n < length Bs"
    note D = flood_okD [OF ok n]
    show "st' n = Outside \<longleftrightarrow> n \<notin> G" "st' n \<in> {Publishing, Published} \<longleftrightarrow> n = k"
      "set (os' n) \<subseteq> set (packets E g (pv_peers (pi_view (Bs ! n))))"
      using D(1,2,3) next_st by (cases "n = i"; simp add: st' os')+
    show "os' n = []" if "\<not> reached (st' n)"
      using D(4) that next_st by (cases "n = i") (simp_all add: st' os')
    show "\<not> reached (st' n)" if "st' k = Publishing"
    proof -
      have "i \<noteq> k" and "st k = Publishing" using that next_st by (auto simp: st' split: if_splits)
      with D(5) flood_okD(2,5) [OF ok i] next_st show ?thesis by auto
    qed
    show "set (packets E g [pv_id (pi_view (Bs ! j))]) \<subseteq> set (os' n)"
      if "j < length Bs" "reached (st' n)" "pv_id (pi_view (Bs ! j)) \<in> set (pv_peers (pi_view (Bs ! n)))"
        "st' j = Fresh" for j
    proof -
      have "st j = Fresh" using that(4) next_st by (auto simp: st' split: if_splits)
      with D(6) [OF that(1) _ that(3)] that(2,3) next_st(9) show ?thesis
        by (cases "n = i"; cases "st i = Publishing") (auto simp: st' os')
    qed
  qed
  show "flood_measure Bs st' os' < flood_measure Bs st os"
  proof (rule flood_measure_less [OF _ i])
    have "os i = []" if "st i = Publishing" using ok i that by (auto simp: flood_ok_def)
    then show "stage_rank (length (pv_peers (pi_view (Bs ! i)))) (st' i) + length (os' i) <
        stage_rank (length (pv_peers (pi_view (Bs ! i)))) (st i) + length (os i)"
      using st by (auto simp: st' os')
    then show "stage_rank (length (pv_peers (pi_view (Bs ! n)))) (st' n) + length (os' n) \<le>
        stage_rank (length (pv_peers (pi_view (Bs ! n)))) (st n) + length (os n)" for n
      by (cases "n = i") (auto simp: st' os')
  qed
qed

text \<open>A packet of \<open>i\<close> arrives at \<open>j\<close>.\<close>

lemma flood_carry_seen:
  assumes ok: "flood_ok E g G k Bs st os" and i: "i < length Bs" and os: "os i = p # out"
    and p: "p = (pv_id (pi_view (Bs ! j)), Gossip (gossip_topic g) (gossip_bytes E g))"
    and j: "j < length Bs" "st j \<noteq> Fresh" and dist: "distinct (ids Bs)"
  shows "flood_ok E g G k Bs st (os(i := out))"
    and "flood_measure Bs st (os(i := out)) < flood_measure Bs st os"
proof -
  have same: "l = j" if "l < length Bs" "pv_id (pi_view (Bs ! l)) = pv_id (pi_view (Bs ! j))" for l
    using that nth_eq_iff_index_eq [OF dist, of l j] j(1) by simp
  have r: "reached (st i)" using flood_okD(4) [OF ok i] os by auto
  show "flood_ok E g G k Bs st (os(i := out))"
  proof (rule flood_okI)
    fix n
    assume n: "n < length Bs"
    note D = flood_okD [OF ok n]
    show "st n = Outside \<longleftrightarrow> n \<notin> G" "st n \<in> {Publishing, Published} \<longleftrightarrow> n = k"
      "st k = Publishing \<Longrightarrow> \<not> reached (st n)" using D by blast+
    show "set ((os(i := out)) n) \<subseteq> set (packets E g (pv_peers (pi_view (Bs ! n))))"
      using D(3) os by (cases "n = i") auto
    show "(os(i := out)) n = []" if "\<not> reached (st n)" using D(4) that r by (cases "n = i") auto
    show "set (packets E g [pv_id (pi_view (Bs ! l))]) \<subseteq> set ((os(i := out)) n)"
      if "l < length Bs" "reached (st n)" "pv_id (pi_view (Bs ! l)) \<in> set (pv_peers (pi_view (Bs ! n)))"
        "st l = Fresh" for l
      using D(6) [OF that] same [OF that(1)] that(4) j(2) os p by (cases "n = i") auto
  qed
  show "flood_measure Bs st (os(i := out)) < flood_measure Bs st os"
    by (rule flood_measure_less [OF _ i]) (auto simp: os)
qed

lemma flood_carry_new:
  assumes ok: "flood_ok E g G k Bs st os" and i: "i < length Bs" and os: "os i = p # out"
    and p: "p = (pv_id (pi_view (Bs ! j)), Gossip (gossip_topic g) (gossip_bytes E g))"
    and j: "j < length Bs" "st j = Fresh" "i \<noteq> j" and dist: "distinct (ids Bs)"
    and st': "st' = st(j := Arrived)"
    and os': "os' = os(i := out, j := packets E g
      (filter (\<lambda>q. q \<noteq> pv_id (pi_view (Bs ! i))) (pv_peers (pi_view (Bs ! j)))))"
  shows "flood_ok E g G k Bs st' os'" and "flood_measure Bs st' os' < flood_measure Bs st os"
proof -
  have same: "l = j" if "l < length Bs" "pv_id (pi_view (Bs ! l)) = pv_id (pi_view (Bs ! j))" for l
    using that nth_eq_iff_index_eq [OF dist, of l j] j(1) by simp
  have same': "l = i" if "l < length Bs" "pv_id (pi_view (Bs ! l)) = pv_id (pi_view (Bs ! i))" for l
    using that nth_eq_iff_index_eq [OF dist, of l i] i by simp
  have r: "reached (st i)" "st k \<noteq> Publishing" "os j = []" "st i \<noteq> Fresh"
    using flood_okD(4,5) [OF ok i] flood_okD(4) [OF ok j(1)] os j(2) by auto
  show "flood_ok E g G k Bs st' os'"
  proof (rule flood_okI)
    fix n
    assume n: "n < length Bs"
    note D = flood_okD [OF ok n]
    show "st' n = Outside \<longleftrightarrow> n \<notin> G" "st' n \<in> {Publishing, Published} \<longleftrightarrow> n = k"
      using D(1,2) j(2) by (cases "n = j"; simp add: st')+
    show "set (os' n) \<subseteq> set (packets E g (pv_peers (pi_view (Bs ! n))))"
      using D(3) os by (cases "n = j"; cases "n = i") (auto simp: os')
    show "os' n = []" if "\<not> reached (st' n)"
      using D(4) that r by (cases "n = j"; cases "n = i") (auto simp: st' os')
    show "\<not> reached (st' n)" if "st' k = Publishing" using that r(2) by (auto simp: st' split: if_splits)
    show "set (packets E g [pv_id (pi_view (Bs ! l))]) \<subseteq> set (os' n)"
      if "l < length Bs" "reached (st' n)" "pv_id (pi_view (Bs ! l)) \<in> set (pv_peers (pi_view (Bs ! n)))"
        "st' l = Fresh" for l
    proof -
      have l: "l \<noteq> j" "st l = Fresh" "l \<noteq> i" using that(4) r(4) by (auto simp: st' split: if_splits)
      show ?thesis
      proof (cases "n = j")
        case True
        with same' [OF that(1)] l(3) that(3) show ?thesis by (auto simp: os')
      next
        case False
        with that(2) have "reached (st n)" by (simp add: st')
        with D(6) [OF that(1) _ that(3) l(2)] False os p same [OF that(1)] l(1) show ?thesis
          by (cases "n = i") (auto simp: os')
      qed
    qed
  qed
  show "flood_measure Bs st' os' < flood_measure Bs st os"
    by (rule flood_measure_less [OF _ i]) (use j in \<open>auto simp: st' os' os r(3) intro: le_SucI\<close>)
qed

context connected_swarms
begin

abbreviation name_of :: "gossip \<Rightarrow> string" where
  "name_of g \<equiv> mid (gossip_bytes E g)"

text \<open>The turns of a node, by its stage.\<close>

lemma stage_gossip:
  assumes ok: "sound n" and calm: "calm B" and P: "pic n = stage_picture E (name_of g) g B Arrived out"
  shows "\<exists>n'. event_turn E n = Ret n' \<and> sound n' \<and> (quieter n n' \<or> pic n' = stage_picture E (name_of g) g B Passed out)"
proof -
  obtain n' where n': "event_turn E n = Ret n'" "sound n'"
    and p: "quieter n n' \<or> pic n' = (pic n)\<lparr>pi_sent := pi_sent (pic n) @ [gossip_event g],
      pi_view := (pi_view (pic n))\<lparr>pv_news := []\<rparr>\<rparr>"
    using gossip_event_turn [OF ok, of g] unfolding P by (auto simp: stage_picture.simps Let_def)
  have "(pic n)\<lparr>pi_sent := pi_sent (pic n) @ [gossip_event g],
      pi_view := (pi_view (pic n))\<lparr>pv_news := []\<rparr>\<rparr> = stage_picture E (name_of g) g B Passed out"
    unfolding P by (cases rule: calm_cases [OF calm]) (simp add: stage_picture.simps Let_def)
  with n' p show ?thesis by auto
qed

lemma stage_delivered:
  assumes ok: "sound n" and calm: "calm B" and P: "pic n = stage_picture E (name_of g) g B Passed out"
  shows "sound (deliver_turn n) \<and> pic (deliver_turn n) = stage_picture E (name_of g) g B Received out"
proof -
  have "pi_sent (pic n) = [gossip_event g]" unfolding P by (simp add: stage_picture.simps Let_def)
  from delivered [OF ok this] have d: "sound (deliver_turn n)"
    and p: "pic (deliver_turn n) = (pic n)\<lparr>pi_sent := [], pi_recv := pi_recv (pic n) @ [gossip_event g]\<rparr>"
    by simp_all
  have "pic (deliver_turn n) = stage_picture E (name_of g) g B Received out"
    unfolding p P by (cases rule: calm_cases [OF calm]) (simp add: stage_picture.simps Let_def)
  with d show ?thesis by blast
qed

lemma stage_adopts:
  assumes ok: "sound n" and calm: "calm B" and P: "pic n = stage_picture E (name_of g) g B Received out"
    and adopt: "adoptable (sy_ext E) g (pi_headers B)"
  shows "\<exists>n'. manage_turn E n = Ret n' \<and> sound n' \<and> pic n' = stage_picture E (name_of g) g B Adopted out"
proof -
  have "pi_recv (pic n) = [gossip_event g]" "pi_reqs (pic n) = []"
    "adoptable (sy_ext E) g (pi_headers (pic n))"
    unfolding P using adopt calm by (simp_all add: stage_picture.simps Let_def calm_def)
  from manage_adopts [OF ok this] obtain n' where n': "manage_turn E n = Ret n'" "sound n'"
    and p: "pic n' = (adopt g (pic n))\<lparr>pi_recv := [],
      pi_reqs := [BroadcastFut (length (pi_chans (pic n)))],
      pi_cmds := pi_cmds (pic n) @ [gossip_command g (length (pi_chans (pic n)))],
      pi_chans := pi_chans (pic n) @ [fresh_chan]\<rparr>" by blast
  have "pic n' = stage_picture E (name_of g) g B Adopted out"
    unfolding p P by (cases rule: calm_cases [OF calm]; cases g) (simp_all add: stage_picture.simps Let_def)
  with n' show ?thesis by blast
qed

lemma stage_finishes:
  assumes ok: "sound n" and calm: "calm B" and P: "pic n = stage_picture E (name_of g) g B (Refused e) out"
  shows "\<exists>n'. manage_turn E n = Ret n' \<and> sound n' \<and> pic n' = stage_picture E (name_of g) g B (Finished e) out"
proof -
  let ?k = "length (pi_chans B)"
  have "pi_recv (pic n) = []" "pi_reqs (pic n) = [BroadcastFut ?k]"
    unfolding P using calm by (cases g; simp add: stage_picture.simps Let_def calm_def)+
  moreover have "poll_unit_fut (pi_chans (pic n)) (BroadcastFut ?k) = Ret (Ready (Inl e))"
    unfolding P using poll_answered(1) [of ?k "pi_chans B @ [fresh_chan]" "Inl e"]
    by (simp add: stage_picture.simps Let_def del: poll_unit_fut.simps)
  ultimately obtain n' where n': "manage_turn E n = Ret n'" "sound n'"
    and p: "pic n' = (pic n)\<lparr>pi_reqs := []\<rparr>" using manage_answered [OF ok] by blast
  have "pic n' = stage_picture E (name_of g) g B (Finished e) out"
    unfolding p P by (cases rule: calm_cases [OF calm]; cases g) (simp_all add: stage_picture.simps Let_def)
  with n' show ?thesis by blast
qed

lemma stage_refused:
  assumes ok: "sound n" and calm: "calm B" and P: "pic n = stage_picture E (name_of g) g B Adopted out"
  shows "\<exists>e n'. network_turn E NextCommand n = Ret n' \<and> sound n' \<and> pic n' = stage_picture E (name_of g) g B (Refused e) out"
proof -
  let ?k = "length (pi_chans B)"
  have "pi_cmds (pic n) = [gossip_command g ?k]" "can_answer ?k (pic n)"
    "name_of g \<in> pv_seen (pi_view (pic n))"
    unfolding P by (simp_all add: stage_picture.simps Let_def)
  from duplicate_command [OF ok this] obtain e n' where n': "network_turn E NextCommand n = Ret n'" "sound n'"
    and p: "pic n' = (pic n)\<lparr>pi_cmds := [], pi_chans := answered ?k (UnitReply (Inl e)) (pi_chans (pic n))\<rparr>"
    by blast
  have "pic n' = stage_picture E (name_of g) g B (Refused e) out"
    unfolding p P by (cases rule: calm_cases [OF calm]; cases g) (simp_all add: stage_picture.simps Let_def)
  with n' show ?thesis by blast
qed

lemma stage_publishes:
  assumes ok: "sound n" and calm: "calm B" and P: "pic n = stage_picture E (name_of g) g B Publishing out"
    and new: "name_of g \<notin> pv_seen (pi_view B)" "pv_peers (pi_view B) \<noteq> []"
  shows "\<exists>n'. network_turn E NextCommand n = Ret n' \<and> sound n' \<and>
    pic n' = stage_picture E (name_of g) g B Published (packets E g (pv_peers (pi_view B)))"
proof -
  let ?k = "length (pi_chans B)"
  have "pi_cmds (pic n) = [gossip_command g ?k]" "can_answer ?k (pic n)"
    "name_of g \<notin> pv_seen (pi_view (pic n))" "pv_peers (pi_view (pic n)) \<noteq> []"
    unfolding P using new by (simp_all add: stage_picture.simps Let_def)
  from publish_command [OF ok this] obtain n' where n': "network_turn E NextCommand n = Ret n'" "sound n'"
    and p: "pic n' = (pic n)\<lparr>pi_cmds := [], pi_chans := answered ?k (UnitReply (Inr ())) (pi_chans (pic n)),
      pi_view := (pi_view (pic n))\<lparr>pv_seen := insert (name_of g) (pv_seen (pi_view (pic n))),
        pv_out := pv_out (pi_view (pic n)) @ packets E g (pv_peers (pi_view (pic n)))\<rparr>\<rparr>"
    by blast
  have "pic n' = stage_picture E (name_of g) g B Published (packets E g (pv_peers (pi_view B)))"
    unfolding p P by (cases rule: calm_cases [OF calm]) (simp add: stage_picture.simps Let_def)
  with n' show ?thesis by blast
qed

lemma stage_turn:
  assumes ok: "sound n" and P: "pic n = stage_picture E (name_of g) g B st out"
    and calm: "calm B" and wakes: "wakes t (pic n)" and t: "\<And>i. t \<noteq> Carry i"
    and adopt: "st \<noteq> Publishing \<Longrightarrow> adoptable (sy_ext E) g (pi_headers B)"
    and publish: "st = Publishing \<Longrightarrow> name_of g \<notin> pv_seen (pi_view B) \<and> pv_peers (pi_view B) \<noteq> []"
  shows "\<exists>e n'. node_turn E t n = Ret n' \<and> sound n' \<and> (quieter n n' \<or>
    pic n' = stage_picture E (name_of g) g B (stage_next e st)
      (if st = Publishing then packets E g (pv_peers (pi_view B)) else out))"
proof -
  from stage_wakes [OF calm wakes [unfolded P] t] consider
      (gossip) i where "st = Arrived" "t = Event i"
    | (deliver) i where "st = Passed" "t = Deliver i"
    | (manage) i where "st = Received" "t = Manage i"
    | (answer) i e where "st = Refused e" "t = Manage i"
    | (refuse) i where "st = Adopted" "t = Command i"
    | (publish) i where "st = Publishing" "t = Command i" by blast
  then show ?thesis
  proof cases
    case gossip
    with stage_gossip [OF ok calm P [unfolded gossip]] show ?thesis by simp
  next
    case deliver
    with stage_delivered [OF ok calm P [unfolded deliver]] show ?thesis by simp
  next
    case manage
    with stage_adopts [OF ok calm P [unfolded manage]] adopt show ?thesis by auto
  next
    case answer
    with stage_finishes [OF ok calm P [unfolded answer]] show ?thesis by auto
  next
    case refuse
    with stage_refused [OF ok calm P [unfolded refuse]] show ?thesis by auto
  next
    case publish
    with stage_publishes [OF ok calm P [unfolded publish]] \<open>st = Publishing \<Longrightarrow> _\<close> show ?thesis by auto
  qed
qed

text \<open>What the flood starts from: \<open>k\<close> is about to publish, all nodes of its group can take it.\<close>

abbreviation flood_base :: "gossip \<Rightarrow> nat set \<Rightarrow> nat \<Rightarrow> picture list \<Rightarrow> bool" where
  "flood_base g G k Bs \<equiv> list_all calm Bs \<and> distinct (ids Bs) \<and> k < length Bs \<and> k \<in> G \<and>
     pv_peers (pi_view (Bs ! k)) \<noteq> [] \<and>
     (\<forall>i < length Bs. i \<in> G \<longrightarrow> name_of g \<notin> pv_seen (pi_view (Bs ! i)) \<and>
       (i \<noteq> k \<longrightarrow> adoptable (sy_ext E) g (pi_headers (Bs ! i))) \<and>
       (\<forall>p \<in> set (pv_peers (pi_view (Bs ! i))). \<exists>j < length Bs. j \<in> G \<and> p = pv_id (pi_view (Bs ! j))))"

abbreviation flooding ::
  "gossip \<Rightarrow> nat set \<Rightarrow> nat \<Rightarrow> picture list \<Rightarrow> (nat \<Rightarrow> stage) \<Rightarrow> (nat \<Rightarrow> (peer_id \<times> packet) list) \<Rightarrow>
     picture list \<Rightarrow> bool" where
  "flooding g G k Bs st os Ps \<equiv> flood_ok E g G k Bs st os \<and>
     Ps = map (\<lambda>i. stage_picture E (name_of g) g (Bs ! i) (st i) (os i)) [0..<length Bs]"

lemma flooding_update:
  assumes "Ps = map (\<lambda>i. stage_picture E x g (Bs ! i) (st i) (os i)) [0..<length Bs]"
    and "i < length Bs"
  shows "Ps[i := stage_picture E x g (Bs ! i) s o'] =
    map (\<lambda>n. stage_picture E x g (Bs ! n) ((st(i := s)) n) ((os(i := o')) n)) [0..<length Bs]"
  unfolding assms(1) by (rule nth_equalityI) (use assms(2) in \<open>simp_all add: nth_list_update\<close>)

lemma flooding_at:
  assumes "flooding g G k Bs st os (pics c)"
  shows "length c = length Bs"
    and "i < length Bs \<Longrightarrow> pic (c ! i) = stage_picture E (name_of g) g (Bs ! i) (st i) (os i)"
proof -
  show len: "length c = length Bs" using arg_cong [OF conjunct2 [OF assms], of length] by simp
  show "i < length Bs \<Longrightarrow> pic (c ! i) = stage_picture E (name_of g) g (Bs ! i) (st i) (os i)"
    using arg_cong [OF conjunct2 [OF assms], of "\<lambda>xs. xs ! i"] len by simp
qed

lemma flood_node_step:
  assumes ok: "list_all sound c" and base: "flood_base g G k Bs"
    and fl: "flooding g G k Bs st os (pics c)" and t: "triggered t (pics c)" "\<And>i. t \<noteq> Carry i"
  shows "\<exists>c'. cluster_step E t c = Ret c' \<and> list_all sound c' \<and>
    (pics c' = pics c \<and> noise c' < noise c \<or> (\<exists>st' os'. flooding g G k Bs st' os' (pics c') \<and>
      flood_measure Bs st' os' < flood_measure Bs st os))"
proof -
  let ?i = "turn_node t" and ?x = "name_of g"
  note len = flooding_at(1) [OF fl]
  have i: "?i < length Bs" using t(1) len by (simp add: triggered_def)
  let ?B = "Bs ! ?i" and ?st = "st ?i"
  note P = flooding_at(2) [OF fl i]
  have wakes: "wakes t (pic (c ! ?i))" using t(1) i len by (simp add: triggered_def)
  have calm: "calm ?B" using base i by (auto simp: list_all_length)
  note D = flood_okD [OF conjunct1 [OF fl] i]
  have st: "?st \<in> {Arrived, Passed, Received, Adopted, Publishing} \<union> range Refused"
    using stage_wakes [OF calm wakes [unfolded P] t(2)] by blast
  then have G: "?i \<in> G" using D(1) by auto
  have "?st \<noteq> Publishing \<Longrightarrow> adoptable (sy_ext E) g (pi_headers ?B)"
    using base i G D(2) st by auto
  moreover have "?st = Publishing \<Longrightarrow> ?x \<notin> pv_seen (pi_view ?B) \<and> pv_peers (pi_view ?B) \<noteq> []"
    using base i G D(2) by auto
  ultimately obtain e n' where n': "node_turn E t (c ! ?i) = Ret n'" "sound n'"
    "quieter (c ! ?i) n' \<or> pic n' = stage_picture E ?x g ?B (stage_next e ?st)
      (if ?st = Publishing then packets E g (pv_peers (pi_view ?B)) else os ?i)"
    using stage_turn [OF sound_at [OF ok] P calm wakes t(2)] i len by auto
  let ?P = "stage_picture E ?x g ?B (stage_next e ?st)
      (if ?st = Publishing then packets E g (pv_peers (pi_view ?B)) else os ?i)"
  from node_step [OF ok _ t(2), of "\<lambda>P. P = ?P"] n' i len obtain c' where
    c': "cluster_step E t c = Ret c'" "list_all sound c'"
      "pics c' = pics c \<and> noise c' < noise c \<or> pics c' = (pics c)[?i := ?P]" by auto
  note next_ok = flood_turn [OF conjunct1 [OF fl] i st refl refl]
  have flows: "\<exists>st' os'. flooding g G k Bs st' os' ((pics c)[?i := ?P]) \<and>
      flood_measure Bs st' os' < flood_measure Bs st os"
    unfolding flooding_update [OF conjunct2 [OF fl] i] using next_ok by blast
  from c'(3) show ?thesis
  proof
    assume eq: "pics c' = (pics c)[?i := ?P]"
    from flows [folded eq] c'(1,2) show ?thesis by blast
  qed (use c'(1,2) in blast)
qed

lemma receive_again:
  assumes "mid d \<in> pv_seen (pi_view (Ps ! j))"
  shows "Ps[j := (Ps ! j)\<lparr>pi_view := receive_view mid q (Gossip t d) (pi_view (Ps ! j))\<rparr>] = Ps"
  using assms by simp

text \<open>A node that has packets sends the first of them to a node of the group.\<close>

lemma flood_packet:
  assumes base: "flood_base g G k Bs" and fl: "flooding g G k Bs st os (pics c)"
    and t: "triggered (Carry i) (pics c)"
  shows "\<exists>j rest. i < length Bs \<and> reached (st i) \<and> j < length Bs \<and> j \<in> G \<and>
    os i = (pv_id (pi_view (Bs ! j)), Gossip (gossip_topic g) (gossip_bytes E g)) # rest \<and>
    pv_out (pi_view (pic (c ! i))) = os i \<and>
    sent_picture (pic (c ! i)) = stage_picture E (name_of g) g (Bs ! i) (st i) rest"
proof -
  note at = flooding_at [OF fl]
  have i: "i < length Bs" using t at(1) by (simp add: triggered_def)
  note D = flood_okD [OF conjunct1 [OF fl] i]
  have calm: "calm (Bs ! i)" using base i by (simp add: list_all_length)
  have "pv_out (pi_view (pic (c ! i))) \<noteq> []" using t i at(1) by (simp add: triggered_def)
  then have r: "reached (st i)" and "os i \<noteq> []"
    unfolding at(2) [OF i] stage_picture_out [OF calm] by (simp_all split: if_splits)
  then obtain p rest where o: "os i = p # rest" by (cases "os i") auto
  have "i \<in> G" using D(1) r by auto
  moreover obtain q where q: "p = (q, Gossip (gossip_topic g) (gossip_bytes E g))"
    "q \<in> set (pv_peers (pi_view (Bs ! i)))" using D(3) o by auto
  ultimately obtain j where j: "j < length Bs" "j \<in> G" "q = pv_id (pi_view (Bs ! j))" using base i by blast
  have "pv_out (pi_view (pic (c ! i))) = os i" unfolding at(2) [OF i] stage_picture_out [OF calm] using r by simp
  moreover have "sent_picture (pic (c ! i)) = stage_picture E (name_of g) g (Bs ! i) (st i) rest"
    unfolding at(2) [OF i] using r o by (cases "st i") (simp_all add: sent_picture_def stage_picture.simps Let_def)
  ultimately show ?thesis using i r j o q(1) by blast
qed

text \<open>What the packet changes at the node it is for.\<close>

lemma flood_arrival:
  assumes base: "flood_base g G k Bs" and ok: "flood_ok E g G k Bs st os" and i: "i < length Bs" "reached (st i)"
    and j: "j < length Bs" "j \<in> G"
    and o: "os i = (pv_id (pi_view (Bs ! j)), Gossip (gossip_topic g) (gossip_bytes E g)) # rest"
    and Ps: "Ps = map (\<lambda>n. stage_picture E (name_of g) g (Bs ! n) (st n) ((os(i := rest)) n)) [0..<length Bs]"
  shows "\<exists>st' os'. flooding g G k Bs st' os' (Ps[j := (Ps ! j)\<lparr>pi_view := receive_view mid
      (pv_id (pi_view (Bs ! i))) (Gossip (gossip_topic g) (gossip_bytes E g)) (pi_view (Ps ! j))\<rparr>]) \<and>
    flood_measure Bs st' os' < flood_measure Bs st os"
proof -
  have dist: "distinct (ids Bs)" using base by blast
  note J = flood_okD [OF ok j(1)]
  show ?thesis
  proof (cases "st j = Fresh")
    case False
    have "st j \<noteq> Publishing" using J(2) flood_okD(5) [OF ok i(1)] i(2) by auto
    then have "reached (st j)" using False J(1) j(2) by (cases "st j") auto
    then have "name_of g \<in> pv_seen (pi_view (Ps ! j))"
      using stage_picture_seen [of "st j" "name_of g" E g "Bs ! j" "(os(i := rest)) j"] j(1)
      by (simp add: Ps del: fun_upd_apply)
    show ?thesis
      unfolding receive_again [OF \<open>name_of g \<in> pv_seen (pi_view (Ps ! j))\<close>]
      using Ps flood_carry_seen [OF ok i(1) o refl j(1) False dist] by blast
  next
    case True
    with i(2) have ij: "i \<noteq> j" by auto
    have B: "name_of g \<notin> pv_seen (pi_view (Bs ! j))" "calm (Bs ! j)" using base j by (auto simp: list_all_length)
    let ?out = "packets E g (filter (\<lambda>q. q \<noteq> pv_id (pi_view (Bs ! i))) (pv_peers (pi_view (Bs ! j))))"
    have new: "(Ps ! j)\<lparr>pi_view := receive_view mid (pv_id (pi_view (Bs ! i)))
        (Gossip (gossip_topic g) (gossip_bytes E g)) (pi_view (Ps ! j))\<rparr> =
        stage_picture E (name_of g) g (Bs ! j) Arrived ?out"
      using True j(1) ij B by (simp add: Ps stage_picture.simps Let_def calm_def)
    show ?thesis
      unfolding new flooding_update [OF Ps j(1)]
      using flood_carry_new [OF ok i(1) o refl j(1) True ij dist refl refl] by blast
  qed
qed

lemma flood_carry_step:
  assumes ok: "list_all sound c" and base: "flood_base g G k Bs"
    and fl: "flooding g G k Bs st os (pics c)" and t: "triggered (Carry i) (pics c)"
  shows "\<exists>c'. cluster_step E (Carry i) c = Ret c' \<and> list_all sound c' \<and>
    (\<exists>st' os'. flooding g G k Bs st' os' (pics c') \<and> flood_measure Bs st' os' < flood_measure Bs st os)"
proof -
  let ?pk = "Gossip (gossip_topic g) (gossip_bytes E g)" and ?p = "pv_id (pi_view (Bs ! i))"
  note at = flooding_at [OF fl]
  obtain j rest where i: "i < length Bs" "reached (st i)" and j: "j < length Bs" "j \<in> G"
    and o: "os i = (pv_id (pi_view (Bs ! j)), ?pk) # rest"
    and head: "pv_out (pi_view (pic (c ! i))) = os i"
    and sent: "sent_picture (pic (c ! i)) = stage_picture E (name_of g) g (Bs ! i) (st i) rest"
    using flood_packet [OF base fl t] by blast
  define Ps where
    Ps: "Ps = map (\<lambda>n. stage_picture E (name_of g) g (Bs ! n) (st n) ((os(i := rest)) n)) [0..<length Bs]"
  have "ids Ps = ids Bs" unfolding Ps by (rule nth_equalityI) (simp_all add: stage_picture_id)
  then have "map (receive_picture mid ?p (pv_id (pi_view (Bs ! j))) ?pk) Ps =
      Ps[j := (Ps ! j)\<lparr>pi_view := receive_view mid ?p ?pk (pi_view (Ps ! j))\<rparr>]"
    using base j by (intro receive_one) (simp_all add: Ps stage_picture_id)
  moreover have "(pics c)[i := sent_picture (pic (c ! i))] = Ps"
    unfolding sent flooding_update [OF conjunct2 [OF fl] i(1)] Ps by simp
  moreover have "pv_id (pi_view (pic (c ! i))) = ?p" by (simp add: at(2) [OF i(1)] stage_picture_id)
  ultimately obtain c' where c': "cluster_step E (Carry i) c = Ret c'" "list_all sound c'"
    "pics c' = Ps[j := (Ps ! j)\<lparr>pi_view := receive_view mid ?p ?pk (pi_view (Ps ! j))\<rparr>]"
    using carried [OF ok _ head [unfolded o]] i(1) at(1) by auto
  from flood_arrival [OF base conjunct1 [OF fl] i j o Ps, folded c'(3)] c'(1,2) show ?thesis by blast
qed

lemma flooding_quiet:
  assumes fl: "flooding g G k Bs st os Ps" and base: "flood_base g G k Bs"
    and quiet: "\<And>t. \<not> triggered t Ps" and i: "i < length Bs"
  shows "os i = []" and "st i \<in> {Outside, Fresh, Published} \<union> range Finished" and "pi_reqs (Ps ! i) = []"
proof -
  let ?P = "stage_picture E (name_of g) g (Bs ! i) (st i) (os i)" and ?cs = "pi_chans (Bs ! i)"
  have calm: "calm (Bs ! i)" using base i by (simp add: list_all_length)
  have P: "Ps ! i = ?P" "length Ps = length Bs" using fl i by simp_all
  then have w: "\<not> wakes (Command i) ?P" "\<not> wakes (Event i) ?P" "\<not> wakes (Deliver i) ?P"
    "\<not> wakes (Manage i) ?P" "\<not> wakes (Carry i) ?P"
    using quiet [of "Command i"] quiet [of "Event i"] quiet [of "Deliver i"] quiet [of "Manage i"]
      quiet [of "Carry i"] i by (simp_all add: triggered_def)
  show "os i = []" using w(5) flood_okD(4) [OF conjunct1 [OF fl] i] calm
    by (cases "reached (st i)") (simp_all add: stage_picture_out)
  have ready: "poll_unit_fut (answered (length ?cs) (UnitReply r) (?cs @ [fresh_chan])) (BroadcastFut (length ?cs)) =
      Ret (Ready r)" for r by (rule poll_answered(1)) simp
  show st: "st i \<in> {Outside, Fresh, Published} \<union> range Finished"
    using w(1-4) calm ready
    by (cases "st i"; cases g)
      (auto simp: stage_picture.simps Let_def calm_def simp del: poll_unit_fut.simps)
  then show "pi_reqs (Ps ! i) = []"
    using calm unfolding P(1) by (cases g) (auto simp: stage_picture.simps Let_def calm_def)
qed

text \<open>The links between the nodes.\<close>

abbreviation linked_nodes :: "picture list \<Rightarrow> (nat \<times> nat) set" where
  "linked_nodes Bs \<equiv> {(i, j). i < length Bs \<and> j < length Bs \<and>
     pv_id (pi_view (Bs ! j)) \<in> set (pv_peers (pi_view (Bs ! i)))}"

lemma flooding_reached:
  assumes fl: "flooding g G k Bs st os Ps" and base: "flood_base g G k Bs"
    and quiet: "\<And>t. \<not> triggered t Ps" and "(k, i) \<in> (linked_nodes Bs)\<^sup>*"
  shows "reached (st i)"
  using assms(4)
proof (induction rule: rtrancl_induct)
  case base
  have k: "k < length Bs" using \<open>flood_base g G k Bs\<close> by blast
  from flooding_quiet(2) [OF fl \<open>flood_base g G k Bs\<close> quiet k] flood_okD(2) [OF conjunct1 [OF fl] k]
  show ?case by auto
next
  case (step i j)
  then have i: "i < length Bs" and j: "j < length Bs"
    and p: "pv_id (pi_view (Bs ! j)) \<in> set (pv_peers (pi_view (Bs ! i)))" by auto
  note ok = conjunct1 [OF fl] and Q = flooding_quiet [OF fl base quiet]
  have "i \<in> G" using flood_okD(1) [OF ok i] step.IH by auto
  with base i p obtain l where "l < length Bs" "l \<in> G" "pv_id (pi_view (Bs ! j)) = pv_id (pi_view (Bs ! l))"
    by blast
  with nth_eq_iff_index_eq [of "ids Bs" j l] base j have "j \<in> G" by simp
  then have "st j \<noteq> Outside" using flood_okD(1) [OF ok j] by simp
  moreover have "st j \<noteq> Fresh" using flood_okD(6) [OF ok i j step.IH p] Q(1) [OF i] by auto
  ultimately show ?case using Q(2) [OF j] by auto
qed

text \<open>The end: every node that is connected with \<open>k\<close> has adopted the message.\<close>

lemma flood_start:
  assumes base: "flood_base g G k Bs" and Ps: "Ps = Bs[k := stage_picture E (name_of g) g (Bs ! k) Publishing []]"
  shows "flooding g G k Bs (\<lambda>i. if i = k then Publishing else if i \<in> G then Fresh else Outside) (\<lambda>i. []) Ps"
    (is "flooding _ _ _ _ ?st _ _")
proof
  show "flood_ok E g G k Bs ?st (\<lambda>i. [])" by (rule flood_okI) (use base in \<open>auto split: if_splits\<close>)
  show "Ps = map (\<lambda>i. stage_picture E (name_of g) g (Bs ! i) (?st i) []) [0..<length Bs]"
    unfolding Ps by (rule nth_equalityI) (auto simp: nth_list_update stage_picture.simps Let_def)
qed

lemma flood_step:
  assumes ok: "list_all sound c" and base: "flood_base g G k Bs"
    and fl: "flooding g G k Bs st os (pics c)" and t: "triggered t (pics c)"
  shows "\<exists>c'. cluster_step E t c = Ret c' \<and> list_all sound c' \<and>
    (pics c' = pics c \<and> noise c' < noise c \<or> (\<exists>st' os'. flooding g G k Bs st' os' (pics c') \<and>
      flood_measure Bs st' os' < flood_measure Bs st os))"
proof (cases "\<exists>i. t = Carry i")
  case True
  then obtain i where i: "t = Carry i" by blast
  from flood_carry_step [OF ok base fl t [unfolded i]] show ?thesis unfolding i by blast
next
  case False
  then have "\<And>i. t \<noteq> Carry i" by blast
  from flood_node_step [OF ok base fl t this] show ?thesis by blast
qed

lemma flood_end:
  assumes fl: "flooding g G k Bs st os Ps" and base: "flood_base g G k Bs" and quiet: "\<And>t. \<not> triggered t Ps"
    and conn: "\<And>i. i < length Bs \<Longrightarrow> i \<in> G \<Longrightarrow> (k, i) \<in> (linked_nodes Bs)\<^sup>*"
  shows "\<exists>e. Ps = map (\<lambda>i. if i \<in> G then stage_picture E (name_of g) g (Bs ! i)
    (if i = k then Published else Finished (e i)) [] else Bs ! i) [0..<length Bs]"
proof -
  note Q = flooding_quiet [OF fl base quiet] and R = flooding_reached [OF fl base quiet]
  define e where "e = (\<lambda>i. SOME e. st i = Finished e)"
  have st: "st i = (if i \<in> G then if i = k then Published else Finished (e i) else Outside)"
    if i: "i < length Bs" for i
    using Q(2) [OF i] R [OF conn [OF i]] flood_okD(1,2) [OF conjunct1 [OF fl] i]
    unfolding e_def by auto
  have "stage_picture E (name_of g) g (Bs ! i) (st i) (os i) = (if i \<in> G then
      stage_picture E (name_of g) g (Bs ! i) (if i = k then Published else Finished (e i)) [] else Bs ! i)"
    if i: "i < length Bs" for i
    unfolding st [OF i] Q(1) [OF i] by (simp add: stage_picture.simps [of _ _ _ _ Outside])
  then show ?thesis
    unfolding conjunct2 [OF fl] by (intro exI [of _ e] map_cong [OF refl]) simp
qed

lemma flood_phase:
  assumes tireless: "tireless E sched" and ok: "list_all sound c" and base: "flood_base g G k Bs"
    and c: "pics c = Bs[k := stage_picture E (name_of g) g (Bs ! k) Publishing []]"
    and conn: "\<And>i. i < length Bs \<Longrightarrow> i \<in> G \<Longrightarrow> (k, i) \<in> (linked_nodes Bs)\<^sup>*"
  shows "\<exists>c' e. run_turns E (sched c) c = Ret c' \<and> list_all sound c' \<and>
    pics c' = map (\<lambda>i. if i \<in> G then stage_picture E (name_of g) g (Bs ! i)
      (if i = k then Published else Finished (e i)) [] else Bs ! i) [0..<length Bs]"
proof -
  let ?J = "\<lambda>m Ps. \<exists>st os. flooding g G k Bs st os Ps \<and> m = flood_measure Bs st os"
  obtain m where start: "?J m (pics c)" using flood_start [OF base c] by blast
  have "\<exists>c' m. run_turns E (sched c) c = Ret c' \<and> list_all sound c' \<and> ?J m (pics c') \<and>
      (\<forall>t. \<not> triggered t (pics c'))"
  proof (rule phase_ends [OF tireless ok, of ?J m, OF start])
    fix c :: "('db, 's, 'i) cluster" and t m
    assume ok: "list_all sound c" and J: "?J m (pics c)" and t: "triggered t (pics c)"
    from J obtain st os where fl: "flooding g G k Bs st os (pics c)" "m = flood_measure Bs st os" by blast
    from flood_step [OF ok base fl(1) t] show "\<exists>c'. cluster_step E t c = Ret c' \<and> list_all sound c' \<and>
        (pics c' = pics c \<and> noise c' < noise c \<or> (\<exists>m' < m. ?J m' (pics c')))"
      unfolding fl(2) by blast
  next
    fix Ps m
    assume "?J m Ps" and quiet: "\<And>t. \<not> triggered t Ps"
    then obtain st os where fl: "flooding g G k Bs st os Ps" by blast
    then have "length Ps = length Bs" by simp
    with flooding_quiet(3) [OF fl base quiet] show "\<forall>P \<in> set Ps. pi_reqs P = []"
      by (metis in_set_conv_nth)
  qed
  then obtain c' st os where c': "run_turns E (sched c) c = Ret c'" "list_all sound c'"
    and fl: "flooding g G k Bs st os (pics c')" and quiet: "\<And>t. \<not> triggered t (pics c')" by blast
  from flood_end [OF fl base quiet conn] c' show ?thesis by blast
qed

end

end
