(* ===== verification/Client_Runs.thy ===== *)
theory Client_Runs
  imports Cluster_Flood
begin

text \<open>
  The operations of the test nodes on a cluster in which nothing is going on: starting a node,
  dialling, sleeping, mining and submitting a transaction lead to such a cluster again, and
  what they change of it is stated on the pictures of its nodes.
\<close>

section \<open>Clusters at rest\<close>

text \<open>
  Every node is calm and the test knows its identifier and its addresses; \<open>L\<close> are the links
  between the nodes, and \<open>H\<close>, \<open>Pl\<close> and \<open>Sn\<close> the headers, the pool and the seen messages of each.
\<close>

definition node_at_rest ::
  "test_node list \<Rightarrow> (nat \<times> nat) set \<Rightarrow> (nat \<Rightarrow> header_map) \<Rightarrow> (nat \<Rightarrow> pool_tx) \<Rightarrow>
   (nat \<Rightarrow> string set) \<Rightarrow> picture list \<Rightarrow> nat \<Rightarrow> bool" where
  "node_at_rest ns L H Pl Sn Ps i \<longleftrightarrow> calm (Ps ! i) \<and> pi_headers (Ps ! i) = H i \<and>
     pi_pool (Ps ! i) = Pl i \<and> pv_seen (pi_view (Ps ! i)) = Sn i \<and> tn_node (ns ! i) = i \<and>
     tn_id (ns ! i) = pv_id (pi_view (Ps ! i)) \<and> tn_addrs (ns ! i) = pv_addrs (pi_view (Ps ! i)) \<and>
     pv_addrs (pi_view (Ps ! i)) \<noteq> [] \<and>
     set (pv_peers (pi_view (Ps ! i))) = {pv_id (pi_view (Ps ! j)) | j. (i, j) \<in> L \<or> (j, i) \<in> L}"

definition at_rest ::
  "test_node list \<Rightarrow> (nat \<times> nat) set \<Rightarrow> (nat \<Rightarrow> header_map) \<Rightarrow> (nat \<Rightarrow> pool_tx) \<Rightarrow>
   (nat \<Rightarrow> string set) \<Rightarrow> picture list \<Rightarrow> bool" where
  "at_rest ns L H Pl Sn Ps \<longleftrightarrow> length ns = length Ps \<and> distinct (ids Ps) \<and>
     L \<subseteq> {..<length Ps} \<times> {..<length Ps} \<and> (\<forall>i < length Ps. node_at_rest ns L H Pl Sn Ps i)"

lemma at_restD:
  assumes "at_rest ns L H Pl Sn Ps"
  shows "length ns = length Ps" and "distinct (ids Ps)" and "L \<subseteq> {..<length Ps} \<times> {..<length Ps}"
    and "i < length Ps \<Longrightarrow> node_at_rest ns L H Pl Sn Ps i" and "list_all calm Ps"
  using assms by (auto simp: at_rest_def node_at_rest_def list_all_length)

fun adopt_headers :: "gossip \<Rightarrow> header_map \<Rightarrow> header_map" where
  "adopt_headers (NewHeader h) m = m(number h \<mapsto> h)"
| "adopt_headers (NewTransactions txs) m = m"

fun adopt_pool :: "gossip \<Rightarrow> pool_tx \<Rightarrow> pool_tx" where
  "adopt_pool (NewHeader h) pool = pool"
| "adopt_pool (NewTransactions txs) pool = snd (add_transactions pool txs)"

lemma adopt_parts:
  "pi_view (adopt g P) = pi_view P" "pi_chans (adopt g P) = pi_chans P" "calm (adopt g P) = calm P"
  "pi_headers (adopt g P) = adopt_headers g (pi_headers P)" "pi_pool (adopt g P) = adopt_pool g (pi_pool P)"
  by (cases g; simp add: calm_def)+

lemma end_parts:
  assumes "calm B"
  shows "calm (stage_picture E x g B Published [])" "calm (stage_picture E x g B (Finished e) [])"
    and "pi_headers (stage_picture E x g B Published []) = pi_headers B"
    and "pi_headers (stage_picture E x g B (Finished e) []) = adopt_headers g (pi_headers B)"
    and "pi_pool (stage_picture E x g B Published []) = pi_pool B"
    and "pi_pool (stage_picture E x g B (Finished e) []) = adopt_pool g (pi_pool B)"
    and "pi_view (stage_picture E x g B Published []) = (pi_view B)\<lparr>pv_seen := insert x (pv_seen (pi_view B))\<rparr>"
    and "pi_view (stage_picture E x g B (Finished e) []) = (pi_view B)\<lparr>pv_seen := insert x (pv_seen (pi_view B))\<rparr>"
  using assms by (cases g; simp add: stage_picture.simps Let_def calm_def)+

text \<open>The nodes \<open>G\<close> that a message of the node \<open>k\<close>, which has a peer, reaches.\<close>

definition island :: "(nat \<times> nat) set \<Rightarrow> nat \<Rightarrow> nat \<Rightarrow> nat set \<Rightarrow> bool" where
  "island L num k G \<longleftrightarrow> k \<in> G \<and> G \<subseteq> {..<num} \<and> (\<forall>i \<in> G. \<forall>j. (i, j) \<in> L \<union> L\<inverse> \<longrightarrow> j \<in> G) \<and>
     (\<forall>i \<in> G. (k, i) \<in> (L \<union> L\<inverse>)\<^sup>*) \<and> (\<exists>j. (k, j) \<in> L \<union> L\<inverse>)"

lemma islandD:
  assumes "island L num k G"
  shows "k \<in> G" and "G \<subseteq> {..<num}" and "i \<in> G \<Longrightarrow> (i, j) \<in> L \<union> L\<inverse> \<Longrightarrow> j \<in> G"
    and "i \<in> G \<Longrightarrow> (k, i) \<in> (L \<union> L\<inverse>)\<^sup>*" and "\<exists>j. (k, j) \<in> L \<union> L\<inverse>"
  using assms unfolding island_def by blast+

text \<open>The links after a dial.\<close>

lemma dial_rest:
  assumes rest: "at_rest ns L H Pl Sn Bs" and ij: "i < length Bs" "j < length Bs" "i \<noteq> j"
    and P: "P = fst (dial_stage a (Bs ! i) (Bs ! j) 0)" and Q: "Q = snd (dial_stage a (Bs ! i) (Bs ! j) 0)"
  shows "at_rest ns (insert (i, j) L) H Pl Sn (Bs[i := P, j := Q])"
proof -
  note D = at_restD [OF rest]
  have id: "pv_id (pi_view (Bs[i := P, j := Q] ! n)) = pv_id (pi_view (Bs ! n))" for n
    using ij by (cases "n < length Bs") (auto simp: nth_list_update P Q dial_stage.simps Let_def)
  have "ids (Bs[i := P, j := Q]) = ids Bs" using id by (auto simp: list_eq_iff_nth_eq)
  moreover have "node_at_rest ns (insert (i, j) L) H Pl Sn (Bs[i := P, j := Q]) n" if n: "n < length Bs" for n
  proof -
    have links: "{pv_id (pi_view (Bs[i := P, j := Q] ! m)) | m. (n, m) \<in> insert (i, j) L \<or> (m, n) \<in> insert (i, j) L} =
        {pv_id (pi_view (Bs ! m)) | m. (n, m) \<in> L \<or> (m, n) \<in> L} \<union>
        (if n = i then {pv_id (pi_view (Bs ! j))} else {}) \<union> (if n = j then {pv_id (pi_view (Bs ! i))} else {})"
      unfolding id using ij(3) by auto
    show ?thesis
      unfolding node_at_rest_def links
      using D(4) [OF n] n ij unfolding node_at_rest_def
      by (auto simp: nth_list_update P Q dial_stage.simps Let_def calm_def)
  qed
  ultimately show ?thesis using D(1-3) ij unfolding at_rest_def by simp
qed

text \<open>A key pair gives a swarm that knows nothing yet, on a database that is new.\<close>

locale test_network =
  connected_swarms E db_ok txn_ok stored view v backlog "message_id (lp_hash (sm_libp2p K))"
  for E :: "('db, 'txn, 's, 'i) system" and db_ok txn_ok stored view v backlog
    and K :: "('k, 'm, 'g, 'd, 's) swarm_maker" +
  fixes to_peer_id :: "'k \<Rightarrow> peer_id"
  assumes new_db: "\<exists>db. redb_create (sy_redb E) path = Inr db \<and> stored db = (Map.empty, Map.empty)"
    and tcp: "\<exists>u. sm_tcp K key = Inr u"
    and config: "\<exists>cfg'. lp_config (sm_libp2p K) \<lparr>message_id_fn = message_id (lp_hash (sm_libp2p K)),
      gossip_validation = Strict, heartbeat_seconds = 10\<rparr> = Inr cfg'"
    and gossipsub: "\<exists>gs. lp_gossipsub (sm_libp2p K) key cfg = Inr gs"
    and built: "v (sm_build K key b) = \<lparr>pv_id = to_peer_id key, pv_addrs = [], pv_peers = [],
      pv_seen = {}, pv_news = [], pv_out = []\<rparr>"
    and subscribed: "\<exists>s'. sm_subscribe K s t = (Inr True, s') \<and> v s' = v s"
begin

section \<open>Starting a node\<close>

abbreviation new_picture :: "peer_id \<Rightarrow> picture" where
  "new_picture p \<equiv> \<lparr>pi_headers = [0 \<mapsto> chain_genesis (sy_ext E)], pi_pool = pool_new,
     pi_view = \<lparr>pv_id = p, pv_addrs = [], pv_peers = [], pv_seen = {}, pv_news = [], pv_out = []\<rparr>,
     pi_cmds = [], pi_sent = [], pi_recv = [], pi_reqs = [], pi_dial = Map.empty,
     pi_listen = Map.empty, pi_chans = []\<rparr>"

lemma network_started:
  assumes "auto_mine_interval cb = None" and "enabled_mdns cb = False"
  shows "\<exists>n. start_network (sy_ext E) (sy_redb E) (sy_timer E) K cb = Ret n \<and> sound n \<and>
    pic n = new_picture (to_peer_id (keypair cb)) \<and>
    no_world n = \<lparr>command_open = True, commands = [], channels = []\<rparr>"
proof -
  obtain u where u: "sm_tcp K (keypair cb) = Inr u" using tcp by blast
  obtain cfg' where c: "lp_config (sm_libp2p K) \<lparr>message_id_fn = message_id (lp_hash (sm_libp2p K)),
      gossip_validation = Strict, heartbeat_seconds = 10\<rparr> = Inr cfg'" using config by blast
  obtain gs where "lp_gossipsub (sm_libp2p K) (keypair cb) cfg' = Inr gs" using gossipsub by blast
  with c obtain b where b: "app_behaviour_new (sm_libp2p K) (keypair cb) False = Ret b"
    by (simp add: app_behaviour_new_def)
  let ?s = "sm_build K (keypair cb) b"
  obtain s1 where s1: "sm_subscribe K ?s BLOCK_HEADER = (Inr True, s1)" "v s1 = v ?s"
    using subscribed by blast
  obtain s2 where s2: "sm_subscribe K s1 TRANSACTIONS = (Inr True, s2)" "v s2 = v s1"
    using subscribed by blast
  obtain db0 where d0: "redb_create (sy_redb E) (db_path cb) = Inr db0" "stored db0 = (Map.empty, Map.empty)"
    using new_db by blast
  have "headers_of (sy_ext E) (stored db0) = Map.empty" by (simp add: d0(2) headers_of_def fun_eq_iff)
  with open_total [OF d0(1) disjI1 [OF d0(2)]] obtain db where
    db: "chain_open (sy_ext E) (sy_redb E) (db_path cb) = Ret db" "db_ok db" "wf_tables (sy_ext E) (stored db)"
      "headers_of (sy_ext E) (stored db) = [0 \<mapsto> chain_genesis (sy_ext E)]" by auto
  let ?n = "\<lparr>no_db = db, no_miner = None, no_network = network_manager_new s2,
    no_manager = chain_net_new db pool_new,
    no_world = \<lparr>command_open = True, commands = [], channels = []\<rparr>\<rparr>"
  have "start_network (sy_ext E) (sy_redb E) (sy_timer E) K cb = Ret ?n"
    by (simp add: start_network_def u assms b s1(1) s2(1) chain_new_def db(1))
  moreover have "sound ?n"
    using db by (simp add: node_sound_def network_manager_new_def chain_net_new_def)
  moreover have "pic ?n = new_picture (to_peer_id (keypair cb))"
    using db s1(2) s2(2) by (simp add: picture_of_def network_manager_new_def chain_net_new_def built)
  ultimately show ?thesis by simp
qed

lemma pic_world:
  "pic (n\<lparr>no_world := w\<rparr>) = (pic n)\<lparr>pi_cmds := commands w, pi_chans := channels w\<rparr>"
  "sound (n\<lparr>no_world := w\<rparr>) \<longleftrightarrow> sound (n\<lparr>no_world := w\<lparr>commands := [], channels := []\<rparr>\<rparr>)"
  by (simp_all add: picture_of_def node_sound_def)

lemma sound_world: "sound n \<Longrightarrow> command_open w \<Longrightarrow> sound (n\<lparr>no_world := w\<rparr>)"
  by (simp add: node_sound_def)

text \<open>A request of a provider that nothing was asked of before.\<close>

lemma set_world_asking:
  assumes "list_all sound c" and "i < length c" and "calm (pic (c ! i))"
    and "w = (world_of c i)\<lparr>commands := commands (world_of c i) @ [cmd],
      channels := channels (world_of c i) @ [fresh_chan]\<rparr>"
  shows "list_all sound (set_world i w c) \<and> pics (set_world i w c) = (pics c)[i := asking [cmd] (pic (c ! i))]"
proof -
  let ?n = "(c ! i)\<lparr>no_world := w\<rparr>"
  have "sound ?n" using assms sound_at [OF assms(1,2)] by (simp add: node_sound_def)
  moreover have "pic ?n = asking [cmd] (pic (c ! i))"
    using assms(3,4) by (simp add: picture_of_def calm_def)
  ultimately show ?thesis
    using assms(1,2) by (simp add: set_world_def map_update list_all_length nth_list_update)
qed

lemma await_answered:
  assumes "run_turns E (sched c) c = Ret c'" and "channels (world_of c' i) = answered k (UnitReply r) cs"
    and "k < length cs"
  shows "await E sched i c (BroadcastFut k) = Ret (r, c')" and "await E sched i c (ListenFut k) = Ret (r, c')"
    and "await E sched i c (DialFut k) = Ret (r, c')"
  using assms(1,2) poll_answered(1-3) [OF assms(3), of r]
  by (simp_all add: await_def del: poll_unit_fut.simps)

lemma await_addrs_answered:
  assumes "run_turns E (sched c) c = Ret c'" and "channels (world_of c' i) = answered k (AddrsReply r) cs"
    and "k < length cs"
  shows "await_addrs E sched i c (AddrsFut k) = Ret (r, c')"
  using assms(1,2) poll_answered(4) [OF assms(3), of r]
  by (simp add: await_addrs_def del: poll_addrs_fut.simps)

text \<open>A new node listens, and knows its address.\<close>

lemma node_listens:
  assumes tireless: "tireless E sched" and ok: "list_all sound c" and calm: "list_all calm (pics c)"
    and n: "sound n" "pic n = new_picture p" "no_world n = \<lparr>command_open = True, commands = [], channels = []\<rparr>"
  shows "\<exists>a w c'. np_start_listening (no_world n) ''/ip4/0.0.0.0/tcp/0'' = Ret (ListenFut 0, w) \<and>
    await E sched (length c) (c @ [n\<lparr>no_world := w\<rparr>]) (ListenFut 0) = Ret (Inr (), c') \<and> list_all sound c' \<and>
    pics c' = pics c @ [listen_done (new_picture p) a]"
proof -
  let ?i = "length c" and ?B = "new_picture p" and ?addr = "''/ip4/0.0.0.0/tcp/0''"
  let ?w = "\<lparr>command_open = True, commands = [StartListening ?addr 0], channels = [fresh_chan]\<rparr>"
  let ?Bs = "pics c @ [?B]" and ?c = "c @ [n\<lparr>no_world := ?w\<rparr>]"
  have listen: "np_start_listening (no_world n) ?addr = Ret (ListenFut 0, ?w)"
    by (simp add: np_start_listening_def oneshot_channel_def send_command_def n(3) fresh_chan_def)
  have calm': "list_all calm ?Bs" "calm ?B" using calm by (simp_all add: calm_def)
  have c: "list_all sound ?c" "pics ?c = ?Bs[?i := listen_queued ?B]"
    using ok n(1,2) sound_world [of n ?w] by (simp_all add: pic_world(1) list_update_append)
  have i: "?i < length ?Bs" by simp
  obtain c' a where c': "run_turns E (sched ?c) ?c = Ret c'" "list_all sound c'"
    and p: "pics c' = ?Bs[?i := listen_done ?B a]"
    using listen_phase [OF tireless c(1) calm'(1) i calm'(2) c(2)] by blast
  have "channels (world_of c' ?i) = answered 0 (UnitReply (Inr ())) [fresh_chan]"
    using pic_at(2) [OF p i] by (simp add: picture_of_def)
  from await_answered(2) [where sched = sched, OF c'(1) this]
  have "await E sched ?i ?c (ListenFut 0) = Ret (Inr (), c')" by simp
  moreover have "pics c' = pics c @ [listen_done ?B a]" unfolding p by (simp add: list_update_append)
  ultimately show ?thesis using listen c'(2) by blast
qed

lemma addrs_known:
  assumes tireless: "tireless E sched" and ok: "list_all sound c" and calm: "list_all calm (pics c)"
    and i: "i < length c"
  shows "\<exists>w c' k. np_listen_addrs (world_of c i) = (AddrsFut k, w) \<and>
    await_addrs E sched i (set_world i w c) (AddrsFut k) = Ret (Inr (pv_addrs (pi_view (pic (c ! i)))), c') \<and>
    list_all sound c' \<and> (\<exists>cs. pics c' = (pics c)[i := (pic (c ! i))\<lparr>pi_chans := cs\<rparr>])"
proof -
  let ?B = "pic (c ! i)" and ?k = "length (channels (world_of c i))"
  let ?w = "(world_of c i)\<lparr>commands := commands (world_of c i) @ [ListenAddrs ?k],
    channels := channels (world_of c i) @ [fresh_chan]\<rparr>"
  let ?c = "set_world i ?w c" and ?r = "AddrsReply (Inr (pv_addrs (pi_view ?B)))"
  have B: "calm ?B" using calm i by (simp add: list_all_length)
  have k: "pi_chans ?B = channels (world_of c i)" by (simp add: picture_of_def)
  have "command_open (world_of c i)" using sound_at [OF ok i] by (simp add: node_sound_def)
  then have addrs: "np_listen_addrs (world_of c i) = (AddrsFut ?k, ?w)"
    by (simp add: np_listen_addrs_def oneshot_channel_def send_command_def fresh_chan_def)
  have c: "list_all sound ?c \<and> pics ?c = (pics c)[i := asking [ListenAddrs ?k] ?B]"
    by (rule set_world_asking [OF ok i B refl])
  have i': "i < length (pics c)" using i by simp
  obtain c' where c': "run_turns E (sched ?c) ?c = Ret c'" "list_all sound c'"
    and p: "pics c' = (pics c)[i := told ?r ?B]"
    using addrs_phase [OF tireless conjunct1 [OF c] calm i' B] c by (auto simp: k)
  have "channels (world_of c' i) = answered ?k ?r (channels (world_of c i) @ [fresh_chan])"
    using pic_at(2) [OF p i'] k by (simp add: picture_of_def)
  from await_addrs_answered [where sched = sched, OF c'(1) this]
  have "await_addrs E sched i ?c (AddrsFut ?k) = Ret (Inr (pv_addrs (pi_view ?B)), c')" by simp
  with addrs c'(2) p show ?thesis by blast
qed

lemma node_started:
  assumes tireless: "tireless E sched" and ok: "list_all sound c" and calm: "list_all calm (pics c)"
    and d: "draw idx = (dk, key, dir)"
  shows "\<exists>a cs c'. test_node_new E K to_peer_id sched draw idx c =
      Ret (\<lparr>tn_id = to_peer_id key, tn_node = length c, tn_addrs = [a]\<rparr>, c') \<and> list_all sound c' \<and>
    pics c' = pics c @ [(new_picture (to_peer_id key))\<lparr>pi_chans := cs, pi_view :=
      (pi_view (new_picture (to_peer_id key)))\<lparr>pv_addrs := [a]\<rparr>\<rparr>]"
proof -
  let ?i = "length c" and ?B = "new_picture (to_peer_id key)"
  let ?cb = "with_keypair (with_mdns (with_db_path (client_default dk)
    (dir @ ''/db_'' @ decimal idx @ ''.redb'')) False) key"
  have cb: "auto_mine_interval ?cb = None" "enabled_mdns ?cb = False" "keypair ?cb = key"
    by (simp_all add: with_keypair_def with_mdns_def with_db_path_def client_default_def)
  obtain n where n: "start_network (sy_ext E) (sy_redb E) (sy_timer E) K ?cb = Ret n" "sound n"
    "pic n = ?B" "no_world n = \<lparr>command_open = True, commands = [], channels = []\<rparr>"
    using network_started [OF cb(1,2)] cb(3) by auto
  obtain a w c1 where l: "np_start_listening (no_world n) ''/ip4/0.0.0.0/tcp/0'' = Ret (ListenFut 0, w)"
    "await E sched ?i (c @ [n\<lparr>no_world := w\<rparr>]) (ListenFut 0) = Ret (Inr (), c1)" "list_all sound c1"
    and p1: "pics c1 = pics c @ [listen_done ?B a]"
    using node_listens [OF tireless ok calm n(2-4)] by blast
  have len: "length c1 = Suc ?i" using arg_cong [OF p1, of length] by simp
  have at: "pic (c1 ! ?i) = listen_done ?B a"
    using arg_cong [OF p1, of "\<lambda>xs. xs ! ?i"] len by (simp add: nth_append)
  have calm1: "list_all calm (pics c1)" "?i < length c1" using calm len by (simp_all add: p1 calm_def)
  obtain k w' c' cs where k: "np_listen_addrs (world_of c1 ?i) = (AddrsFut k, w')"
    "await_addrs E sched ?i (set_world ?i w' c1) (AddrsFut k) = Ret (Inr [a], c')" "list_all sound c'"
    and p2: "pics c' = (pics c1)[?i := (listen_done ?B a)\<lparr>pi_chans := cs\<rparr>]"
    using addrs_known [OF tireless l(3) calm1] unfolding at by auto
  have "test_node_new E K to_peer_id sched draw idx c =
      Ret (\<lparr>tn_id = to_peer_id key, tn_node = ?i, tn_addrs = [a]\<rparr>, c')"
    by (simp only: test_node_new_def d Let_def prod.case n(1) obind_Ret l expect_simps k)
  with k(3) p2 show ?thesis
    by (intro exI [of _ a] exI [of _ cs] exI [of _ c']) (simp add: p1 list_update_append)
qed

abbreviation all_new :: "test_node list \<Rightarrow> picture list \<Rightarrow> bool" where
  "all_new ns \<equiv> at_rest ns {} (\<lambda>i. [0 \<mapsto> chain_genesis (sy_ext E)]) (\<lambda>i. pool_new) (\<lambda>i. {})"

lemma node_added:
  assumes tireless: "tireless E sched" and ok: "list_all sound c" and rest: "all_new ns (pics c)"
    and d: "draw idx = (dk, key, dir)" and new: "to_peer_id key \<notin> set (ids (pics c))"
  shows "\<exists>node c'. test_node_new E K to_peer_id sched draw idx c = Ret (node, c') \<and> list_all sound c' \<and>
    all_new (ns @ [node]) (pics c') \<and> ids (pics c') = ids (pics c) @ [to_peer_id key]"
proof -
  let ?p = "to_peer_id key"
  obtain a cs c' where c': "test_node_new E K to_peer_id sched draw idx c =
      Ret (\<lparr>tn_id = ?p, tn_node = length c, tn_addrs = [a]\<rparr>, c')" "list_all sound c'"
    "pics c' = pics c @ [(new_picture ?p)\<lparr>pi_chans := cs, pi_view := (pi_view (new_picture ?p))\<lparr>pv_addrs := [a]\<rparr>\<rparr>]"
    using node_started [where draw = draw, OF tireless ok at_restD(5) [OF rest] d] by blast
  have len: "length ns = length c" using at_restD(1) [OF rest] by simp
  have "all_new (ns @ [\<lparr>tn_id = ?p, tn_node = length c, tn_addrs = [a]\<rparr>]) (pics c')"
    unfolding at_rest_def c'(3)
  proof (intro conjI allI impI)
    fix i
    assume i: "i < length (pics c @ [(new_picture ?p)\<lparr>pi_chans := cs,
      pi_view := (pi_view (new_picture ?p))\<lparr>pv_addrs := [a]\<rparr>\<rparr>])"
    show "node_at_rest (ns @ [\<lparr>tn_id = ?p, tn_node = length c, tn_addrs = [a]\<rparr>]) {}
        (\<lambda>i. [0 \<mapsto> chain_genesis (sy_ext E)]) (\<lambda>i. pool_new) (\<lambda>i. {})
        (pics c @ [(new_picture ?p)\<lparr>pi_chans := cs, pi_view := (pi_view (new_picture ?p))\<lparr>pv_addrs := [a]\<rparr>\<rparr>]) i"
      using at_restD(4) [OF rest, of i] i len
      by (cases "i < length c") (auto simp: node_at_rest_def nth_append calm_def less_Suc_eq)
  qed (use new at_restD(2) [OF rest] len in auto)
  with c' show ?thesis by (intro exI conjI) (assumption+, simp)
qed

lemma nodes_spawned:
  assumes tireless: "tireless E sched"
    and dist: "inj_on (\<lambda>i. to_peer_id (fst (snd (draw i)))) {..<num}"
  shows "\<exists>ns c. spawn_nodes E K to_peer_id sched draw num = Ret (ns, c) \<and> list_all sound c \<and>
    all_new ns (pics c) \<and> length c = num"
proof -
  let ?id = "\<lambda>i. to_peer_id (fst (snd (draw i)))"
  have loop: "\<exists>ns' c'. spawn_loop E K to_peer_id sched draw [i..<num] ns c = Ret (ns', c') \<and>
      list_all sound c' \<and> all_new ns' (pics c') \<and> length c' = num"
    if "i \<le> num" "list_all sound c" "all_new ns (pics c)" "ids (pics c) = map ?id [0..<i]" for i ns c
    using that
  proof (induction "num - i" arbitrary: i ns c)
    case 0
    moreover have "length c = i" using arg_cong [OF 0(5), of length] by simp
    ultimately show ?case by auto
  next
    case (Suc d)
    obtain dk key dir where d: "draw i = (dk, key, dir)" by (cases "draw i") auto
    have "i < num" using Suc.hyps(2) by simp
    then have "?id x \<noteq> ?id i" if "x < i" for x using inj_onD [OF dist, of x i] that by auto
    then have "?id i \<notin> set (ids (pics c))" unfolding Suc.prems(4) by fastforce
    then obtain node c' where c': "test_node_new E K to_peer_id sched draw i c = Ret (node, c')"
      "list_all sound c'" "all_new (ns @ [node]) (pics c')" "ids (pics c') = map ?id [0..<Suc i]"
      using node_added [where draw = draw, OF tireless Suc.prems(2,3) d] Suc.prems(4) by (auto simp: d)
    with Suc.hyps(1) [of "Suc i" c' "ns @ [node]"] Suc.hyps(2) show ?case
      by (simp add: upt_conv_Cons)
  qed
  show ?thesis
    unfolding spawn_nodes_def using loop [of 0 "[]" "[]"] by (simp add: at_rest_def)
qed

section \<open>Sleeping and dialling\<close>

lemma rest_sleeps:
  assumes "tireless E sched" and "list_all sound c" and "at_rest ns L H Pl Sn (pics c)"
  shows "\<exists>c'. sleep E sched c = Ret c' \<and> list_all sound c' \<and> pics c' = pics c"
  using calm_phase [OF assms(1,2) at_restD(5) [OF assms(3)]] by (simp add: sleep_def)

lemma dialled:
  assumes tireless: "tireless E sched" and ok: "list_all sound c"
    and rest: "at_rest ns L H Pl Sn (pics c)" and ij: "i < length c" "j < length c" "i \<noteq> j"
  shows "\<exists>c'. dial_to E sched ns i j c = Ret c' \<and> list_all sound c' \<and>
    at_rest ns (insert (i, j) L) H Pl Sn (pics c') \<and> length c' = length c"
proof -
  let ?Bs = "pics c" and ?Bi = "pic (c ! i)" and ?Bj = "pic (c ! j)"
  note D = at_restD [OF rest]
  have len: "length ns = length c" using D(1) by simp
  have Ni: "node_at_rest ns L H Pl Sn ?Bs i" and Nj: "node_at_rest ns L H Pl Sn ?Bs j" using D(4) ij by simp_all
  obtain a as where a: "tn_addrs (ns ! j) = a # as" "pv_addrs (pi_view ?Bj) = a # as"
    using Nj ij by (cases "tn_addrs (ns ! j)") (auto simp: node_at_rest_def)
  let ?p = "pv_id (pi_view ?Bj)" and ?k = "length (channels (world_of c i))"
  let ?w = "(world_of c i)\<lparr>commands := commands (world_of c i) @ [Dial ?p a ?k],
    channels := channels (world_of c i) @ [fresh_chan]\<rparr>"
  have "command_open (world_of c i)" using sound_at [OF ok ij(1)] by (simp add: node_sound_def)
  then have dial: "np_dial (world_of c i) ?p a = (DialFut ?k, ?w)"
    by (simp add: np_dial_def oneshot_channel_def send_command_def fresh_chan_def)
  have calm: "calm ?Bi" using Ni ij by (simp add: node_at_rest_def)
  have chans: "pi_chans ?Bi = channels (world_of c i)" by (simp add: picture_of_def)
  have "list_all sound (set_world i ?w c) \<and> pics (set_world i ?w c) = ?Bs[i := asking [Dial ?p a ?k] ?Bi]"
    by (rule set_world_asking [OF ok ij(1) calm refl])
  moreover have "?Bs[i := asking [Dial ?p a ?k] ?Bi] = dial_stages a ?Bs i j 4"
  proof -
    have "(?Bs[i := P])[j := ?Bj] = ?Bs[i := P]" for P using ij by (metis length_map list_update_id list_update_swap nth_map)
    then show ?thesis using ij by (simp add: dial_stage.simps Let_def chans)
  qed
  ultimately have c1: "list_all sound (set_world i ?w c)" "pics (set_world i ?w c) = dial_stages a ?Bs i j 4"
    by simp_all
  obtain c' where c': "run_turns E (sched (set_world i ?w c)) (set_world i ?w c) = Ret c'" "list_all sound c'"
    and p: "pics c' = dial_stages a ?Bs i j 0"
    using dial_phase [OF tireless c1 D(5) _ _ ij(3) D(2)] ij a by auto
  let ?P = "fst (dial_stage a ?Bi ?Bj 0)" and ?Q = "snd (dial_stage a ?Bi ?Bj 0)"
  have p': "pics c' = ?Bs[i := ?P, j := ?Q]" unfolding p using ij by simp
  have "pic (c' ! i) = ?P"
    using arg_cong [OF p', of "\<lambda>xs. xs ! i"] arg_cong [OF p', of length] ij by simp
  then have "channels (world_of c' i) = answered ?k (UnitReply (Inr ())) (channels (world_of c i) @ [fresh_chan])"
    using chans by (simp add: picture_of_def dial_stage.simps Let_def)
  from await_answered(3) [where sched = sched, OF c'(1) this]
  have "await E sched i (set_world i ?w c) (DialFut ?k) = Ret (Inr (), c')" by simp
  then have "dial_to E sched ns i j c = Ret c'"
    using ij len a Ni Nj dial by (simp add: dial_to_def vec_index_def test_node_dial_def node_at_rest_def)
  moreover have "at_rest ns (insert (i, j) L) H Pl Sn (pics c')"
    unfolding p' by (rule dial_rest [OF rest]) (use ij in auto)
  moreover have "length c' = length c" using arg_cong [OF p', of length] by simp
  ultimately show ?thesis using c'(2) by blast
qed

section \<open>Spreading a block or a transaction\<close>

lemma rest_linked:
  assumes rest: "at_rest ns L H Pl Sn Ps" and views: "map pi_view Bs = map pi_view Ps"
  shows "L \<union> L\<inverse> \<subseteq> linked_nodes Bs" and "i < length Ps \<Longrightarrow> set (pv_peers (pi_view (Bs ! i))) =
    {pv_id (pi_view (Bs ! j)) | j. (i, j) \<in> L \<union> L\<inverse>}"
proof -
  have len: "length Bs = length Ps" using arg_cong [OF views, of length] by simp
  have v: "pi_view (Bs ! n) = pi_view (Ps ! n)" if "n < length Ps" for n
    using arg_cong [OF views, of "\<lambda>xs. xs ! n"] that len by simp
  note D = at_restD [OF rest]
  show peers: "set (pv_peers (pi_view (Bs ! i))) = {pv_id (pi_view (Bs ! j)) | j. (i, j) \<in> L \<union> L\<inverse>}"
    if "i < length Ps" for i
  proof -
    have e: "pi_view (Bs ! j) = pi_view (Ps ! j)" if "(i, j) \<in> L \<union> L\<inverse>" for j using that D(3) v by auto
    have "set (pv_peers (pi_view (Bs ! i))) = {pv_id (pi_view (Ps ! j)) | j. (i, j) \<in> L \<or> (j, i) \<in> L}"
      using D(4) [OF that] v [OF that] by (simp add: node_at_rest_def)
    also have "\<dots> = {pv_id (pi_view (Bs ! j)) | j. (i, j) \<in> L \<union> L\<inverse>}"
      by (rule Collect_cong, rule ex_cong1) (use e in auto)
    finally show ?thesis .
  qed
  show "L \<union> L\<inverse> \<subseteq> linked_nodes Bs"
  proof (rule subrelI)
    fix i j
    assume ij: "(i, j) \<in> L \<union> L\<inverse>"
    then have "i < length Ps" "j < length Ps" using D(3) by auto
    with peers ij len show "(i, j) \<in> linked_nodes Bs" by auto
  qed
qed

lemma adopted_views:
  assumes "k < length Ps"
  shows "map pi_view (Ps[k := adopt g (Ps ! k)]) = map pi_view Ps" and "ids (Ps[k := adopt g (Ps ! k)]) = ids Ps"
  using assms by (auto simp: list_eq_iff_nth_eq nth_list_update adopt_parts)

lemma spread_base:
  assumes rest: "at_rest ns L H Pl Sn Ps" and k: "k < length Ps" "island L (length Ps) k G"
    and new: "\<forall>i \<in> G. name_of g \<notin> Sn i" and fits: "\<forall>i \<in> G. adoptable (sy_ext E) g (H i)"
    and Bs: "Bs = Ps[k := adopt g (Ps ! k)]"
  shows "flood_base g G k Bs"
proof -
  note D = at_restD [OF rest] and I = islandD [OF k(2)]
  note V = adopted_views [OF k(1), of g, folded Bs] and peers = rest_linked(2) [OF rest V(1) [unfolded Bs], folded Bs]
  have B: "Bs ! i = (if i = k then adopt g (Ps ! k) else Ps ! i)" if "i < length Ps" for i
    using that by (simp add: Bs nth_list_update)
  have len: "length Bs = length Ps" by (simp add: Bs)
  note N = D(4) [unfolded node_at_rest_def]
  have calm: "list_all calm Bs" using N by (simp add: list_all_length len B adopt_parts)
  show ?thesis
  proof (intro conjI allI impI calm)
    show "distinct (ids Bs)" unfolding V(2) by (rule D(2))
    show "pv_peers (pi_view (Bs ! k)) \<noteq> []" using peers [OF k(1)] I(5) by auto
    fix i
    assume i: "i < length Bs" "i \<in> G"
    then have i': "i < length Ps" by (simp add: len)
    show "name_of g \<notin> pv_seen (pi_view (Bs ! i))"
      using N [OF i'] new i(2) unfolding B [OF i'] by (auto simp: adopt_parts)
    show "adoptable (sy_ext E) g (pi_headers (Bs ! i))" if "i \<noteq> k"
      using N [OF i'] fits i(2) that by (simp add: B [OF i'])
    show "\<forall>p \<in> set (pv_peers (pi_view (Bs ! i))). \<exists>j < length Bs. j \<in> G \<and> p = pv_id (pi_view (Bs ! j))"
      using peers [OF i'] I(3) [OF i(2)] I(2) len by auto
  qed (use k I len in simp_all)
qed

text \<open>The cluster after the flood is at rest again.\<close>

lemma spread_rest:
  assumes rest: "at_rest ns L H Pl Sn Ps" and len: "length Qs = length Ps" and k: "k \<in> G"
    and Q: "\<And>i. i < length Ps \<Longrightarrow> Qs ! i = (if i = k then stage_picture E (name_of g) g (adopt g (Ps ! k)) Published []
      else if i \<in> G then stage_picture E (name_of g) g (Ps ! i) (Finished (e i)) [] else Ps ! i)"
  shows "at_rest ns L (\<lambda>i. if i \<in> G then adopt_headers g (H i) else H i)
    (\<lambda>i. if i \<in> G then adopt_pool g (Pl i) else Pl i)
    (\<lambda>i. if i \<in> G then insert (name_of g) (Sn i) else Sn i) Qs"
proof -
  note D = at_restD [OF rest]
  have id: "pv_id (pi_view (Qs ! i)) = pv_id (pi_view (Ps ! i))" if "i < length Ps" for i
    using that by (simp add: Q stage_picture_id adopt_parts)
  have "ids Qs = ids Ps" using id len by (intro nth_equalityI) simp_all
  moreover have "node_at_rest ns L (\<lambda>i. if i \<in> G then adopt_headers g (H i) else H i)
      (\<lambda>i. if i \<in> G then adopt_pool g (Pl i) else Pl i)
      (\<lambda>i. if i \<in> G then insert (name_of g) (Sn i) else Sn i) Qs i" if i: "i < length Ps" for i
  proof -
    have e: "pv_id (pi_view (Qs ! j)) = pv_id (pi_view (Ps ! j))" if "(i, j) \<in> L \<or> (j, i) \<in> L" for j
      using that D(3) by (intro id) auto
    have "{pv_id (pi_view (Qs ! j)) | j. (i, j) \<in> L \<or> (j, i) \<in> L} =
        {pv_id (pi_view (Ps ! j)) | j. (i, j) \<in> L \<or> (j, i) \<in> L}"
      by (rule Collect_cong, rule ex_cong1) (use e in auto)
    then show ?thesis
      unfolding node_at_rest_def using D(4) [OF i] i k unfolding node_at_rest_def
      by (auto simp: Q end_parts adopt_parts)
  qed
  ultimately show ?thesis using D(1-3) len unfolding at_rest_def by simp
qed

lemma spread:
  assumes tireless: "tireless E sched" and rest: "at_rest ns L H Pl Sn (pics c)"
    and ok: "list_all sound c1" and k: "k < length c" "island L (length c) k G"
    and c1: "pics c1 = (pics c)[k := asking [gossip_command g (length (pi_chans (pic (c ! k))))] (adopt g (pic (c ! k)))]"
    and new: "\<forall>i \<in> G. name_of g \<notin> Sn i" and fits: "\<forall>i \<in> G. adoptable (sy_ext E) g (H i)"
  shows "\<exists>c'. run_turns E (sched c1) c1 = Ret c' \<and> list_all sound c' \<and> length c' = length c \<and>
    channels (world_of c' k) = answered (length (channels (world_of c k))) (UnitReply (Inr ()))
      (channels (world_of c k) @ [fresh_chan]) \<and>
    at_rest ns L (\<lambda>i. if i \<in> G then adopt_headers g (H i) else H i)
      (\<lambda>i. if i \<in> G then adopt_pool g (Pl i) else Pl i)
      (\<lambda>i. if i \<in> G then insert (name_of g) (Sn i) else Sn i) (pics c')"
proof -
  let ?Ps = "pics c" and ?A = "adopt g (pic (c ! k))" and ?S = "stage_picture E (name_of g) g"
  define Bs where Bs: "Bs = ?Ps[k := ?A]"
  have k': "k < length ?Ps" "island L (length ?Ps) k G" using k by simp_all
  have base: "flood_base g G k Bs"
    using spread_base [OF rest k' new fits] k(1) by (simp add: Bs)
  have lenB: "length Bs = length c" by (simp add: Bs)
  have start: "pics c1 = Bs[k := ?S (Bs ! k) Publishing []]"
    unfolding c1 Bs using k(1) by (simp add: stage_picture.simps Let_def adopt_parts)
  have views: "map pi_view Bs = map pi_view ?Ps" using adopted_views(1) [OF k'(1), of g] k(1) by (simp add: Bs)
  have reach: "(k, i) \<in> (linked_nodes Bs)\<^sup>*" if "i \<in> G" for i
    using islandD(4) [OF k(2) that] rtrancl_mono [OF rest_linked(1) [OF rest views]] by blast
  obtain c' e where c': "run_turns E (sched c1) c1 = Ret c'" "list_all sound c'"
    and p: "pics c' = map (\<lambda>i. if i \<in> G then ?S (Bs ! i) (if i = k then Published else Finished (e i)) []
      else Bs ! i) [0..<length Bs]"
    using flood_phase [OF tireless ok base start reach] by blast
  have len: "length c' = length c" using arg_cong [OF p, of length] lenB by simp
  note kG = islandD(1) [OF k(2)]
  have P: "pics c' ! i = (if i = k then ?S (adopt g (?Ps ! k)) Published []
      else if i \<in> G then ?S (?Ps ! i) (Finished (e i)) [] else ?Ps ! i)" if "i < length ?Ps" for i
    unfolding p using that kG lenB k(1) by (auto simp: Bs nth_list_update)
  have chans: "channels (world_of d i) = pi_chans (pic (d ! i))" for d :: "('db, 's, 'i) cluster" and i
    by (simp add: picture_of_def)
  have "channels (world_of c' k) = answered (length (channels (world_of c k))) (UnitReply (Inr ()))
      (channels (world_of c k) @ [fresh_chan])"
    unfolding chans using P [OF k'(1)] k(1) len by (simp add: stage_picture.simps Let_def adopt_parts)
  moreover have "length (pics c') = length ?Ps" using len by simp
  note spread_rest [OF rest this kG P]
  ultimately show ?thesis using c' len by blast
qed

text \<open>The node \<open>k\<close> has adopted \<open>g\<close> itself, asks its network task to broadcast it and waits.\<close>

lemma spread_awaited:
  assumes tireless: "tireless E sched" and ok: "list_all sound c"
    and rest: "at_rest ns L H Pl Sn (pics c)" and k: "k < length c" "island L (length c) k G"
    and n: "sound n" "pic n = adopt g (pic (c ! k))"
    and w: "w = (no_world n)\<lparr>commands := commands (no_world n) @ [gossip_command g (length (channels (no_world n)))],
      channels := channels (no_world n) @ [fresh_chan]\<rparr>"
    and new: "\<forall>i \<in> G. name_of g \<notin> Sn i" and fits: "\<forall>i \<in> G. adoptable (sy_ext E) g (H i)"
  shows "\<exists>c'. await E sched k (set_world k w (c[k := n])) (BroadcastFut (length (channels (no_world n)))) =
      Ret (Inr (), c') \<and> list_all sound c' \<and> length c' = length c \<and>
    at_rest ns L (\<lambda>i. if i \<in> G then adopt_headers g (H i) else H i)
      (\<lambda>i. if i \<in> G then adopt_pool g (Pl i) else Pl i)
      (\<lambda>i. if i \<in> G then insert (name_of g) (Sn i) else Sn i) (pics c')"
proof -
  let ?c = "c[k := n]" and ?c1 = "set_world k w (c[k := n])"
  have ch: "channels (no_world n) = channels (world_of c k)"
    using arg_cong [OF n(2), of pi_chans] by (simp add: adopt_parts) (simp add: picture_of_def)
  have "calm (pic (c ! k))" using at_restD(4) [OF rest, of k] k(1) by (simp add: node_at_rest_def)
  then have "calm (pic (?c ! k))" using n(2) k(1) by (simp add: adopt_parts)
  moreover have "list_all sound ?c" using ok n(1) k(1) by (simp add: list_all_length nth_list_update)
  ultimately have "list_all sound ?c1 \<and> pics ?c1 = (pics ?c)[k := asking
      [gossip_command g (length (channels (no_world n)))] (pic (?c ! k))]"
    using k(1) w by (intro set_world_asking) simp_all
  moreover have "(pics ?c)[k := P] = (pics c)[k := P]" for P by (simp add: map_update)
  ultimately have c1: "list_all sound ?c1" "pics ?c1 = (pics c)[k := asking
      [gossip_command g (length (pi_chans (pic (c ! k))))] (adopt g (pic (c ! k)))]"
    using k(1) n(2) ch by (simp_all add: picture_of_def [of _ _ _ "c ! k"])
  from spread [OF tireless rest c1(1) k c1(2) new fits] obtain c' where
    c': "run_turns E (sched ?c1) ?c1 = Ret c'" "list_all sound c'" "length c' = length c"
      "channels (world_of c' k) = answered (length (channels (world_of c k))) (UnitReply (Inr ()))
        (channels (world_of c k) @ [fresh_chan])"
    and r: "at_rest ns L (\<lambda>i. if i \<in> G then adopt_headers g (H i) else H i)
      (\<lambda>i. if i \<in> G then adopt_pool g (Pl i) else Pl i)
      (\<lambda>i. if i \<in> G then insert (name_of g) (Sn i) else Sn i) (pics c')" by blast
  from await_answered(1) [where sched = sched, OF c'(1,4)]
  have "await E sched k ?c1 (BroadcastFut (length (channels (no_world n)))) = Ret (Inr (), c')" by (simp add: ch)
  with c' r show ?thesis by blast
qed

lemma mined_at:
  assumes tireless: "tireless E sched" and ok: "list_all sound c"
    and rest: "at_rest ns L H Pl Sn (pics c)" and k: "k < length c" "island L (length c) k G"
    and m: "\<forall>i \<in> G. H i = m" and room: "tip_number m < bound"
    and h: "h = mined_next (sy_ext E) inp m" and new: "\<forall>i \<in> G. name_of (NewHeader h) \<notin> Sn i"
  shows "\<exists>c'. mine_at E sched ns k inp c = Ret c' \<and> list_all sound c' \<and> length c' = length c \<and>
    at_rest ns L (\<lambda>i. if i \<in> G then m(number h \<mapsto> h) else H i) Pl
      (\<lambda>i. if i \<in> G then insert (name_of (NewHeader h)) (Sn i) else Sn i) (pics c')"
proof -
  let ?X = "sy_ext E" and ?R = "sy_redb E" and ?g = "NewHeader h" and ?n = "c ! k"
  have N: "node_at_rest ns L H Pl Sn (pics c) k" using at_restD(4) [OF rest] k(1) by simp
  then have hm: "headers_of ?X (stored (no_db ?n)) = m"
    using m islandD(1) [OF k(2)] k(1) by (simp add: node_at_rest_def picture_of_def)
  have inv: "db_ok (no_db ?n) \<and> wf_tables ?X (stored (no_db ?n))"
    using sound_at [OF ok k(1)] by (simp add: node_sound_def)
  obtain db where mine: "bt_mine_block ?X (chain_tree ?X ?R) (no_db ?n) inp = Ret (Mined h, db)"
    using rbt.mine_succeeds [OF inv, of bound ?X inp] room hm h by auto
  note M = bt.mine_Mined [OF inv mine]
  let ?m = "?n\<lparr>no_db := db\<rparr>" and ?kk = "length (channels (world_of c k))"
  let ?w = "(no_world ?m)\<lparr>commands := commands (no_world ?m) @ [gossip_command ?g (length (channels (no_world ?m)))],
    channels := channels (no_world ?m) @ [fresh_chan]\<rparr>"
  have s: "sound ?m" "pic ?m = adopt ?g (pic ?n)"
    using M(1,2) sound_at [OF ok k(1)] hm by (simp_all add: node_sound_def picture_of_def)
  have wf: "wf_headers m" using inv unfolding hm [symmetric] by (cases "stored (no_db ?n)") (simp add: wf_tables_headers)
  have fits: "\<forall>i \<in> G. adoptable ?X ?g (H i)"
    using add_mined [OF wf room chain_genesis_number h, of "overflow_checks ?X"] m by simp
  obtain c' where a: "await E sched k (set_world k ?w (c[k := ?m])) (BroadcastFut ?kk) = Ret (Inr (), c')"
    and c': "list_all sound c'" "length c' = length c"
    and r: "at_rest ns L (\<lambda>i. if i \<in> G then adopt_headers ?g (H i) else H i)
      (\<lambda>i. if i \<in> G then adopt_pool ?g (Pl i) else Pl i)
      (\<lambda>i. if i \<in> G then insert (name_of ?g) (Sn i) else Sn i) (pics c')"
    using spread_awaited [OF tireless ok rest k s refl new fits] by auto
  have "command_open (world_of c k)" using sound_at [OF ok k(1)] by (simp add: node_sound_def)
  then have "np_broadcast_block_header (world_of c k) h = Ret (BroadcastFut ?kk, ?w)"
    by (simp add: np_broadcast_block_header_def oneshot_channel_def send_command_def fresh_chan_def)
  with a k(1) have send: "obind (send_from k np_broadcast_block_header (c[k := ?m]) h) (\<lambda>(f, c).
      obind (await E sched k c f) x) = x (Inr (), c')" for x
    by (simp add: send_from_def)
  have "mine_at E sched ns k inp c = Ret c'"
    using N k(1) at_restD(1) [OF rest] mine
    by (simp add: mine_at_def vec_index_def test_node_mining_def mine_and_broadcast_block_def
        node_at_rest_def send)
  moreover have "(\<lambda>i. if i \<in> G then adopt_headers ?g (H i) else H i) =
      (\<lambda>i. if i \<in> G then m(number h \<mapsto> h) else H i)" using m by (auto simp: fun_eq_iff)
  moreover have "(\<lambda>i. if i \<in> G then adopt_pool ?g (Pl i) else Pl i) = Pl" by auto
  ultimately show ?thesis using c' r by simp
qed

lemma submitted_at:
  assumes tireless: "tireless E sched" and ok: "list_all sound c"
    and rest: "at_rest ns L H Pl Sn (pics c)" and k: "k < length c" "island L (length c) k G"
    and unknown: "map_of (Pl k) (tx_hash tx) = None"
    and new: "\<forall>i \<in> G. name_of (NewTransactions [tx]) \<notin> Sn i"
  shows "\<exists>c'. add_external_transaction E sched info_logged (ns ! k) tx c = Ret c' \<and> list_all sound c' \<and>
    length c' = length c \<and>
    at_rest ns L H (\<lambda>i. if i \<in> G then snd (add_transactions (Pl i) [tx]) else Pl i)
      (\<lambda>i. if i \<in> G then insert (name_of (NewTransactions [tx])) (Sn i) else Sn i) (pics c')"
proof -
  let ?g = "NewTransactions [tx]" and ?n = "c ! k"
  have N: "node_at_rest ns L H Pl Sn (pics c) k" using at_restD(4) [OF rest] k(1) by simp
  then have pool: "pool_at k c = Pl k" using k(1) by (simp add: node_at_rest_def picture_of_def)
  let ?m = "?n\<lparr>no_manager := (no_manager ?n)\<lparr>cn_pool := snd (add_transactions (Pl k) [tx])\<rparr>\<rparr>"
  let ?kk = "length (channels (world_of c k))"
  let ?w = "(no_world ?m)\<lparr>commands := commands (no_world ?m) @ [gossip_command ?g (length (channels (no_world ?m)))],
    channels := channels (no_world ?m) @ [fresh_chan]\<rparr>"
  have s: "sound ?m" "pic ?m = adopt ?g (pic ?n)"
    using sound_at [OF ok k(1)] pool by (simp_all add: node_sound_def picture_of_def)
  have fits: "\<forall>i \<in> G. adoptable (sy_ext E) ?g (H i)" by simp
  obtain c' where a: "await E sched k (set_world k ?w (c[k := ?m])) (BroadcastFut ?kk) = Ret (Inr (), c')"
    and c': "list_all sound c'" "length c' = length c"
    and r: "at_rest ns L (\<lambda>i. if i \<in> G then adopt_headers ?g (H i) else H i)
      (\<lambda>i. if i \<in> G then adopt_pool ?g (Pl i) else Pl i)
      (\<lambda>i. if i \<in> G then insert (name_of ?g) (Sn i) else Sn i) (pics c')"
    using spread_awaited [OF tireless ok rest k s refl new fits] by auto
  have "command_open (world_of c k)" using sound_at [OF ok k(1)] by (simp add: node_sound_def)
  then have "np_broadcast_transactions (world_of c k) [tx] = Ret (BroadcastFut ?kk, ?w)"
    by (simp add: np_broadcast_transactions_def oneshot_channel_def send_command_def fresh_chan_def)
  with a k(1) have send: "obind (send_from k np_broadcast_transactions (c[k := ?m]) [tx]) (\<lambda>(f, c).
      obind (await E sched k c f) x) = x (Inr (), c')" for x
    by (simp add: send_from_def)
  obtain pool' where add: "add_transactions (Pl k) [tx] = ([tx_hash tx], pool')"
    using unknown by (auto simp: add_transactions_def btm_insert_def Let_def)
  have "add_external_transaction E sched info_logged (ns ! k) tx c = Ret c'"
    using N k(1) by (simp add: add_external_transaction_def pool add
        add_transactions_and_broadcast_def node_at_rest_def send [unfolded add snd_conv])
  moreover have "(\<lambda>i. if i \<in> G then adopt_headers ?g (H i) else H i) = H" by auto
  ultimately show ?thesis using c' r [unfolded adopt_pool.simps] by simp
qed

end

end
