(* ===== verification/Client_Pass.thy ===== *)
theory Client_Pass
  imports Client_Runs
begin

text \<open>
  The four tests of the client pass. Their nodes form lines of neighbours, on which the blocks
  that are mined one after the other, or a transaction, reach every node before the test looks.
\<close>

section \<open>The chain that is mined\<close>

text \<open>The headers after \<open>n\<close> blocks were mined on the genesis, and the block with the index \<open>n\<close>.\<close>

primrec mined_map :: "ext \<Rightarrow> (nat \<Rightarrow> mining_inputs) \<Rightarrow> nat \<Rightarrow> header_map" where
  "mined_map X inp 0 = [0 \<mapsto> chain_genesis X]"
| "mined_map X inp (Suc n) = (let m = mined_map X inp n; h = mined_next X (inp n) m in m(number h \<mapsto> h))"

definition mined_block :: "ext \<Rightarrow> (nat \<Rightarrow> mining_inputs) \<Rightarrow> nat \<Rightarrow> header" where
  "mined_block X inp n = mined_next X (inp n) (mined_map X inp n)"

lemma mined_map_Suc:
  "mined_map X inp (Suc n) = (mined_map X inp n)(number (mined_block X inp n) \<mapsto> mined_block X inp n)"
  by (simp add: mined_block_def Let_def)

lemma mined_block_number: "number (mined_block X inp n) = tip_number (mined_map X inp n) + 1"
  by (simp add: mined_block_def mined_header_def mine_block_def Let_def)

lemma mined_map_tip:
  assumes "n < 1000"
  shows "wf_headers (mined_map X inp n) \<and> tip_number (mined_map X inp n) = of_nat n"
  using assms
proof (induction n)
  case 0
  have "wf_headers (mined_map X inp 0)" by (auto simp: wf_headers_def split: if_splits)
  moreover have "tip_number (mined_map X inp 0) = 0" by (simp add: tip_number_def)
  ultimately show ?case by (simp del: mined_map.simps)
next
  case (Suc n)
  then have IH: "wf_headers (mined_map X inp n)" "tip_number (mined_map X inp n) = of_nat n" by simp_all
  have lt: "(of_nat n :: u64) < of_nat (Suc n)"
    using Suc.prems by (simp add: word_less_nat_alt unat_of_nat del: of_nat_Suc)
  have num: "number (mined_block X inp n) = of_nat (Suc n)"
    using mined_block_number [of X inp n] IH(2) by simp
  have "wf_headers (mined_map X inp (Suc n))"
    unfolding mined_map_Suc using tip_number_in [OF IH(1)] IH(2) num by (intro wf_headers_upd IH(1)) simp
  moreover have "tip_number (mined_map X inp (Suc n)) = of_nat (Suc n)"
    unfolding mined_map_Suc tip_number_upd [OF IH(1)] IH(2) num using lt by (intro max_absorb2) simp
  ultimately show ?case ..
qed

section \<open>Lines of nodes\<close>

definition path :: "nat \<Rightarrow> nat \<Rightarrow> (nat \<times> nat) set" where
  "path lo hi = (\<lambda>i. (i, Suc i)) ` {lo..<hi}"

lemma path_start: "lo < hi \<Longrightarrow> path lo hi = insert (lo, Suc lo) (path (Suc lo) hi)"
  by (auto simp: path_def image_iff)

lemma path_empty [simp]: "path n n = {}"
  by (simp add: path_def)

lemma path_reach:
  assumes "path lo hi \<subseteq> L" and "lo \<le> k" "k \<le> hi" and "lo \<le> i" "i \<le> hi"
  shows "(k, i) \<in> (L \<union> L\<inverse>)\<^sup>*"
proof -
  have from_lo: "(lo, i) \<in> (L \<union> L\<inverse>)\<^sup>*" if "lo \<le> i" "i \<le> hi" for i
    using that
  proof (induction i rule: dec_induct)
    case (step n)
    then have "(n, Suc n) \<in> L \<union> L\<inverse>" using assms(1) by (auto simp: path_def)
    with step show ?case by (meson Suc_leD rtrancl.rtrancl_into_rtrancl)
  qed simp
  have "sym ((L \<union> L\<inverse>)\<^sup>*)" by (intro sym_rtrancl sym_Un_converse)
  with from_lo [of k] have "(k, lo) \<in> (L \<union> L\<inverse>)\<^sup>*" using assms by (auto dest: symD)
  with from_lo [of i] assms show ?thesis by (meson rtrancl_trans)
qed

lemma path_island:
  assumes "path lo hi \<subseteq> L" and "\<And>i j. (i, j) \<in> L \<Longrightarrow> i \<in> {lo..hi} \<longleftrightarrow> j \<in> {lo..hi}"
    and "lo \<le> k" "k \<le> hi" and "lo < hi" and "hi < num"
  shows "island L num k {lo..hi}"
proof -
  have "\<exists>j. (k, j) \<in> L \<union> L\<inverse>"
  proof (cases "k = hi")
    case True
    then have "(hi - 1, k) \<in> path lo hi" using assms(5) by (auto simp: path_def image_iff)
    then show ?thesis using assms(1) by auto
  next
    case False
    then have "(k, Suc k) \<in> path lo hi" using assms(3,4) by (auto simp: path_def)
    then show ?thesis using assms(1) by auto
  qed
  with assms path_reach [OF assms(1,3,4)] show ?thesis unfolding island_def by auto
qed

text \<open>The loops of a test that return at their first attempt.\<close>

lemma retry_once:
  "assertion s = Ret True \<Longrightarrow> attempts \<noteq> 0 \<Longrightarrow> assert_with_retry assertion attempts pause s = Ret s"
  "assertion' s = Ret expected \<Longrightarrow> attempts \<noteq> 0 \<Longrightarrow>
    assert_eq_with_retry assertion' attempts pause expected s = Ret s"
  by (simp_all add: assert_with_retry_def assert_eq_with_retry_def retry_loop.simps eq_retry_loop.simps)

text \<open>
  Two groups of nodes, on each of which a chain is mined: the headers and the messages a node
  has when \<open>r\<close> blocks were mined in the one and \<open>s\<close> in the other.
\<close>

definition headers_in ::
  "ext \<Rightarrow> nat set \<Rightarrow> (nat \<Rightarrow> mining_inputs) \<Rightarrow> nat \<Rightarrow> nat set \<Rightarrow> (nat \<Rightarrow> mining_inputs) \<Rightarrow> nat \<Rightarrow>
     nat \<Rightarrow> header_map" where
  "headers_in X G inp r G' inp' s i =
     (if i \<in> G then mined_map X inp r else if i \<in> G' then mined_map X inp' s
      else [0 \<mapsto> chain_genesis X])"

definition seen_in ::
  "(header \<Rightarrow> string) \<Rightarrow> ext \<Rightarrow> nat set \<Rightarrow> (nat \<Rightarrow> mining_inputs) \<Rightarrow> nat \<Rightarrow> nat set \<Rightarrow>
   (nat \<Rightarrow> mining_inputs) \<Rightarrow> nat \<Rightarrow> nat \<Rightarrow> string set" where
  "seen_in nm X G inp r G' inp' s i =
     (if i \<in> G then (\<lambda>n. nm (mined_block X inp n)) ` {..<r}
      else if i \<in> G' then (\<lambda>n. nm (mined_block X inp' n)) ` {..<s} else {})"

lemma in_swap:
  assumes "G \<inter> G' = {}"
  shows "headers_in X G inp r G' inp' s = headers_in X G' inp' s G inp r"
    and "seen_in nm X G inp r G' inp' s = seen_in nm X G' inp' s G inp r"
  using assms by (auto simp: headers_in_def seen_in_def fun_eq_iff)

lemma in_start:
  "headers_in X G inp 0 G' inp' 0 = (\<lambda>i. [0 \<mapsto> chain_genesis X])" "seen_in nm X G inp 0 G' inp' 0 = (\<lambda>i. {})"
  by (auto simp: headers_in_def seen_in_def fun_eq_iff)

lemma in_next:
  "(\<lambda>i. if i \<in> G then (mined_map X inp r)(number (mined_block X inp r) \<mapsto> mined_block X inp r)
      else headers_in X G inp r G' inp' s i) = headers_in X G inp (Suc r) G' inp' s"
  "(\<lambda>i. if i \<in> G then insert (nm (mined_block X inp r)) (seen_in nm X G inp r G' inp' s i)
      else seen_in nm X G inp r G' inp' s i) = seen_in nm X G inp (Suc r) G' inp' s"
  unfolding headers_in_def seen_in_def mined_map_Suc by (auto simp: fun_eq_iff lessThan_Suc)

context test_network
begin

lemma line_dialled:
  assumes tireless: "tireless E sched" and "list_all sound c" and "at_rest ns L H Pl Sn (pics c)"
    and "lo \<le> hi" and "hi < length c"
  shows "\<exists>c'. for_each (\<lambda>i. dial_to E sched ns i (i + 1)) [lo..<hi] c = Ret c' \<and> list_all sound c' \<and>
    at_rest ns (L \<union> path lo hi) H Pl Sn (pics c') \<and> length c' = length c"
  using assms(2-)
proof (induction "hi - lo" arbitrary: lo L c)
  case 0
  then show ?case by simp
next
  case (Suc d)
  then have lo: "lo < hi" by simp
  obtain c1 where c1: "dial_to E sched ns lo (lo + 1) c = Ret c1" "list_all sound c1"
    "at_rest ns (insert (lo, Suc lo) L) H Pl Sn (pics c1)" "length c1 = length c"
    using dialled [OF tireless Suc.prems(1,2), of lo "Suc lo"] lo Suc.prems(4) by auto
  obtain c' where c': "for_each (\<lambda>i. dial_to E sched ns i (i + 1)) [Suc lo..<hi] c1 = Ret c'"
    "list_all sound c'" "at_rest ns (insert (lo, Suc lo) L \<union> path (Suc lo) hi) H Pl Sn (pics c')"
    "length c' = length c1"
    using Suc.hyps(1) [of "Suc lo" c1 "insert (lo, Suc lo) L", OF _ c1(2,3)] Suc.hyps(2) Suc.prems(4) c1(4)
    by fastforce
  then show ?case using c1 lo by (simp add: upt_conv_Cons path_start)
qed

abbreviation block_name :: "header \<Rightarrow> string" where
  "block_name h \<equiv> name_of (NewHeader h)"

lemma round_mined:
  assumes tireless: "tireless E sched" and ok: "list_all sound c"
    and rest: "at_rest ns L (headers_in (sy_ext E) G inp r G' inp' s) Pl
      (seen_in block_name (sy_ext E) G inp r G' inp' s) (pics c)"
    and k: "k < length c" "island L (length c) k G" and r: "r < num" "num \<le> 1000"
    and inj: "inj_on (\<lambda>n. block_name (mined_block (sy_ext E) inp n)) {..<num}"
  shows "\<exists>c'. mine_at E sched ns k (inp r) c = Ret c' \<and> list_all sound c' \<and> length c' = length c \<and>
    at_rest ns L (headers_in (sy_ext E) G inp (Suc r) G' inp' s) Pl
      (seen_in block_name (sy_ext E) G inp (Suc r) G' inp' s) (pics c')"
proof -
  let ?m = "mined_map (sy_ext E) inp r" and ?h = "mined_block (sy_ext E) inp r"
  have m: "\<forall>i \<in> G. headers_in (sy_ext E) G inp r G' inp' s i = ?m" by (simp add: headers_in_def)
  have room: "tip_number ?m < 1000"
    using mined_map_tip [of r "sy_ext E" inp] r by (simp add: word_less_nat_alt unat_of_nat)
  have "block_name ?h \<notin> (\<lambda>n. block_name (mined_block (sy_ext E) inp n)) ` {..<r}"
    using inj_onD [OF inj] r by fastforce
  then have new: "\<forall>i \<in> G. block_name ?h \<notin> seen_in block_name (sy_ext E) G inp r G' inp' s i"
    by (simp add: seen_in_def)
  show ?thesis
    using mined_at [OF tireless ok rest k m room mined_block_def new] unfolding in_next(1) in_next(2) [where nm = block_name] .
qed

text \<open>The tips of the nodes.\<close>

lemma tip_shown:
  assumes "list_all sound c" and "at_rest ns L H Pl Sn (pics c)" and "i < length c"
  shows "node_tip E (ns ! i) c = Ret (tip_header (H i))" and "tip_at E ns i c = Ret (tip_header (H i))"
proof -
  have N: "node_at_rest ns L H Pl Sn (pics c) i" using at_restD(4) [OF assms(2)] assms(3) by simp
  have "db_ok (no_db (c ! i))" "wf_tables (sy_ext E) (stored (no_db (c ! i)))"
    using sound_at [OF assms(1,3)] by (simp_all add: node_sound_def)
  note tip_total [OF this]
  then show "node_tip E (ns ! i) c = Ret (tip_header (H i))"
    using N assms(3) by (simp add: node_tip_def node_at_rest_def picture_of_def)
  then show "tip_at E ns i c = Ret (tip_header (H i))"
    using assms(3) at_restD(1) [OF assms(2)] by (simp add: tip_at_def vec_index_def)
qed

lemma tips_shown:
  assumes "list_all sound c" and "at_rest ns L H Pl Sn (pics c)"
  shows "node_tips E ns c = Ret (map (\<lambda>i. tip_header (H i)) [0..<length c])"
proof -
  have tips: "node_tips E ts c = Ret (map hd ts)" if "\<forall>t \<in> set ts. node_tip E t c = Ret (hd t)"
    for ts and hd :: "test_node \<Rightarrow> header"
    using that by (induction ts) auto
  have len: "length ns = length c" using at_restD(1) [OF assms(2)] by simp
  have T: "node_tip E (ns ! i) c = Ret (tip_header (H i))" "tn_node (ns ! i) = i" if "i < length c" for i
    using tip_shown(1) [OF assms that] at_restD(4) [OF assms(2), of i] that by (simp_all add: node_at_rest_def)
  then have "node_tips E ns c = Ret (map (\<lambda>t. tip_header (H (tn_node t))) ns)"
    using len by (intro tips) (auto simp: in_set_conv_nth)
  also have "map (\<lambda>t. tip_header (H (tn_node t))) ns = map (\<lambda>i. tip_header (H i)) [0..<length c]"
    using T(2) len by (intro nth_equalityI) simp_all
  finally show ?thesis .
qed

lemma rest_slept:
  assumes "tireless E sched" and "list_all sound c" and "at_rest ns L H Pl Sn (pics c)"
  shows "\<exists>c'. sleep E sched c = Ret c' \<and> list_all sound c' \<and> at_rest ns L H Pl Sn (pics c') \<and> length c' = length c"
proof -
  obtain c' where c': "sleep E sched c = Ret c'" "list_all sound c'" "pics c' = pics c"
    using rest_sleeps [OF assms] by blast
  moreover have "length c' = length c" using arg_cong [OF c'(3), of length] by simp
  ultimately show ?thesis using assms(3) by simp
qed

section \<open>The tests\<close>

text \<open>The nodes of a test, at rest; \<open>start\<close> is the cluster all of them begin with.\<close>

lemma pair_connected:
  assumes tireless: "tireless E sched" and dist: "inj_on (\<lambda>i. to_peer_id (fst (snd (draw i)))) {..<10}"
  shows "\<exists>ns c0 c1 c. spawn_nodes E K to_peer_id sched draw 2 = Ret (ns, c0) \<and>
    dial_to E sched ns 0 1 c0 = Ret c1 \<and> sleep E sched c1 = Ret c \<and> list_all sound c \<and> length c = 2 \<and>
    at_rest ns (path 0 1) (\<lambda>i. [0 \<mapsto> chain_genesis (sy_ext E)]) (\<lambda>i. pool_new) (\<lambda>i. {}) (pics c) \<and>
    island (path 0 1) (length c) 0 {0..1}"
proof -
  obtain ns c0 where c0: "spawn_nodes E K to_peer_id sched draw 2 = Ret (ns, c0)" "list_all sound c0"
    "all_new ns (pics c0)" "length c0 = 2"
    using nodes_spawned [OF tireless inj_on_subset [OF dist, of "{..<2}"]] by auto
  obtain c1 where c1: "dial_to E sched ns 0 1 c0 = Ret c1" "list_all sound c1" "length c1 = 2"
    "at_rest ns {(0, 1)} (\<lambda>i. [0 \<mapsto> chain_genesis (sy_ext E)]) (\<lambda>i. pool_new) (\<lambda>i. {}) (pics c1)"
    using dialled [OF tireless c0(2,3), of 0 1] c0(4) by auto
  have p: "path 0 1 = {(0, 1)}" by (auto simp: path_def)
  have "island (path 0 1) 2 0 {0..1}" by (rule path_island) (auto simp: path_def)
  with rest_slept [OF tireless c1(2,4)] c0(1) c1(1,3) show ?thesis unfolding p by auto
qed

theorem two_node_sync_passes:
  assumes tireless: "tireless E sched" and dist: "inj_on (\<lambda>i. to_peer_id (fst (snd (draw i)))) {..<10}"
  shows "test_two_node_sync E K to_peer_id sched draw inp = Ret ()"
proof -
  obtain ns c0 c1 c where c: "spawn_nodes E K to_peer_id sched draw 2 = Ret (ns, c0)"
    "dial_to E sched ns 0 1 c0 = Ret c1" "sleep E sched c1 = Ret c" "list_all sound c" "length c = 2"
    and r: "at_rest ns (path 0 1) (\<lambda>i. [0 \<mapsto> chain_genesis (sy_ext E)]) (\<lambda>i. pool_new) (\<lambda>i. {}) (pics c)"
    and k: "island (path 0 1) (length c) 0 {0..1}"
    using pair_connected [OF tireless dist] by blast
  note r0 = r [folded in_start(1) [of "sy_ext E" "{0..1}" "\<lambda>_. inp" "{}" "\<lambda>_. inp"]
    in_start(2) [of block_name "sy_ext E" "{0..1}" "\<lambda>_. inp" "{}" "\<lambda>_. inp"]]
  obtain c' Sn where c': "mine_at E sched ns 0 inp c = Ret c'" "list_all sound c'" "length c' = 2"
    and r': "at_rest ns (path 0 1) (headers_in (sy_ext E) {0..1} (\<lambda>_. inp) (Suc 0) {} (\<lambda>_. inp) 0)
      (\<lambda>i. pool_new) Sn (pics c')"
    using round_mined [OF tireless c(4) r0 _ k, of 1] c(5) by (auto simp: inj_on_def)
  have "tip_at E ns i c' = Ret (tip_header (mined_map (sy_ext E) (\<lambda>_. inp) 1))" if "i < 2" for i
    using tip_shown(2) [OF c'(2) r', of i] that c'(3) by (simp add: headers_in_def del: mined_map.simps)
  then show ?thesis
    by (simp add: test_two_node_sync_def c(1-3) c'(1) retry_once(1) del: mined_map.simps One_nat_def)
qed

text \<open>Blocks mined by one node, with a sleep after each.\<close>

lemma rounds_mined:
  assumes tireless: "tireless E sched" and k: "k < length c" "island L (length c) k G" and num: "num \<le> 1000"
    and inj: "inj_on (\<lambda>n. block_name (mined_block (sy_ext E) inp n)) {..<num}"
    and r: "r \<le> num" "list_all sound c" "at_rest ns L (headers_in (sy_ext E) G inp r G' inp' s) Pl
      (seen_in block_name (sy_ext E) G inp r G' inp' s) (pics c)"
  shows "\<exists>c'. for_each (\<lambda>r c. obind (mine_at E sched ns k (inp r) c) (sleep E sched)) [r..<num] c = Ret c' \<and>
    list_all sound c' \<and> length c' = length c \<and>
    at_rest ns L (headers_in (sy_ext E) G inp num G' inp' s) Pl
      (seen_in block_name (sy_ext E) G inp num G' inp' s) (pics c')"
  using k r
proof (induction "num - r" arbitrary: r c)
  case 0
  then have "r = num" by simp
  with 0 show ?case by simp
next
  case (Suc d)
  then have r: "r < num" "d = num - Suc r" "Suc r \<le> num" by simp_all
  obtain c1 where c1: "mine_at E sched ns k (inp r) c = Ret c1" "list_all sound c1" "length c1 = length c"
    "at_rest ns L (headers_in (sy_ext E) G inp (Suc r) G' inp' s) Pl
      (seen_in block_name (sy_ext E) G inp (Suc r) G' inp' s) (pics c1)"
    using round_mined [OF tireless Suc.prems(4,5,1,2) r(1) num inj] by blast
  obtain c2 where c2: "sleep E sched c1 = Ret c2" "list_all sound c2" "length c2 = length c1"
    "at_rest ns L (headers_in (sy_ext E) G inp (Suc r) G' inp' s) Pl
      (seen_in block_name (sy_ext E) G inp (Suc r) G' inp' s) (pics c2)"
    using rest_slept [OF tireless c1(2,4)] by blast
  have len: "length c2 = length c" using c1(3) c2(3) by simp
  from Suc.hyps(1) [OF r(2) _ _ r(3) c2(2,4)] Suc.prems(1,2) len c1(1) c2(1) r(1) show ?case
    by (simp add: upt_conv_Cons del: mined_map.simps)
qed

lemma nodes_in_line:
  assumes tireless: "tireless E sched" and dist: "inj_on (\<lambda>i. to_peer_id (fst (snd (draw i)))) {..<10}"
    and hi: "hi < 10"
  shows "\<exists>ns c0 c. spawn_nodes E K to_peer_id sched draw 10 = Ret (ns, c0) \<and>
    for_each (\<lambda>i. dial_to E sched ns i (i + 1)) [0..<hi] c0 = Ret c \<and> list_all sound c \<and> length c = 10 \<and>
    at_rest ns (path 0 hi) (\<lambda>i. [0 \<mapsto> chain_genesis (sy_ext E)]) (\<lambda>i. pool_new) (\<lambda>i. {}) (pics c)"
proof -
  obtain ns c0 where c0: "spawn_nodes E K to_peer_id sched draw 10 = Ret (ns, c0)" "list_all sound c0"
    "all_new ns (pics c0)" "length c0 = 10"
    using nodes_spawned [OF tireless dist] by blast
  with line_dialled [OF tireless c0(2,3), of 0 hi] hi show ?thesis by auto
qed

abbreviation names_distinct :: "(nat \<Rightarrow> mining_inputs) \<Rightarrow> bool" where
  "names_distinct inp \<equiv> inj_on (\<lambda>n. lp_hash (sm_libp2p K)
     (header_encode (sy_ext E) (mined_block (sy_ext E) inp n))) {..<10}"

lemma block_names: "names_distinct inp \<Longrightarrow>
    inj_on (\<lambda>n. block_name (mined_block (sy_ext E) inp n)) {..<10}"
  by (simp add: inj_on_def message_id_eq_iff)

theorem line_connected_sync_passes:
  assumes tireless: "tireless E sched" and dist: "inj_on (\<lambda>i. to_peer_id (fst (snd (draw i)))) {..<10}"
    and names: "names_distinct inp"
  shows "test_line_connected_sync E K to_peer_id sched draw inp = Ret ()"
proof -
  let ?X = "sy_ext E" and ?G = "{0..9}"
  obtain ns c0 c where c: "spawn_nodes E K to_peer_id sched draw 10 = Ret (ns, c0)"
    "for_each (\<lambda>i. dial_to E sched ns i (i + 1)) [0..<9] c0 = Ret c" "list_all sound c" "length c = 10"
    and r: "at_rest ns (path 0 9) (\<lambda>i. [0 \<mapsto> chain_genesis ?X]) (\<lambda>i. pool_new) (\<lambda>i. {}) (pics c)"
    using nodes_in_line [OF tireless dist, of 9] by auto
  note r0 = r [folded in_start(1) [of ?X ?G inp "{}" inp] in_start(2) [of block_name ?X ?G inp "{}" inp]]
  have k: "0 < length c" "island (path 0 9) (length c) 0 ?G"
    unfolding c(4) by (simp, rule path_island) (auto simp: path_def)
  obtain c' Sn where c': "for_each (\<lambda>r c. obind (mine_at E sched ns 0 (inp r) c) (sleep E sched)) [0..<10] c =
      Ret c'" "list_all sound c'" "length c' = 10"
    and r': "at_rest ns (path 0 9) (headers_in ?X ?G inp 10 {} inp 0) (\<lambda>i. pool_new) Sn (pics c')"
    using rounds_mined [OF tireless k _ block_names [OF names] _ c(3) r0] c(4) by auto
  let ?t = "tip_header (mined_map ?X inp 10)"
  have first: "tip_at E ns 0 c' = Ret ?t"
    using tip_shown(2) [OF c'(2) r', of 0] c'(3) by (simp add: headers_in_def)
  have "map (\<lambda>i. tip_header (headers_in ?X ?G inp 10 {} inp 0 i)) [0..<length c'] = replicate 10 ?t"
    by (intro nth_equalityI) (auto simp: headers_in_def c'(3))
  then have "node_tips E ns c' = Ret (replicate 10 ?t)" using tips_shown [OF c'(2) r'] by simp
  then have "assert_eq_with_retry (node_tips E ns) 100 (sleep E sched) (replicate 10 ?t) c' = Ret c'"
    by (intro retry_once(2)) simp_all
  moreover have "(10 :: nat) - 1 = 9" by simp
  ultimately show ?thesis
    by (simp only: test_line_connected_sync_def Let_def obind_Ret prod.case c(1,2) c'(1) first)
qed

text \<open>Blocks mined in turn by a node of each of two groups.\<close>

lemma rounds_in_turn:
  assumes tireless: "tireless E sched" and disj: "G \<inter> G' = {}"
    and k: "k < length c" "island L (length c) k G" "k' < length c" "island L (length c) k' G'"
    and num: "num \<le> 1000" and inj: "inj_on (\<lambda>n. block_name (mined_block (sy_ext E) inp n)) {..<num}"
      "inj_on (\<lambda>n. block_name (mined_block (sy_ext E) inp' n)) {..<num}"
    and r: "r \<le> num" "list_all sound c" "at_rest ns L (headers_in (sy_ext E) G inp r G' inp' r) Pl
      (seen_in block_name (sy_ext E) G inp r G' inp' r) (pics c)"
  shows "\<exists>c'. for_each (\<lambda>r c. obind (mine_at E sched ns k (inp r) c) (mine_at E sched ns k' (inp' r))) [r..<num] c =
      Ret c' \<and> list_all sound c' \<and> length c' = length c \<and>
    at_rest ns L (headers_in (sy_ext E) G inp num G' inp' num) Pl
      (seen_in block_name (sy_ext E) G inp num G' inp' num) (pics c')"
  using k r
proof (induction "num - r" arbitrary: r c)
  case 0
  then have "r = num" by simp
  with 0 show ?case by simp
next
  case (Suc d)
  then have r: "r < num" "d = num - Suc r" "Suc r \<le> num" by simp_all
  note swap = in_swap(1) [OF disj, of "sy_ext E" inp "Suc r" inp']
    in_swap(2) [OF disj, of block_name "sy_ext E" inp "Suc r" inp']
  obtain c1 where c1: "mine_at E sched ns k (inp r) c = Ret c1" "list_all sound c1" "length c1 = length c"
    "at_rest ns L (headers_in (sy_ext E) G inp (Suc r) G' inp' r) Pl
      (seen_in block_name (sy_ext E) G inp (Suc r) G' inp' r) (pics c1)"
    using round_mined [OF tireless Suc.prems(6,7,1,2) r(1) num inj(1)] by blast
  have k': "k' < length c1" "island L (length c1) k' G'" using c1(3) Suc.prems(3,4) by simp_all
  obtain c2 where c2: "mine_at E sched ns k' (inp' r) c1 = Ret c2" "list_all sound c2" "length c2 = length c1"
    "at_rest ns L (headers_in (sy_ext E) G inp (Suc r) G' inp' (Suc r)) Pl
      (seen_in block_name (sy_ext E) G inp (Suc r) G' inp' (Suc r)) (pics c2)"
    using round_mined [OF tireless c1(2) c1(4) [unfolded swap] k' r(1) num inj(2)]
    unfolding swap by blast
  have len: "length c2 = length c" using c1(3) c2(3) by simp
  from Suc.hyps(1) [OF r(2) _ _ _ _ r(3) c2(2,4)] Suc.prems(1-4) len c1(1) c2(1) r(1) show ?case
    by (simp add: upt_conv_Cons del: mined_map.simps)
qed

theorem unconnected_group_sync_passes:
  assumes tireless: "tireless E sched" and dist: "inj_on (\<lambda>i. to_peer_id (fst (snd (draw i)))) {..<10}"
    and names: "names_distinct inp" "names_distinct inp'"
  shows "test_unconnected_group_sync E K to_peer_id sched draw inp inp' = Ret ()"
proof -
  let ?X = "sy_ext E" and ?G = "{0..4}" and ?G' = "{5..9}" and ?L = "path 0 4 \<union> path 5 9"
  obtain ns c0 c1 where c1: "spawn_nodes E K to_peer_id sched draw 10 = Ret (ns, c0)"
    "for_each (\<lambda>i. dial_to E sched ns i (i + 1)) [0..<4] c0 = Ret c1" "list_all sound c1" "length c1 = 10"
    and r1: "at_rest ns (path 0 4) (\<lambda>i. [0 \<mapsto> chain_genesis ?X]) (\<lambda>i. pool_new) (\<lambda>i. {}) (pics c1)"
    using nodes_in_line [OF tireless dist, of 4] by auto
  obtain c2 where c2: "for_each (\<lambda>i. dial_to E sched ns i (i + 1)) [5..<9] c1 = Ret c2" "list_all sound c2"
    "length c2 = 10" and r2: "at_rest ns ?L (\<lambda>i. [0 \<mapsto> chain_genesis ?X]) (\<lambda>i. pool_new) (\<lambda>i. {}) (pics c2)"
    using line_dialled [OF tireless c1(3) r1, of 5 9] c1(4) by auto
  obtain c where c: "sleep E sched c2 = Ret c" "list_all sound c" "length c = 10"
    and r: "at_rest ns ?L (\<lambda>i. [0 \<mapsto> chain_genesis ?X]) (\<lambda>i. pool_new) (\<lambda>i. {}) (pics c)"
    using rest_slept [OF tireless c2(2) r2] c2(3) by auto
  note r0 = r [folded in_start(1) [of ?X ?G inp ?G' inp'] in_start(2) [of block_name ?X ?G inp ?G' inp']]
  have disj: "?G \<inter> ?G' = ({} :: nat set)" by auto
  have k: "4 < length c" "island ?L (length c) 4 ?G"
    unfolding c(3) by (simp, rule path_island) (auto simp: path_def)
  have k': "7 < length c" "island ?L (length c) 7 ?G'"
    unfolding c(3) by (simp, rule path_island) (auto simp: path_def)
  obtain c' Sn where c': "for_each (\<lambda>r c. obind (mine_at E sched ns 4 (inp r) c)
      (mine_at E sched ns 7 (inp' r))) [0..<10] c = Ret c'" "list_all sound c'" "length c' = 10"
    and r': "at_rest ns ?L (headers_in ?X ?G inp 10 ?G' inp' 10) (\<lambda>i. pool_new) Sn (pics c')"
    using rounds_in_turn [OF tireless disj k k' _ block_names [OF names(1)] block_names [OF names(2)] _ c(2) r0]
      c(3) by auto
  let ?t = "tip_header (mined_map ?X inp 10)" and ?u = "tip_header (mined_map ?X inp' 10)"
  have tips: "tip_at E ns 4 c' = Ret ?t" "tip_at E ns 7 c' = Ret ?u"
    using tip_shown(2) [OF c'(2) r', of 4] tip_shown(2) [OF c'(2) r', of 7] c'(3) by (simp_all add: headers_in_def)
  have len: "10 \<le> length ns" "take 10 ns = ns" using at_restD(1) [OF r'] c'(3) by simp_all
  have "map (\<lambda>i. tip_header (headers_in ?X ?G inp 10 ?G' inp' 10 i)) [0..<length c'] =
      replicate 5 ?t @ replicate 5 ?u"
    by (intro nth_equalityI) (auto simp: headers_in_def c'(3) nth_append)
  then have all: "node_tips E (take 10 ns) c' = Ret (replicate 5 ?t @ replicate 5 ?u)"
    using tips_shown [OF c'(2) r'] len(2) by simp
  have "assert_eq_with_retry (\<lambda>c. if 10 \<le> length ns then node_tips E (take 10 ns) c
      else Panic ''range end index out of range'') 100 (sleep E sched) (replicate 5 ?t @ replicate 5 ?u) c' = Ret c'"
    using len(1) all by (intro retry_once(2)) simp_all
  moreover have "(10 :: nat) - 1 = 9" by simp
  ultimately show ?thesis
    by (simp only: test_unconnected_group_sync_def Let_def obind_Ret prod.case c1(1,2) c2(1) c(1) c'(1) tips)
qed

theorem two_node_sync_transaction_passes:
  assumes tireless: "tireless E sched" and dist: "inj_on (\<lambda>i. to_peer_id (fst (snd (draw i)))) {..<10}"
  shows "test_two_node_sync_transaction E K to_peer_id sched draw info_logged hsh frm to val = Ret ()"
proof -
  let ?tx = "tx_rng hsh frm to val"
  let ?H = "\<lambda>i :: nat. [0 \<mapsto> chain_genesis (sy_ext E)]"
  let ?pool = "snd (add_transactions pool_new [?tx])"
  obtain ns c0 c1 c where c: "spawn_nodes E K to_peer_id sched draw 2 = Ret (ns, c0)"
    "dial_to E sched ns 0 1 c0 = Ret c1" "sleep E sched c1 = Ret c" "list_all sound c" "length c = 2"
    and r: "at_rest ns (path 0 1) ?H (\<lambda>i. pool_new) (\<lambda>i. {}) (pics c)"
    and k: "island (path 0 1) (length c) 0 {0..1}"
    using pair_connected [OF tireless dist] by blast
  obtain c' Sn where c': "add_external_transaction E sched info_logged (ns ! 0) ?tx c = Ret c'" "length c' = 2"
    and r': "at_rest ns (path 0 1) ?H (\<lambda>i. if i \<in> {0..1} then ?pool else pool_new) Sn (pics c')"
    using submitted_at [OF tireless c(4) r _ k, of ?tx info_logged] c(5) by (auto simp: pool_new_def)
  have pool: "pool_at (tn_node (ns ! i)) c' = ?pool" if "i < 2" for i
    using at_restD(4) [OF r', of i] that c'(2) by (simp add: node_at_rest_def picture_of_def)
  have node: "vec_index ns i = Ret (ns ! i)" if "i < 2" for i
    using at_restD(1) [OF r'] that c'(2) by (simp add: vec_index_def)
  have "assert_eq_with_retry (\<lambda>c. obind (vec_index ns 1) (\<lambda>t. Ret (get_all (pool_at (tn_node t) c)))) 10
      (sleep E sched) (get_all ?pool) c' = Ret c'"
    using node [of 1] pool [of 1] by (intro retry_once(2)) simp_all
  then show ?thesis
    using pool [of 0] node [of 0]
    by (simp add: test_two_node_sync_transaction_def Let_def c(1-3) c'(1) del: One_nat_def)
qed

end

end
