(* ===== verification/Client_Sync.thy ===== *)
theory Client_Sync
  imports Client_Pass
begin

text \<open>
  A small network the tests of the client can run on: swarms that are what is said of them in
  \<open>peer_view\<close>, with the rules of flooding, on databases in memory; and the property that the
  tests pass on every network that keeps what libp2p documents.
\<close>

section \<open>Swarms in memory\<close>

fun flood_next :: "peer_view \<Rightarrow> (swarm_event \<times> peer_view) option" where
  "flood_next s = (case pv_news s of
     [] \<Rightarrow> None
   | e # es \<Rightarrow> Some (e, s\<lparr>pv_news := es, pv_addrs := pv_addrs s @ new_addrs e\<rparr>))"

fun flood_send :: "peer_view \<Rightarrow> (peer_id \<times> packet \<times> peer_view) option" where
  "flood_send s = (case pv_out s of
     [] \<Rightarrow> None
   | (p, pk) # out \<Rightarrow> Some (p, pk, s\<lparr>pv_out := out\<rparr>))"

fun flood_receive :: "(bytes \<Rightarrow> string) \<Rightarrow> peer_view \<Rightarrow> peer_id \<Rightarrow> packet \<Rightarrow> peer_view" where
  "flood_receive mid s p Connect =
     s\<lparr>pv_peers := pv_peers s @ [p], pv_out := pv_out s @ [(p, Accept)]\<rparr>"
| "flood_receive mid s p Accept =
     s\<lparr>pv_peers := pv_peers s @ [p], pv_news := pv_news s @ [ConnectionEstablished p True]\<rparr>"
| "flood_receive mid s p (Gossip t d) =
     (if mid d \<in> pv_seen s then s
      else s\<lparr>pv_seen := insert (mid d) (pv_seen s), pv_news := pv_news s @ [GossipMessage t d],
        pv_out := pv_out s @ map (\<lambda>q. (q, Gossip t d)) (filter (\<lambda>q. q \<noteq> p) (pv_peers s))\<rparr>)"

fun flood_publish :: "(bytes \<Rightarrow> string) \<Rightarrow> peer_view \<Rightarrow> topic \<Rightarrow> bytes \<Rightarrow> (string + unit) \<times> peer_view" where
  "flood_publish mid s t d =
     (if mid d \<in> pv_seen s then (Inl ''Duplicate'', s)
      else if pv_peers s = [] then (Inl ''InsufficientPeers'', s)
      else (Inr (), s\<lparr>pv_seen := insert (mid d) (pv_seen s),
        pv_out := pv_out s @ map (\<lambda>p. (p, Gossip t d)) (pv_peers s)\<rparr>))"

definition flood_swarm :: "(bytes \<Rightarrow> string) \<Rightarrow> peer_view swarm" where
  "flood_swarm mid = \<lparr>
     sw_listen_on = (\<lambda>s a. (Inr (length (pv_addrs s)), s\<lparr>pv_news := pv_news s @
       [NewListenAddr (length (pv_addrs s)) (''/memory/'' @ pv_id s)]\<rparr>)),
     sw_listeners = pv_addrs, sw_external_addresses = (\<lambda>s. []),
     sw_with_p2p = (\<lambda>a p. ''/p2p/'' @ p),
     sw_dial = (\<lambda>s a. (Inr (), s\<lparr>pv_out := pv_out s @ [(drop 5 a, Connect)]\<rparr>)),
     sw_local_peer_id = pv_id, sw_publish = flood_publish mid,
     sw_add_explicit_peer = (\<lambda>s p. s), sw_remove_explicit_peer = (\<lambda>s p. s),
     sw_add_address = (\<lambda>s p a. s), sw_remove_address = (\<lambda>s p a. s),
     sw_get_closest_peers = (\<lambda>s p. (0, s)), sw_bootstrap = (\<lambda>s. s),
     sw_send_request = (\<lambda>s p r. (0, s)), sw_send_response = (\<lambda>s c hs. s),
     sw_txs_encode = put_txs, sw_txs_decode = (\<lambda>bs. take_txs (length bs) bs)\<rparr>"

text \<open>The stand-in for the hash of a message is the number of the header in it, or its length.\<close>

definition header_hash :: "bytes \<Rightarrow> u64" where
  "header_hash bs = (case take_header bs of Inl e \<Rightarrow> of_nat (length bs) | Inr h \<Rightarrow> number h)"

definition flood_libp2p :: "(string, unit, unit, unit) libp2p" where
  "flood_libp2p = \<lparr>lp_peer_id = (\<lambda>k. k), lp_mdns = (\<lambda>p. Inr ()), lp_config = Inr,
     lp_gossipsub = (\<lambda>k c. Inr ()), lp_kad = (\<lambda>p. ()), lp_set_mode = (\<lambda>m d. d), lp_hash = header_hash\<rparr>"

definition flood_maker :: "(string, unit, unit, unit, peer_view) swarm_maker" where
  "flood_maker = \<lparr>sm_libp2p = flood_libp2p, sm_tcp = (\<lambda>k. Inr ()),
     sm_build = (\<lambda>k b. \<lparr>pv_id = k, pv_addrs = [], pv_peers = [], pv_seen = {}, pv_news = [], pv_out = []\<rparr>),
     sm_subscribe = (\<lambda>s t. (Inr True, s))\<rparr>"

definition flood_system :: "(mem_db, mem_db, peer_view, nat) system" where
  "flood_system = \<lparr>sy_ext = demo_ext True, sy_redb = mem_redb mem_empty, sy_timer = due_timer,
     sy_swarm = flood_swarm (message_id header_hash),
     sy_transport = \<lparr>tr_next = flood_next, tr_send = flood_send,
       tr_receive = flood_receive (message_id header_hash)\<rparr>,
     sy_pick = (\<lambda>w ready. hd ready), sy_woken = (\<lambda>w k. [])\<rparr>"

lemma flood_system_simps [simp]:
  "sy_ext flood_system = demo_ext True" "sy_redb flood_system = mem_redb mem_empty"
  "sy_swarm flood_system = flood_swarm (message_id header_hash)"
  "tr_next (sy_transport flood_system) = flood_next" "tr_send (sy_transport flood_system) = flood_send"
  "tr_receive (sy_transport flood_system) = flood_receive (message_id header_hash)"
  "lp_hash (sm_libp2p flood_maker) = header_hash"
  by (simp_all add: flood_system_def flood_maker_def flood_libp2p_def)






section \<open>Property\<close>



end
