(* ===== verification/Rpc_Properties.thy ===== *)
theory Rpc_Properties
  imports Rpc Chain_Properties
begin

text \<open>
  Properties of the RPC methods on the redb chain: a block that was added is served under its
  number and under its hash, what the server makes of every possible number argument, and the
  JSON types of the answers.
\<close>

section \<open>What a number argument means\<close>

text \<open>The value of a hexadecimal numeral, with an optional plus sign.\<close>

definition hex_sum :: "nat \<Rightarrow> string \<Rightarrow> nat" where
  "hex_sum a cs = foldl (\<lambda>a c. a * 16 + the (hex_value c)) a cs"

definition hex_numeral :: "string \<Rightarrow> nat option" where
  "hex_numeral s =
     (let cs = (if s \<noteq> [] \<and> hd s = CHR ''+'' then tl s else s) in
      if cs = [] \<or> (\<exists>c \<in> set cs. hex_value c = None) then None else Some (hex_sum 0 cs))"

lemma hex_sum_simps [simp]:
  "hex_sum a [] = a" "hex_sum a (c # cs) = hex_sum (a * 16 + the (hex_value c)) cs"
  by (simp_all add: hex_sum_def)

lemma hex_sum_ge: "a \<le> hex_sum a cs"
proof (induction cs arbitrary: a)
  case (Cons c cs)
  have "a \<le> a * 16 + the (hex_value c)" by simp
  also have "\<dots> \<le> hex_sum a (c # cs)" using Cons.IH by simp
  finally show ?case .
qed simp

lemma radix_loop_Inr:
  "a < 2 ^ 64 \<Longrightarrow> radix_loop a cs = Inr v \<longleftrightarrow>
    (\<forall>c \<in> set cs. hex_value c \<noteq> None) \<and> v = hex_sum a cs \<and> v < 2 ^ 64"
proof (induction cs arbitrary: a)
  case (Cons c cs)
  show ?case
  proof (cases "hex_value c")
    case (Some d)
    show ?thesis
    proof (cases "2 ^ 64 \<le> a * 16 + d")
      case True
      then have "\<not> hex_sum (a * 16 + d) cs < 2 ^ 64" using hex_sum_ge [of "a * 16 + d" cs] by linarith
      with Some True show ?thesis by auto
    next
      case False
      then have "\<not> 2 ^ 64 \<le> a * 16" by linarith
      with Some False Cons.IH [of "a * 16 + d"] show ?thesis by simp
    qed
  qed simp
qed auto

lemma from_radix_Inr:
  "from_str_radix16 s = Inr n \<longleftrightarrow> (\<exists>v. hex_numeral s = Some v \<and> v < 2 ^ 64 \<and> n = of_nat v)"
proof -
  have map: "map_sum id of_nat r = (Inr n :: int_error + u64) \<longleftrightarrow> (\<exists>v. r = Inr v \<and> n = of_nat v)" for r
    by (cases r) auto
  have minus: "hex_value CHR ''-'' = None" by (simp add: hex_value_def)
  let ?cs = "if hd s = CHR ''+'' then tl s else s"
  show ?thesis
  proof (cases "s = [] \<or> s = ''+'' \<or> s = ''-''")
    case True
    then show ?thesis using minus by (auto simp: from_str_radix16_def hex_numeral_def)
  next
    case False
    then have "?cs \<noteq> []" by (cases s) auto
    with False show ?thesis
      using radix_loop_Inr [of 0 ?cs]
      by (auto simp: from_str_radix16_def hex_numeral_def map Let_def)
  qed
qed

lemma from_radix_cases:
  obtains (number) v where "hex_numeral s = Some v" "v < 2 ^ 64" "from_str_radix16 s = Inr (of_nat v)"
  | (rejected) e where "from_str_radix16 s = Inl e" "\<And>v. hex_numeral s = Some v \<Longrightarrow> \<not> v < 2 ^ 64"
  using from_radix_Inr [of s] by (cases "from_str_radix16 s") auto

lemma hex_char_one: "hex_char (Suc 0) = CHR ''1''"
  by (simp add: hex_char_def) code_simp

section \<open>The example client\<close>

text \<open>The requests of \<^verbatim>\<open>src/examples/rpc_client.rs\<close>, each of which is expected to succeed.\<close>

definition example_requests :: "(string \<times> string) list" where
  "example_requests =
     [(''eth_getBlockByNumber'', ''0x0''),
      (''eth_getBlockByHash'', ''0136a0fb5d86d2175d74062cb38324f88cc4437df6145d84140b906e092d94a51''),
      (''eth_getBalances'', ''0x000000000000000000000000000000000000dead'')]"

text \<open>The last of them names a method that the server does not register.\<close>

lemma example_method_unknown:
  "map_of (rpc_module one B chain random) (fst (last example_requests)) = None"
  by (simp add: rpc_module_def example_requests_def)

section \<open>Types of the answers\<close>

text \<open>
  The types of the JSON the methods answer with. A quantity is a number in the encoding of the
  Ethereum API: the prefix, and hexadecimal digits in lower case without leading zeros.
\<close>

datatype json_type =
    TString
  | TQuantity
  | TEmptyArray
  | TObject "(string \<times> json_type) list"

definition lower_digit :: "char \<Rightarrow> bool" where
  "lower_digit c \<longleftrightarrow> hex_value c \<noteq> None \<and> \<not> (65 \<le> (of_char c :: nat) \<and> (of_char c :: nat) \<le> 70)"

definition quantity :: "string \<Rightarrow> bool" where
  "quantity s \<longleftrightarrow> (let ds = drop 2 s in take 2 s = ''0x'' \<and> ds \<noteq> [] \<and> length ds \<le> 16 \<and>
     list_all lower_digit ds \<and> (hd ds = CHR ''0'' \<longrightarrow> ds = ''0''))"

fun json_conf :: "json_type \<Rightarrow> json \<Rightarrow> bool"
  and fields_conf :: "(string \<times> json_type) list \<Rightarrow> (string \<times> json) list \<Rightarrow> bool" where
  "json_conf TString (JString s) \<longleftrightarrow> True"
| "json_conf TQuantity (JString s) \<longleftrightarrow> quantity s"
| "json_conf TEmptyArray (JArray js) \<longleftrightarrow> js = []"
| "json_conf (TObject ts) (JObject fs) \<longleftrightarrow> fields_conf ts fs"
| "json_conf _ _ \<longleftrightarrow> False"
| "fields_conf [] [] \<longleftrightarrow> True"
| "fields_conf ((k, t) # ts) ((l, j) # fs) \<longleftrightarrow> k = l \<and> json_conf t j \<and> fields_conf ts fs"
| "fields_conf _ _ \<longleftrightarrow> False"

definition block_type :: json_type where
  "block_type = TObject [(''block_hash'', TString), (''block_number'', TQuantity),
     (''state_root'', TString), (''parent_root'', TString), (''transactions'', TEmptyArray)]"

definition method_types :: "(string \<times> json_type) list" where
  "method_types = [(''eth_getBlockByNumber'', block_type), (''eth_getBlockByHash'', block_type),
     (''eth_getBalance'', TQuantity)]"

lemma hex_char_lower: "d < 16 \<Longrightarrow> lower_digit (hex_char d)"
  by (simp add: lower_digit_def hex_char_def hex_value_def)

lemma hex_char_zero: "d < 16 \<Longrightarrow> hex_char d = CHR ''0'' \<Longrightarrow> d = 0"
  using hex_value_char [of d] by (auto simp: hex_value_def)

lemma lower_hex_digits: "list_all lower_digit (lower_hex n)"
proof (induction n rule: lower_hex.induct)
  case (1 n)
  then show ?case by (subst lower_hex.simps) (auto simp: hex_char_lower)
qed

lemma lower_hex_no_zero: "hd (lower_hex n) = CHR ''0'' \<Longrightarrow> n = 0"
proof (induction n rule: lower_hex.induct)
  case (1 n)
  show ?case
  proof (cases "n < 16")
    case True
    with "1.prems" show ?thesis using hex_char_zero by (simp add: lower_hex.simps)
  next
    case False
    then have "hd (lower_hex n) = hd (lower_hex (n div 16))"
      using lower_hex_first [of "n div 16"] by (subst lower_hex.simps) simp
    with 1 False have "n div 16 = 0" by simp
    with False show ?thesis by (simp add: div_eq_0_iff)
  qed
qed

lemma lower_hex_length: "n < 16 ^ k \<Longrightarrow> 0 < k \<Longrightarrow> length (lower_hex n) \<le> k"
proof (induction k arbitrary: n)
  case (Suc k)
  show ?case
  proof (cases "n < 16")
    case True
    then show ?thesis by (simp add: lower_hex.simps)
  next
    case False
    then have "0 < k" using Suc.prems(1) by (cases k) auto
    moreover have "n div 16 < 16 ^ k" using Suc.prems(1) by (simp add: less_mult_imp_div_less mult.commute)
    ultimately have "length (lower_hex (n div 16)) \<le> k" using Suc.IH by blast
    with False show ?thesis by (subst lower_hex.simps) simp
  qed
qed simp

lemma quantity_format: "quantity (format_0x n)"
proof -
  have "unat n < 16 ^ 16" using unsigned_less [of n] by simp
  from lower_hex_length [OF this] lower_hex_first [of "unat n"] lower_hex_digits [of "unat n"]
    lower_hex_no_zero [of "unat n"]
  show ?thesis
    by (auto simp: quantity_def format_0x_def Let_def lower_hex.simps [of 0] hex_char_def)
qed

lemma block_conf: "json_conf block_type (block_json h)"
  by (simp add: block_type_def block_json_def quantity_format)

section \<open>Properties\<close>

text \<open>
  C33: A block that was added is served: asked for its number in the format the server itself
  writes, and asked for its hash, the server answers with the same object, the one that
  describes this header, and never with an error.
\<close>

theorem rpc_serves_added_block:
  assumes "reliable_chain_store R db_ok txn_ok stored view X"
    and "db_ok db" and "wf_tables X (stored db)"
    and "chain_try_add_block_header X R db h = Ret (Inr q, db')"
    and "one p = Inr (format_0x (number h))" and "one p' = Inr (hash h)"
  shows "eth_getBlockByNumber one (chain_tree X R) db' p = Ret (Inr (block_json h)) \<and>
    eth_getBlockByHash one (chain_tree X R) db' p' = Ret (Inr (block_json h))"
proof -
  have n: "chain_get_header_by_block_number X R db' (number h) = Ret (Inr h)"
    and k: "chain_get_header_by_hash X R db' (hash h) = Ret (Inr h)"
    using reliable_chain_store.read_back [OF assms(1-4)] by auto
  show ?thesis
    using assms(5,6) n k
    by (simp add: eth_getBlockByNumber_def eth_getBlockByHash_def str_from_0x from_lower_hex)
qed

theorem rpc_serves_added_block_witness:
  "\<exists>db'. chain_try_add_block_header (demo_ext True) (mem_redb mem_empty) (demo_chain True)
      (demo_a1 True) = Ret (Inr ExtendTip, db') \<and>
    eth_getBlockByNumber Inr (chain_tree (demo_ext True) (mem_redb mem_empty)) db' ''0x1'' =
      Ret (Inr (block_json (demo_a1 True)))"
proof -
  obtain db' where add: "chain_try_add_block_header (demo_ext True) (mem_redb mem_empty)
      (demo_chain True) (demo_a1 True) = Ret (Inr ExtendTip, db')"
    using mem_chain.add_refines [OF demo_chain_ok demo_chain_wf, of True "demo_a1 True"]
    by (auto simp: demo_a1_spec)
  have "format_0x (number (demo_a1 True)) = ''0x1''"
    by (simp add: format_0x_def demo_a1_def demo_header_def lower_hex.simps hex_char_one)
  with rpc_serves_added_block [OF demo_chain_facts [of True] add, of Inr "''0x1''"
      "hash (demo_a1 True)"] add show ?thesis by auto
qed

text \<open>
  C34: What \<open>eth_getBlockByNumber\<close> does with every argument. One that has no character boundary
  at its third byte, so every one with fewer than two bytes, panics. Otherwise the first two
  bytes are skipped, whatever they are; the rest is a hexadecimal numeral of at most 64 bits,
  in either case and with an optional plus sign, and the stored block of that number is
  served, or reported missing; anything else is reported as invalid parameters.
\<close>

theorem rpc_number_argument:
  assumes "reliable_chain_store R db_ok txn_ok stored view X"
    and "db_ok db" and "wf_tables X (stored db)" and "one p = Inr s"
  shows "eth_getBlockByNumber one (chain_tree X R) db p =
    (if length s < 2 \<or> 2 < length s \<and> (of_char (s ! 2) :: nat) \<in> {128..<192}
     then Panic ''byte index is out of bounds or not a char boundary''
     else case hex_numeral (drop 2 s) of
         Some v \<Rightarrow> if v < 2 ^ 64
           then case headers_of X (stored db) (of_nat v) of
               Some h \<Rightarrow> Ret (Inr (block_json h))
             | None \<Rightarrow> Ret (Inl \<lparr>rpc_code = INTERNAL_ERROR_CODE,
                 rpc_message = ''Block not found at '' @ s\<rparr>)
           else Ret (Inl \<lparr>rpc_code = INVALID_PARAMS_CODE,
             rpc_message = ''Number should be in hex string format''\<rparr>)
       | None \<Rightarrow> Ret (Inl \<lparr>rpc_code = INVALID_PARAMS_CODE,
           rpc_message = ''Number should be in hex string format''\<rparr>))"
proof -
  note get = reliable_chain_store.get_total [OF assms(1-3)]
  have b: "char_boundary s 2 \<longleftrightarrow>
      \<not> (length s < 2 \<or> 2 < length s \<and> (of_char (s ! 2) :: nat) \<in> {128..<192})"
    by (auto simp: char_boundary_def)
  show ?thesis
  proof (cases "char_boundary s 2")
    case False
    with b have nb: "length s < 2 \<or> 2 < length s \<and> (of_char (s ! 2) :: nat) \<in> {128..<192}"
      by blast
    show ?thesis
      unfolding if_P [OF nb] using assms(4) False
      by (simp add: eth_getBlockByNumber_def str_from_def)
  next
    case True
    with b have nb: "\<not> (length s < 2 \<or> 2 < length s \<and> (of_char (s ! 2) :: nat) \<in> {128..<192})"
      by blast
    show ?thesis
    proof (cases rule: from_radix_cases [of "drop 2 s"])
      case (number v)
      then show ?thesis
        unfolding if_not_P [OF nb] using assms(4) True
        by (simp add: eth_getBlockByNumber_def str_from_def get found_def split: option.splits)
    next
      case (rejected e)
      then show ?thesis
        unfolding if_not_P [OF nb] using assms(4) True
        by (simp add: eth_getBlockByNumber_def str_from_def split: option.splits)
    qed
  qed
qed

theorem rpc_number_argument_witness:
  "eth_getBlockByNumber Inr (chain_tree (demo_ext True) (mem_redb mem_empty)) (demo_chain True)
     ''7'' = Panic ''byte index is out of bounds or not a char boundary'' \<and>
   eth_getBlockByNumber Inr (chain_tree (demo_ext True) (mem_redb mem_empty)) (demo_chain True)
     ''no+0'' = Ret (Inr (block_json (chain_genesis (demo_ext True))))"
  using rpc_number_argument [OF demo_chain_facts [of True], of Inr "''7''" "''7''"]
    rpc_number_argument [OF demo_chain_facts [of True], of Inr "''no+0''" "''no+0''"]
  by (simp add: hex_numeral_def hex_value_def demo_chain_headers)

text \<open>
  C35: The answers are well typed. For every block tree, the methods of the server are those of
  the table of types, and whatever the parameters and the state of the chain, a call that
  returns answers with JSON of the type of its method, or with the error of the parameter
  parser, or with one of the two error codes the methods use.
\<close>

theorem rpc_answers_typed:
  assumes "map_of (rpc_module one B chain random) m = Some f" and "f p = Ret r"
  shows "\<exists>t. map_of method_types m = Some t \<and>
    (case r of Inr j \<Rightarrow> json_conf t j
     | Inl e \<Rightarrow> one p = Inl e \<or> (m \<noteq> ''eth_getBalance'' \<and> rpc_code e = INTERNAL_ERROR_CODE) \<or>
         (m = ''eth_getBlockByNumber'' \<and> rpc_code e = INVALID_PARAMS_CODE))"
proof -
  consider "m = ''eth_getBlockByNumber''" "f = eth_getBlockByNumber one B chain"
    | "m = ''eth_getBlockByHash''" "f = eth_getBlockByHash one B chain"
    | "m = ''eth_getBalance''" "f = eth_getBalance one random"
    using assms(1) by (auto simp: rpc_module_def split: if_splits)
  then show ?thesis
  proof cases
    case 1
    then show ?thesis using assms(2) block_conf
      by (auto simp: method_types_def eth_getBlockByNumber_def split: sum.splits elim!: obind_RetE)
  next
    case 2
    then show ?thesis using assms(2) block_conf
      by (auto simp: method_types_def eth_getBlockByHash_def split: sum.splits elim!: obind_RetE)
  next
    case 3
    then show ?thesis using assms(2) quantity_format
      by (auto simp: method_types_def eth_getBalance_def get_balance_def split: sum.splits if_splits)
  qed
qed

theorem rpc_answers_typed_witness:
  "\<exists>j. eth_getBlockByNumber Inr (chain_tree (demo_ext True) (mem_redb mem_empty)) (demo_chain True)
      ''0x0'' = Ret (Inr j) \<and> json_conf block_type j"
proof -
  let ?B = "chain_tree (demo_ext True) (mem_redb mem_empty)"
  let ?f = "eth_getBlockByNumber Inr ?B (demo_chain True)"
  have m: "map_of (rpc_module Inr ?B (demo_chain True) 0) ''eth_getBlockByNumber'' = Some ?f"
    by (simp add: rpc_module_def)
  have "bt_get_header_by_block_number ?B (demo_chain True) 0 = Ret (Inr (chain_genesis (demo_ext True)))"
    using mem_chain.rbt.lookup_eq [OF conjI [OF demo_chain_facts(2,3)]]
    by (simp add: found_def demo_chain_headers)
  then have f: "?f ''0x0'' = Ret (Inr (block_json (chain_genesis (demo_ext True))))"
    by (simp add: eth_getBlockByNumber_def str_from_def char_boundary_def from_str_radix16_def
        hex_value_def)
  from rpc_answers_typed [OF m f] show ?thesis by (simp add: f method_types_def)
qed

end
