(* ===== verification/Mock_Chain.thy ===== *)
theory Mock_Chain
  imports Chain_Net
begin

text \<open>
  \<open>MockChain\<close>, the block tree in memory that the tests of the chain manager and of the RPC
  server run on (\<^verbatim>\<open>src/src/net/chain.rs\<close>, module \<open>tests\<close>), and the headers the
  tests generate. It satisfies the same contract as the chain on redb, so that what is proved
  of the manager for every block tree holds of what the tests observe.
\<close>

section \<open>The block tree in memory\<close>

text \<open>
  The emitter tells a test which headers extended the tip: the headers sent, and whether the
  receiver is alive.
\<close>

record mock_chain =
  mc_headers :: "(u64, header) btree_map"
  mc_emitted :: "header list"
  mc_listening :: bool

definition mock_genesis :: header where
  "mock_genesis = \<lparr>number = 0, parent_hash = ''genesis'', state_root = ''0x'',
     timestamp = 1705551177, nonce = 17012, hash = ''0x''\<rparr>"

definition mock_get_header_by_block_number :: "mock_chain \<Rightarrow> u64 \<Rightarrow> (error + header) outcome" where
  "mock_get_header_by_block_number c n =
     (case map_of (mc_headers c) n of
        Some h \<Rightarrow> Ret (Inr h) | None \<Rightarrow> Ret (Inl BlockHeaderNotFound))"

definition mock_tip :: "mock_chain \<Rightarrow> (error + header) outcome" where
  "mock_tip c =
     obind (expect_some ''called `Option::unwrap()` on a `None` value'' (btm_last (mc_headers c)))
       (\<lambda>(_, h). Ret (Inr h))"

definition mock_validate :: "ext \<Rightarrow> header \<Rightarrow> header \<Rightarrow> (error + unit) outcome" where
  "mock_validate X parent_header h =
     (if hash parent_header \<noteq> parent_hash h then Ret (Inl Invalid)
      else obind (u64_add (overflow_checks X) (number parent_header) 1) (\<lambda>m.
        if m \<noteq> number h then Ret (Inl Invalid) else Ret (Inr ())))"

definition mock_check_parent :: "ext \<Rightarrow> mock_chain \<Rightarrow> header \<Rightarrow> (error + unit) outcome" where
  "mock_check_parent X c h =
     (if h \<noteq> mock_genesis then
        obind (u64_sub (overflow_checks X) (number h) 1) (\<lambda>n.
        obind (mock_get_header_by_block_number c n) (\<lambda>r. case r of
          Inl e \<Rightarrow> Ret (Inl e)
        | Inr parent_header \<Rightarrow> mock_validate X parent_header h))
      else Ret (Inr ()))"

definition mock_try_add_block_header ::
  "ext \<Rightarrow> mock_chain \<Rightarrow> header \<Rightarrow> ((error + added_block_result) \<times> mock_chain) outcome" where
  "mock_try_add_block_header X c h =
     obind (mock_check_parent X c h) (\<lambda>v. case v of
       Inl e \<Rightarrow> Ret (Inl e, c)
     | Inr _ \<Rightarrow> obind (mock_tip c) (\<lambda>t. case t of
       Inl e \<Rightarrow> Ret (Inl e, c)
     | Inr old_tip \<Rightarrow>
         let c' = c\<lparr>mc_headers := snd (btm_insert (number h) h (mc_headers c))\<rparr> in
         obind (mock_tip c') (\<lambda>t'. case t' of
           Inl e \<Rightarrow> Ret (Inl e, c')
         | Inr new_tip \<Rightarrow>
             if number old_tip < number new_tip then
               if mc_listening c
               then Ret (Inr ExtendTip, c'\<lparr>mc_emitted := mc_emitted c @ [h]\<rparr>)
               else Panic ''called `Result::unwrap()` on an `Err` value''
             else Ret (Inr AlreadyInChain, c'))))"

definition mock_get_header_by_hash :: "mock_chain \<Rightarrow> string \<Rightarrow> (error + header) outcome" where
  "mock_get_header_by_hash c k = Ret (Inr header_default)"

definition mock_tree :: "ext \<Rightarrow> mock_chain block_tree" where
  "mock_tree X = \<lparr>
     bt_try_add_block_header = mock_try_add_block_header X,
     bt_get_header_by_block_number = mock_get_header_by_block_number,
     bt_get_header_by_hash = mock_get_header_by_hash,
     bt_tip = mock_tip,
     bt_genesis = mock_genesis\<rparr>"

section \<open>Generated headers\<close>

definition u64_mul :: "bool \<Rightarrow> u64 \<Rightarrow> u64 \<Rightarrow> u64 outcome" where
  "u64_mul checks a b = (if checks \<and> 2 ^ 64 \<le> unat a * unat b
     then Panic ''attempt to multiply with overflow'' else Ret (a * b))"

fun generate_loop ::
  "ext \<Rightarrow> u64 list \<Rightarrow> (u64, header) btree_map \<Rightarrow> (u64, header) btree_map outcome" where
  "generate_loop X [] headers = Ret headers"
| "generate_loop X (n # ns) headers =
     obind (u64_sub (overflow_checks X) n 1) (\<lambda>p.
     obind (expect_some ''called `Option::unwrap()` on a `None` value'' (map_of headers p)) (\<lambda>parent.
     obind (u64_mul (overflow_checks X) n 10) (\<lambda>d.
     obind (u64_add (overflow_checks X) 1705551177 d) (\<lambda>time.
     let h = calculate_hash X n time (hash parent) ''0x'' ''0x'' 17012 in
     generate_loop X ns (snd (btm_insert n
       \<lparr>number = n, parent_hash = hash parent, state_root = ''0x'', timestamp = time,
        nonce = 17012, hash = hex_encode X h\<rparr> headers))))))"

definition generate_headers_from_genesis :: "ext \<Rightarrow> u64 \<Rightarrow> (u64, header) btree_map outcome" where
  "generate_headers_from_genesis X to_block =
     obind (u64_add (overflow_checks X) to_block 1) (\<lambda>stop.
     generate_loop X (map of_nat [1..<unat stop]) (snd (btm_insert 0 mock_genesis [])))"

definition get_header_in_interval :: "ext \<Rightarrow> u64 \<Rightarrow> u64 \<Rightarrow> header list outcome" where
  "get_header_in_interval X from_block to_block =
     obind (u64_add (overflow_checks X) to_block 1) (\<lambda>stop.
     obind (generate_headers_from_genesis X stop) (\<lambda>headers.
     let hs = btm_values headers in
     if unat from_block \<le> unat stop \<and> unat stop \<le> length hs
     then Ret (drop (unat from_block) (take (unat stop) hs))
     else Panic ''range is out of bounds''))"

definition mock_new :: "ext \<Rightarrow> u64 \<Rightarrow> bool \<Rightarrow> mock_chain outcome" where
  "mock_new X latest_block listening =
     obind (generate_headers_from_genesis X latest_block) (\<lambda>hs.
     Ret \<lparr>mc_headers = hs, mc_emitted = [], mc_listening = listening\<rparr>)"

section \<open>The contract\<close>

definition mock_inv :: "mock_chain \<Rightarrow> bool" where
  "mock_inv c \<longleftrightarrow> btm_wf (mc_headers c) \<and> wf_headers (map_of (mc_headers c)) \<and> mc_listening c"

lemma mock_tip_result:
  assumes "btm_wf (mc_headers c)" and "wf_headers (map_of (mc_headers c))"
  shows "mock_tip c = Ret (Inr (tip_header (map_of (mc_headers c))))"
  using btm_last_entry [OF assms(1)] wf_headersD(1) [OF assms(2)]
  by (auto simp: mock_tip_def last_entry_def tip_header_def tip_number_def)

lemma mock_check_result:
  assumes wf: "wf_headers (map_of (mc_headers c))"
  shows "mock_check_parent X c h =
    parent_spec (overflow_checks X) mock_genesis (map_of (mc_headers c)) h"
proof -
  let ?m = "map_of (mc_headers c)"
  consider "h = mock_genesis" | "h \<noteq> mock_genesis" "overflow_checks X" "number h = 0"
    | "h \<noteq> mock_genesis" "u64_sub (overflow_checks X) (number h) 1 = Ret (number h - 1)"
      "\<not> (overflow_checks X \<and> number h = 0)"
    by (auto simp: u64_sub_def word_less_1)
  then show ?thesis
  proof cases
    case 3
    show ?thesis
    proof (cases "?m (number h - 1)")
      case None
      with 3 show ?thesis
        by (simp add: mock_check_parent_def parent_spec_def mock_get_header_by_block_number_def)
    next
      case (Some p)
      then have "number p = number h - 1" using wf_headersD(2) [OF wf] by blast
      then have "u64_add (overflow_checks X) (number p) 1 = Ret (number h)"
        using 3 u64_pred_le [of "number h"] by (auto simp: u64_add_def)
      with 3 Some show ?thesis
        by (auto simp: mock_check_parent_def parent_spec_def mock_get_header_by_block_number_def
            mock_validate_def)
    qed
  qed (auto simp: mock_check_parent_def parent_spec_def u64_sub_def)
qed

lemma mock_add_result:
  assumes "mock_inv c"
  shows "mock_try_add_block_header X c h =
    (case add_spec (overflow_checks X) mock_genesis (map_of (mc_headers c)) h of
       Ret (Inl e, _) \<Rightarrow> Ret (Inl e, c)
     | Ret (Inr q, _) \<Rightarrow> Ret (Inr q, c\<lparr>mc_headers := btm_put (number h) h (mc_headers c),
         mc_emitted := mc_emitted c @ (if q = ExtendTip then [h] else [])\<rparr>)
     | Panic s \<Rightarrow> Panic s | Diverge \<Rightarrow> Diverge)"
proof -
  let ?m = "map_of (mc_headers c)"
    and ?c = "c\<lparr>mc_headers := btm_put (number h) h (mc_headers c)\<rparr>"
  have bwf: "btm_wf (mc_headers c)" and wf: "wf_headers ?m" and l: "mc_listening c"
    using assms by (simp_all add: mock_inv_def)
  note p = mock_check_result [OF wf, of X h]
  have g: "number mock_genesis = 0" by (simp add: mock_genesis_def)
  have m': "map_of (mc_headers ?c) = ?m(number h \<mapsto> h)" using bwf by (simp add: btm_get_put)
  have tip: "mock_tip ?c = Ret (Inr (tip_header (?m(number h \<mapsto> h))))" "tip_number (?m(number h \<mapsto> h)) =
      max (tip_number ?m) (number h)" "wf_headers (?m(number h \<mapsto> h))"
    if "parent_spec (overflow_checks X) mock_genesis ?m h = Ret (Inr u)" for u
    using mock_tip_result [of ?c] parent_spec_wf [OF wf g that] bwf tip_number_upd [OF wf]
    by (simp_all add: btm_wf_put btm_get_put)
  show ?thesis
    using p tip l mock_tip_result [OF bwf wf] wf
    by (cases rule: parent_spec_cases [of h mock_genesis "overflow_checks X" ?m])
      (auto simp: mock_try_add_block_header_def add_spec_def btm_insert_def Let_def
        less_max_iff_disj)
qed

interpretation mock: reliable_block_tree "mock_tree X" "overflow_checks X" mock_inv
  "\<lambda>c. map_of (mc_headers c)" for X
proof
  fix b n h
  assume i: "mock_inv b"
  then have bwf: "btm_wf (mc_headers b)" and wf: "wf_headers (map_of (mc_headers b))"
    by (simp_all add: mock_inv_def)
  let ?m = "map_of (mc_headers b)"
  show "wf_headers ?m" by (rule wf)
  have get: "bt_get_header_by_block_number (mock_tree X) b n = Ret (found (?m n))"
    by (simp add: mock_tree_def mock_get_header_by_block_number_def found_def split: option.splits)
  then show "\<exists>r. bt_get_header_by_block_number (mock_tree X) b n = Ret r \<and>
      (db_fault r \<or> r = found (?m n))" by simp
  show "\<not> db_fault r" if "bt_get_header_by_block_number (mock_tree X) b n = Ret r" for r
    using that get by auto
  have tip: "bt_tip (mock_tree X) b = Ret (Inr (tip_header ?m))"
    by (simp add: mock_tree_def mock_tip_result [OF bwf wf])
  then show "\<exists>r. bt_tip (mock_tree X) b = Ret r \<and> (db_fault r \<or> r = Inr (tip_header ?m))" by simp
  show "\<not> db_fault t" if "bt_tip (mock_tree X) b = Ret t" for t using that tip by auto
  let ?s = "add_spec (overflow_checks X) mock_genesis ?m h"
  have add: "bt_try_add_block_header (mock_tree X) b h = (case ?s of
       Ret (Inl e, _) \<Rightarrow> Ret (Inl e, b)
     | Ret (Inr q, _) \<Rightarrow> Ret (Inr q, b\<lparr>mc_headers := btm_put (number h) h (mc_headers b),
         mc_emitted := mc_emitted b @ (if q = ExtendTip then [h] else [])\<rparr>)
     | Panic s \<Rightarrow> Panic s | Diverge \<Rightarrow> Diverge)"
    by (simp add: mock_tree_def mock_add_result [OF i])
  have g: "bt_genesis (mock_tree X) = mock_genesis" by (simp add: mock_tree_def)
  show "bt_try_add_block_header (mock_tree X) b h \<noteq> Diverge"
    unfolding add by (auto split: outcome.splits sum.splits prod.splits)
  show "add_spec (overflow_checks X) (bt_genesis (mock_tree X)) ?m h = Panic s"
    if "bt_try_add_block_header (mock_tree X) b h = Panic s" for s
    using that unfolding add g by (auto split: outcome.splits sum.splits prod.splits)
  show res: "mock_inv b' \<and> (if db_fault r
      then map_of (mc_headers b') = ?m \<or> (\<exists>q. add_spec (overflow_checks X)
        (bt_genesis (mock_tree X)) ?m h = Ret (Inr q, map_of (mc_headers b')))
      else add_spec (overflow_checks X) (bt_genesis (mock_tree X)) ?m h =
        Ret (r, map_of (mc_headers b')))"
    and "\<not> db_fault r"
    if "bt_try_add_block_header (mock_tree X) b h = Ret (r, b')" for r b'
  proof -
    from that obtain m' where s: "?s = Ret (r, m')" unfolding add
      by (auto split: outcome.splits sum.splits prod.splits)
    show nf: "\<not> db_fault r" using add_spec_no_fault [OF s] .
    have "mock_inv b' \<and> map_of (mc_headers b') = m'"
      using that i add_spec_wf [OF wf _ s] add_spec_Inl [of _ _ ?m h _ m'] add_spec_Inr [of _ _ ?m h _ m'] s bwf
      unfolding add
      by (cases r) (auto simp: mock_inv_def mock_genesis_def btm_wf_put btm_get_put)
    with s nf show "mock_inv b' \<and> (if db_fault r
      then map_of (mc_headers b') = ?m \<or> (\<exists>q. add_spec (overflow_checks X)
        (bt_genesis (mock_tree X)) ?m h = Ret (Inr q, map_of (mc_headers b')))
      else add_spec (overflow_checks X) (bt_genesis (mock_tree X)) ?m h =
        Ret (r, map_of (mc_headers b')))" by (simp add: g)
  qed
qed (simp add: mock_tree_def mock_genesis_def)

end
