(* ===== verification/Generated.thy ===== *)
theory Generated
  imports Mock_Chain
begin

text \<open>
  The headers that the tests generate, in closed form: \<open>generate_headers_from_genesis\<close> and
  \<open>get_header_in_interval\<close> are slices of one endless chain, and the chain that a test starts
  from or expects is an initial piece of it.
\<close>

section \<open>The endless chain\<close>

fun gen_header :: "ext \<Rightarrow> nat \<Rightarrow> header" where
  "gen_header X 0 = mock_genesis"
| "gen_header X (Suc k) =
     (let n = of_nat (Suc k); time = 1705551177 + n * 10; parent = hash (gen_header X k) in
      \<lparr>number = n, parent_hash = parent, state_root = ''0x'', timestamp = time, nonce = 17012,
       hash = hex_encode X (calculate_hash X n time parent ''0x'' ''0x'' 17012)\<rparr>)"

definition gen_map :: "ext \<Rightarrow> nat \<Rightarrow> (u64, header) btree_map" where
  "gen_map X k = map (\<lambda>i. (of_nat i, gen_header X i)) [0..<Suc k]"

lemma gen_header_number: "number (gen_header X k) = of_nat k"
  by (cases k) (simp_all add: mock_genesis_def Let_def)

lemma gen_header_parent: "parent_hash (gen_header X (Suc k)) = hash (gen_header X k)"
  by (simp add: Let_def)

lemma gen_header_root: "state_root (gen_header X (Suc k)) = ''0x''"
  by (simp add: Let_def)

lemma u64_less: "i < j \<Longrightarrow> j < 2 ^ 64 \<Longrightarrow> (of_nat i :: u64) < of_nat j"
  by (simp add: word_less_nat_alt unat_of_nat)

lemma u64_of_unat: "unat (n::u64) = k \<Longrightarrow> n = of_nat k"
  by auto

lemma btm_put_last: "(\<And>e. e \<in> set m \<Longrightarrow> fst e < k) \<Longrightarrow> btm_put k v m = m @ [(k, v)]"
  by (induction m) (auto simp: less_imp_neq)

lemma gen_map_Suc: "gen_map X (Suc k) = gen_map X k @ [(of_nat (Suc k), gen_header X (Suc k))]"
  by (simp add: gen_map_def del: gen_header.simps of_nat_Suc)

lemma gen_map_lookup:
  assumes "k < 2 ^ 64"
  shows "map_of (gen_map X k) n = (if unat n \<le> k then Some (gen_header X (unat n)) else None)"
proof -
  have "(of_nat (unat n), gen_header X (unat n)) \<in> set (gen_map X k)" if "unat n \<le> k"
    unfolding gen_map_def set_map using that by (intro image_eqI [of _ _ "unat n"]) auto
  moreover have "inj_on (of_nat :: nat \<Rightarrow> u64) {0..<Suc k}"
  proof (rule inj_onI)
    fix i j
    assume "i \<in> {0..<Suc k}" "j \<in> {0..<Suc k}" "(of_nat i :: u64) = of_nat j"
    then have "unat (of_nat i :: u64) = unat (of_nat j :: u64)" "i < 2 ^ 64" "j < 2 ^ 64"
      using assms by simp_all
    then show "i = j" by (simp add: unat_of_nat)
  qed
  then have "distinct (map fst (gen_map X k))"
    by (simp add: gen_map_def comp_def distinct_map del: upt_Suc)
  moreover have "map_of (gen_map X k) n = None" if "\<not> unat n \<le> k"
    using that assms by (auto simp: map_of_eq_None_iff gen_map_def unat_of_nat)
  ultimately show ?thesis by (simp add: map_of_is_SomeI)
qed

lemma gen_map_values: "btm_values (gen_map X k) = map (gen_header X) [0..<Suc k]"
  by (simp add: btm_values_def gen_map_def comp_def)

lemma gen_map_last: "btm_last (gen_map X k) = Some (of_nat k, gen_header X k)"
  by (simp add: btm_last_def gen_map_def)

lemma generate_loop_closed:
  assumes "k \<le> n" and "n < 10 ^ 18"
  shows "generate_loop X (map of_nat [Suc k..<Suc n]) (gen_map X k) = Ret (gen_map X n)"
  using assms
proof (induction "n - k" arbitrary: k)
  case 0
  then show ?case by simp
next
  case (Suc d)
  let ?n = "of_nat (Suc k) :: u64"
  have lt: "k < n" "Suc k \<le> n" "d = n - Suc k" using Suc.hyps(2) by simp_all
  have u: "unat ?n = Suc k" using lt Suc.prems(2) by (simp add: unat_of_nat del: of_nat_Suc)
  have ns: "map of_nat [Suc k..<Suc n] = ?n # map of_nat [Suc (Suc k)..<Suc n]"
    using lt by (simp add: upt_conv_Cons del: of_nat_Suc upt_Suc)
  have k: "k < 2 ^ 64" "unat (of_nat k :: u64) = k"
    using lt Suc.prems(2) by (simp_all add: unat_of_nat)
  have p: "map_of (gen_map X k) (of_nat k) = Some (gen_header X k)"
    by (simp add: gen_map_lookup [OF k(1)] k(2))
  have sub: "u64_sub (overflow_checks X) ?n 1 = Ret (of_nat k)"
    using u by (simp add: u64_sub_def word_less_nat_alt)
  have mul: "u64_mul (overflow_checks X) ?n 10 = Ret (?n * 10)"
    using u lt Suc.prems(2) by (simp add: u64_mul_def)
  have "unat (?n * 10) = Suc k * 10"
    using u lt Suc.prems(2) by (simp add: unat_word_ariths del: of_nat_Suc)
  then have add: "u64_add (overflow_checks X) 1705551177 (?n * 10) = Ret (1705551177 + ?n * 10)"
    using lt Suc.prems(2)
    by (simp add: u64_add_def word_less_nat_alt unat_word_ariths del: of_nat_Suc)
  have put: "btm_put ?n h (gen_map X k) = gen_map X k @ [(?n, h)]" for h
    by (rule btm_put_last)
      (use lt Suc.prems(2) in \<open>auto simp: gen_map_def intro!: u64_less simp del: of_nat_Suc\<close>)
  have "generate_loop X (map of_nat [Suc k..<Suc n]) (gen_map X k) =
      generate_loop X (map of_nat [Suc (Suc k)..<Suc n]) (gen_map X (Suc k))"
    unfolding ns generate_loop.simps sub mul add p expect_some_simps obind_Ret btm_insert_def
      snd_conv Let_def put gen_map_Suc gen_header.simps ..
  with Suc.hyps(1) [OF lt(3,2) Suc.prems(2)] show ?case by simp
qed

lemma generate_closed:
  assumes "unat n < 10 ^ 18"
  shows "generate_headers_from_genesis X n = Ret (gen_map X (unat n))"
proof -
  have s: "u64_add (overflow_checks X) n 1 = Ret (n + 1)" "unat (n + 1) = Suc (unat n)"
    using assms u64_succ_ok [of n 1000000000000000000] u64_succ_unat [of n 1000000000000000000]
    by (simp_all add: word_less_nat_alt)
  have "gen_map X 0 = [(0, mock_genesis)]" by (simp add: gen_map_def)
  with generate_loop_closed [of 0 "unat n" X] assms show ?thesis
    by (simp add: generate_headers_from_genesis_def s btm_insert_def)
qed

lemma interval_closed:
  assumes "unat b < 10 ^ 17" and "unat a \<le> Suc (unat b)"
  shows "get_header_in_interval X a b = Ret (map (gen_header X) [unat a..<Suc (unat b)])"
proof -
  have s: "u64_add (overflow_checks X) b 1 = Ret (b + 1)" "unat (b + 1) = Suc (unat b)"
    using assms u64_succ_ok [of b 1000000000000000000] u64_succ_unat [of b 1000000000000000000]
    by (simp_all add: word_less_nat_alt)
  have "drop (unat a) (take (Suc (unat b)) (map (gen_header X) [0..<Suc (Suc (unat b))])) =
      map (gen_header X) [unat a..<Suc (unat b)]"
    using assms(2) by (simp add: take_map drop_map)
  with assms show ?thesis
    by (simp add: get_header_in_interval_def s generate_closed gen_map_values Let_def
        del: upt_Suc take_Suc_Cons)
qed

lemma mock_new_closed:
  "unat n < 10 ^ 18 \<Longrightarrow> mock_new X n l =
    Ret \<lparr>mc_headers = gen_map X (unat n), mc_emitted = [], mc_listening = l\<rparr>"
  by (simp add: mock_new_def generate_closed)

section \<open>The headers form a chain\<close>

lemma gen_map_wf:
  assumes "k < 2 ^ 64"
  shows "btm_wf (gen_map X k)" and "wf_headers (map_of (gen_map X k))"
    and "tip_number (map_of (gen_map X k)) = of_nat k"
    and "tip_header (map_of (gen_map X k)) = gen_header X k"
proof -
  have u: "unat (of_nat k :: u64) = k" using assms by (simp add: unat_of_nat)
  show "btm_wf (gen_map X k)"
    using assms by (auto simp: btm_wf_def gen_map_def sorted_wrt_iff_nth_less u64_less
        simp del: upt_Suc)
  show "wf_headers (map_of (gen_map X k))"
    by (auto simp: wf_headers_def gen_map_lookup [OF assms] gen_header_number word_le_nat_alt
        split: if_splits)
  show t: "tip_number (map_of (gen_map X k)) = of_nat k"
    by (rule tip_number_unique) (auto simp: gen_map_lookup [OF assms] u word_le_nat_alt
        split: if_splits)
  show "tip_header (map_of (gen_map X k)) = gen_header X k"
    by (simp add: tip_header_def t gen_map_lookup [OF assms] u)
qed

lemma gen_extends:
  assumes "k \<le> n" and "n < 2 ^ 64"
  shows "extends (gen_header X k) (map (gen_header X) [Suc k..<Suc n])"
  using assms
proof (induction "n - k" arbitrary: k)
  case (Suc d)
  from Suc.hyps(2) have "Suc k < Suc n" by simp
  then have "[Suc k..<Suc n] = Suc k # [Suc (Suc k)..<Suc n]" by (rule upt_conv_Cons)
  with Suc u64_less [of k "Suc k"] show ?case
    by (simp add: gen_header_number gen_header_parent del: gen_header.simps upt_Suc)
qed simp

lemma gen_store_all:
  assumes "k \<le> n" and "n < 2 ^ 64"
  shows "store_all (map_of (gen_map X k)) (map (gen_header X) [Suc k..<Suc n]) = map_of (gen_map X n)"
  using assms
proof (induction "n - k" arbitrary: k)
  case (Suc d)
  from Suc.hyps(2) have "Suc k < Suc n" by simp
  then have ns: "[Suc k..<Suc n] = Suc k # [Suc (Suc k)..<Suc n]" by (rule upt_conv_Cons)
  have "(map_of (gen_map X k))(of_nat (Suc k) \<mapsto> gen_header X (Suc k)) = map_of (gen_map X (Suc k))"
    using Suc.hyps(2) Suc.prems
    by (auto simp: fun_eq_iff gen_map_lookup unat_of_nat le_Suc_eq
        dest!: u64_of_unat simp del: gen_header.simps of_nat_Suc)
  with Suc.hyps(1) [of "Suc k"] Suc.hyps(2) Suc.prems show ?case
    unfolding ns by (simp add: gen_header_number del: gen_header.simps of_nat_Suc upt_Suc)
qed simp

text \<open>A new \<open>MockChain\<close> satisfies its invariant and is linked up to its tip.\<close>

lemma gen_linked:
  assumes "k < 2 ^ 64"
  shows "linked (map_of (gen_map X k))"
  unfolding linked_def
proof (intro allI impI)
  fix n p h
  assume n: "n \<noteq> 0" and p: "map_of (gen_map X k) (n - 1) = Some p" and h: "map_of (gen_map X k) n = Some h"
  have "unat n = Suc (unat (n - 1))"
    using n u64_succ_unat [of "n - 1" n] u64_pred_le [OF n] by simp
  with p h show "parent_hash h = hash p"
    by (auto simp: gen_map_lookup [OF assms] gen_header_parent simp del: gen_header.simps
        split: if_splits)
qed

lemma mock_new_result:
  assumes "unat latest < 10 ^ 18"
  shows "\<exists>c. mock_new X latest True = Ret c \<and> mock_inv c \<and> linked (map_of (mc_headers c)) \<and>
    tip_number (map_of (mc_headers c)) = latest"
proof -
  have "unat latest < 2 ^ 64" using assms by simp
  from gen_map_wf(1-3) [OF this, of X] gen_linked [OF this, of X] show ?thesis
    by (simp add: mock_new_closed [OF assms] mock_inv_def)
qed

text \<open>
  The manager answers a request for headers on the generated chain with the headers from the
  start, as many as asked for or as there are. Whether the test listens does not matter.
\<close>

lemma mock_lookup_listening:
  "headers_loop checks (mock_tree X) (c\<lparr>mc_listening := l\<rparr>) k n acc =
    headers_loop checks (mock_tree X) c k n acc"
proof (induction k arbitrary: n acc)
  case (Suc k)
  have "bt_get_header_by_block_number (mock_tree X) (c\<lparr>mc_listening := l\<rparr>) n =
      bt_get_header_by_block_number (mock_tree X) c n"
    by (simp add: mock_tree_def mock_get_header_by_block_number_def)
  with Suc show ?case by simp
qed simp

lemma gen_answers_request:
  assumes "k < 10 ^ 18"
  shows "handle_get_block_headers_request checks (mock_tree X)
      \<lparr>mc_headers = gen_map X k, mc_emitted = es, mc_listening = l\<rparr> r =
    Ret (map (gen_header X) [unat (start_block r)..<
      min (unat (start_block r) + unat (limit r)) (Suc k)])"
proof -
  let ?c = "\<lparr>mc_headers = gen_map X k, mc_emitted = es, mc_listening = True\<rparr>"
  let ?m = "map_of (gen_map X k)" and ?s = "unat (start_block r)"
  have k: "k < 2 ^ 64" using assms by simp
  have u: "unat (of_nat k :: u64) = k" using k by (simp add: unat_of_nat)
  have inv: "mock_inv ?c" using gen_map_wf [OF k] by (simp add: mock_inv_def)
  have bound: "tip_number ?m < of_nat (10 ^ 18)"
    using assms gen_map_wf(3) [OF k] by (simp add: word_less_nat_alt u)
  have "handle_get_block_headers_request checks (mock_tree X) ?c r = Ret (requested ?m r)"
    using mock.answers_request [OF inv, of "of_nat (10 ^ 18)"] bound by simp
  moreover have "handle_get_block_headers_request checks (mock_tree X)
      \<lparr>mc_headers = gen_map X k, mc_emitted = es, mc_listening = l\<rparr> r =
      handle_get_block_headers_request checks (mock_tree X) ?c r"
    using mock_lookup_listening [of checks X l ?c] by (simp add: handle_get_block_headers_request_def)
  moreover have "requested ?m r = map (gen_header X) [?s..<min (?s + unat (limit r)) (Suc k)]"
  proof (rule nth_equalityI)
    show "length (requested ?m r) = length (map (gen_header X) [?s..<min (?s + unat (limit r)) (Suc k)])"
      using gen_map_wf(3) [OF k] by (simp add: requested_def u min_def) linarith
    fix i
    assume i: "i < length (requested ?m r)"
    then have "i < Suc k - ?s" and lim: "i < unat (limit r)"
      using gen_map_wf(3) [OF k] by (simp_all add: requested_def u)
    then have le: "?s + i \<le> k" by linarith
    then have "unat (start_block r + of_nat i) = ?s + i"
      using k by (simp add: unat_word_ariths unat_of_nat)
    with i le lim show "requested ?m r ! i = map (gen_header X) [?s..<min (?s + unat (limit r)) (Suc k)] ! i"
      by (simp add: requested_def number_range_def gen_map_lookup [OF k])
  qed
  ultimately show ?thesis by simp
qed

end
