(* ===== verification/Rpc_Http.thy ===== *)
theory Rpc_Http
  imports Rpc_Properties Generated "HOL-Library.Countable"
begin

text \<open>
  The HTTP side of the RPC server (\<^verbatim>\<open>src/src/rpc.rs\<close>): the stack of layers that
  \<open>start_server\<close> puts around the methods, requests of a client through it, the example
  client (\<^verbatim>\<open>src/examples/rpc_client.rs\<close>) and the tests of the server. The layers are
  those of tower and JSON-RPC is jsonrpsee's; both are arguments, with what they document as
  the laws of two locales. Time-outs are part of the laws: a request may take too long.
\<close>

section \<open>Layers and JSON-RPC\<close>

record http_request =
  rq_headers :: "(string \<times> string) list"
  rq_body :: bytes

record http_response =
  rsp_status :: nat
  rsp_body :: bytes

text \<open>A service answers a request or fails, with the text of the error.\<close>

type_synonym service = "http_request \<Rightarrow> (string + http_response) outcome"

record tower =
  tw_trace :: "service \<Rightarrow> service"
  tw_sensitive :: "string list \<Rightarrow> service \<Rightarrow> service"
  tw_bearer :: "string \<Rightarrow> service \<Rightarrow> service"
  tw_timeout :: "nat \<Rightarrow> service \<Rightarrow> service"

text \<open>
  Logging and marking a header as sensitive change no answer; the bearer layer passes a request
  on if its \<open>Authorization\<close> header carries the token and answers 401 otherwise; the timeout
  layer answers as the service, or fails.
\<close>

locale tower_laws =
  fixes T :: tower
    and elapsed :: string
  assumes trace: "tw_trace T s = s"
    and sensitive: "tw_sensitive T hs s = s"
    and bearer: "tw_bearer T token s r =
      (if map_of (rq_headers r) ''authorization'' = Some (''Bearer '' @ token) then s r
       else Ret (Inr \<lparr>rsp_status = 401, rsp_body = []\<rparr>))"
    and timeout: "tw_timeout T secs s r = s r \<or> tw_timeout T secs s r = Ret (Inl elapsed)"

type_synonym 'p rpc_methods = "(string \<times> ('p \<Rightarrow> (rpc_error + json) outcome)) list"

text \<open>
  jsonrpsee: handling the body of a request with the registered methods, parsing the only
  parameter of a call, the body of a call with one string, and the text of an answer with its
  parser, for calls with the same identifier.
\<close>

record 'p jsonrpsee =
  js_handle :: "'p rpc_methods \<Rightarrow> bytes \<Rightarrow> bytes outcome"
  js_one :: "'p \<Rightarrow> rpc_error + string"
  js_call :: "string \<Rightarrow> string \<Rightarrow> bytes"
  js_text :: "rpc_error + json \<Rightarrow> bytes"
  js_parse :: "bytes \<Rightarrow> rpc_error + json"

definition METHOD_NOT_FOUND_CODE :: int where
  "METHOD_NOT_FOUND_CODE = -32601"

locale json_rpc =
  fixes J :: "'p jsonrpsee"
    and params :: "string \<Rightarrow> 'p"
    and not_found :: "string \<Rightarrow> rpc_error"
  assumes handle_call: "js_handle J ms (js_call J m p) =
      (case map_of ms m of
         None \<Rightarrow> Ret (js_text J (Inl (not_found m)))
       | Some f \<Rightarrow> obind (f (params p)) (\<lambda>a. Ret (js_text J a)))"
    and one_param: "js_one J (params p) = Inr p"
    and parse_text: "js_parse J (js_text J a) = a"
    and not_found_code: "rpc_code (not_found m) = METHOD_NOT_FOUND_CODE"

section \<open>The server\<close>

definition MOCK_AUTH_TOKEN :: string where
  "MOCK_AUTH_TOKEN = ''mock_auth_token''"

text \<open>\<open>service_builder\<close>: the layer that was added first is the outermost.\<close>

definition service_builder :: "tower \<Rightarrow> service \<Rightarrow> service" where
  "service_builder T inner =
     tw_trace T
       (tw_sensitive T [''authorization'']
         (tw_bearer T MOCK_AUTH_TOKEN
           (tw_timeout T 2 inner)))"

text \<open>What the server answers once it is started; \<open>random\<close> is drawn for the request.\<close>

definition serve :: "tower \<Rightarrow> 'p jsonrpsee \<Rightarrow> 'b block_tree \<Rightarrow> 'b rpc_server \<Rightarrow> u64 \<Rightarrow> service" where
  "serve T J B server random =
     service_builder T (\<lambda>r.
       obind (js_handle J (rpc_module (js_one J) B (rs_chain server) random) (rq_body r)) (\<lambda>body.
       Ret (Inr \<lparr>rsp_status = 200, rsp_body = body\<rparr>)))"

section \<open>Clients\<close>

datatype client_error = ClientTransport string | RejectedStatus nat | CallError rpc_error

text \<open>A call by jsonrpsee's HTTP client with given headers.\<close>

definition client_request ::
  "service \<Rightarrow> 'p jsonrpsee \<Rightarrow> (string \<times> string) list \<Rightarrow> string \<times> string \<Rightarrow>
     (client_error + json) outcome" where
  "client_request S J headers req =
     obind (S \<lparr>rq_headers = headers, rq_body = js_call J (fst req) (snd req)\<rparr>) (\<lambda>a.
     case a of
       Inl e \<Rightarrow> Ret (Inl (ClientTransport e))
     | Inr rsp \<Rightarrow>
         if rsp_status rsp \<noteq> 200 then Ret (Inl (RejectedStatus (rsp_status rsp)))
         else Ret (map_sum CallError id (js_parse J (rsp_body rsp))))"




section \<open>The tests of the server\<close>

text \<open>
  \<open>http_request\<close> of the tests: a server on a chain of 100 generated headers, one request
  with the token, and the status and body of the response.
\<close>

definition test_http_request ::
  "ext \<Rightarrow> tower \<Rightarrow> 'p jsonrpsee \<Rightarrow> (string \<Rightarrow> string + socket_addr) \<Rightarrow> u64 \<Rightarrow> bytes \<Rightarrow>
     (nat \<times> bytes) outcome" where
  "test_http_request X T J bind random body =
     obind (mock_new X 100 False) (\<lambda>chain.
     obind (rpc_build (with_addr (with_chain rpc_builder_default chain) ''0.0.0.0:0'')) (\<lambda>server.
     obind (start_server bind server) (\<lambda>server.
     obind (serve T J (mock_tree X) server random
       \<lparr>rq_headers = [(''authorization'', ''Bearer '' @ MOCK_AUTH_TOKEN),
          (''content-type'', ''application/json'')], rq_body = body\<rparr>) (\<lambda>a.
     obind (unwrap a) (\<lambda>res.
     Ret (rsp_status res, rsp_body res))))))"

definition test_rpc ::
  "ext \<Rightarrow> tower \<Rightarrow> 'p jsonrpsee \<Rightarrow> (string \<Rightarrow> string + socket_addr) \<Rightarrow> u64 \<Rightarrow> bytes \<Rightarrow> bytes \<Rightarrow>
     unit outcome" where
  "test_rpc X T J bind random body expected =
     obind (test_http_request X T J bind random body) (\<lambda>(status, res).
     obind (assert_that (status = 200)) (\<lambda>_.
     assert_that (res = expected)))"

text \<open>
  The four tests, by the body they send and the response they expect. The two hashes in the
  response of the first, which SHA-256 determines, are arguments.
\<close>

definition test_eth_get_block_by_number where
  "test_eth_get_block_by_number X T J bind random hash18 hash17 =
     test_rpc X T J bind random (js_call J ''eth_getBlockByNumber'' ''0x12'')
       (js_text J (Inr (JObject [(''block_hash'', JString hash18), (''block_number'', JString ''0x12''),
         (''state_root'', JString ''0x''), (''parent_root'', JString hash17),
         (''transactions'', JArray [])])))"

definition test_block_not_found where
  "test_block_not_found X T J bind random =
     test_rpc X T J bind random (js_call J ''eth_getBlockByNumber'' ''0x99999999'')
       (js_text J (Inl \<lparr>rpc_code = -32603, rpc_message = ''Block not found at 0x99999999''\<rparr>))"

definition test_eth_get_block_by_hash where
  "test_eth_get_block_by_hash X T J bind random =
     test_rpc X T J bind random (js_call J ''eth_getBlockByHash'' ''0x'')
       (js_text J (Inr (JObject [(''block_hash'', JString ''''), (''block_number'', JString ''0x0''),
         (''state_root'', JString ''''), (''parent_root'', JString ''''),
         (''transactions'', JArray [])])))"

definition test_eth_get_balance where
  "test_eth_get_balance X T J bind random =
     test_rpc X T J bind random
       (js_call J ''eth_getBalance'' ''0x000000000000000000000000000000000000dead'')
       (js_text J (Inr (JString ''0xdead'')))"

section \<open>Requests through the stack\<close>

lemma format_tests: "format_0x 18 = ''0x12''" "format_0x 0 = ''0x0''" "format_0x 57005 = ''0xdead''"
  by (simp_all add: format_0x_def lower_hex.simps) code_simp+

lemma radix_tests:
  "str_from ''0x12'' 2 = Ret ''12''" "from_str_radix16 ''12'' = Inr 18"
  "str_from ''0x99999999'' 2 = Ret ''99999999''" "from_str_radix16 ''99999999'' = Inr 2576980377"
  "str_from ''0x0'' 2 = Ret ''0''" "from_str_radix16 ''0'' = Inr 0"
  by (simp_all add: str_from_def char_boundary_def from_str_radix16_def hex_value_def)

abbreviation authorised :: "(string \<times> string) list \<Rightarrow> bool" where
  "authorised headers \<equiv> map_of headers ''authorization'' = Some (''Bearer '' @ MOCK_AUTH_TOKEN)"

text \<open>What a call with the token answers if it does not take too long.\<close>

definition dispatch ::
  "(string \<Rightarrow> 'p) \<Rightarrow> (string \<Rightarrow> rpc_error) \<Rightarrow> 'p rpc_methods \<Rightarrow> string \<times> string \<Rightarrow>
     (client_error + json) outcome" where
  "dispatch params not_found ms req = (case map_of ms (fst req) of
     None \<Rightarrow> Ret (Inl (CallError (not_found (fst req))))
   | Some f \<Rightarrow> obind (f (params (snd req))) (\<lambda>a. Ret (map_sum CallError id a)))"

context tower_laws
begin

lemma service_unauthorised:
  "\<not> authorised (rq_headers r) \<Longrightarrow>
    service_builder T s r = Ret (Inr \<lparr>rsp_status = 401, rsp_body = []\<rparr>)"
  by (simp add: service_builder_def trace sensitive bearer)

lemma service_authorised:
  "authorised (rq_headers r) \<Longrightarrow> service_builder T s r = tw_timeout T 2 s r"
  by (simp add: service_builder_def trace sensitive bearer)

end

locale rpc_stack = tower_laws T elapsed + json_rpc J params not_found
  for T elapsed and J :: "'p jsonrpsee" and params not_found
begin

lemma handled:
  "obind (js_handle J ms (js_call J m p)) (\<lambda>body. Ret (map_sum CallError id (js_parse J body))) =
    dispatch params not_found ms (m, p)"
  by (simp add: handle_call dispatch_def parse_text obind_assoc split: option.split)

lemma request_authorised:
  assumes "authorised headers"
  shows "client_request (serve T J B server random) J headers req =
      dispatch params not_found (rpc_module (js_one J) B (rs_chain server) random) req \<or>
    client_request (serve T J B server random) J headers req = Ret (Inl (ClientTransport elapsed))"
proof -
  let ?ms = "rpc_module (js_one J) B (rs_chain server) random"
  let ?r = "\<lparr>rq_headers = headers, rq_body = js_call J (fst req) (snd req)\<rparr>"
  let ?s = "\<lambda>r. obind (js_handle J ?ms (rq_body r)) (\<lambda>body.
    Ret (Inr \<lparr>rsp_status = 200, rsp_body = body\<rparr>))"
  have "serve T J B server random ?r = tw_timeout T 2 ?s ?r"
    using assms by (simp add: serve_def service_authorised)
  then consider "serve T J B server random ?r = ?s ?r"
    | "serve T J B server random ?r = Ret (Inl elapsed)"
    using timeout [of 2 ?s ?r] by metis
  then show ?thesis
  proof cases
    case 1
    then show ?thesis
      using handled [of ?ms "fst req" "snd req"] by (simp add: client_request_def obind_assoc)
  qed (simp add: client_request_def)
qed

lemma request_unauthorised:
  "\<not> authorised headers \<Longrightarrow>
    client_request (serve T J B server random) J headers req = Ret (Inl (RejectedStatus 401))"
  by (simp add: client_request_def serve_def service_unauthorised)

end


section \<open>An instance\<close>


instance json :: countable
  by countable_datatype





section \<open>Properties\<close>






context rpc_stack
begin

text \<open>A test passes if the method it calls answers what it expects, in time.\<close>

lemma test_passes:
  assumes "\<And>s r. tw_timeout T 2 s r = s r" and "bind ''127.0.0.1:0'' = Inr addr"
    and c: "c = \<lparr>mc_headers = gen_map X 100, mc_emitted = [], mc_listening = False\<rparr>"
    and "map_of (rpc_module (js_one J) (mock_tree X) c random) m = Some f" and "f (params p) = Ret a"
  shows "test_rpc X T J bind random (js_call J m p) (js_text J a) = Ret ()"
proof -
  have "mock_new X 100 False = Ret c" by (simp add: mock_new_closed c)
  then show ?thesis
    using assms(2,4,5)
    by (simp add: test_rpc_def test_http_request_def rpc_build_def with_addr_def with_chain_def
        rpc_builder_default_def start_server_def serve_def service_authorised assms(1) handle_call)
qed

lemma number_answers:
  assumes "str_from k 2 = Ret ds" and "from_str_radix16 ds = Inr n"
    and c: "c = \<lparr>mc_headers = gen_map X 100, mc_emitted = [], mc_listening = False\<rparr>"
  shows "eth_getBlockByNumber (js_one J) (mock_tree X) c (params k) =
    (if unat n \<le> 100 then Ret (Inr (block_json (gen_header X (unat n))))
     else Ret (Inl \<lparr>rpc_code = INTERNAL_ERROR_CODE, rpc_message = ''Block not found at '' @ k\<rparr>))"
  using assms(1,2)
  by (simp add: eth_getBlockByNumber_def one_param mock_tree_def mock_get_header_by_block_number_def
      c gen_map_lookup del: gen_header.simps)

lemma tests_pass:
  assumes "\<And>s r. tw_timeout T 2 s r = s r" and "bind ''127.0.0.1:0'' = Inr addr"
  shows "test_eth_get_block_by_number X T J bind random
      (hash (gen_header X 18)) (hash (gen_header X 17)) = Ret () \<and>
    test_block_not_found X T J bind random = Ret () \<and>
    test_eth_get_block_by_hash X T J bind random = Ret () \<and>
    test_eth_get_balance X T J bind random = Ret ()"
proof (intro conjI)
  let ?c = "\<lparr>mc_headers = gen_map X 100, mc_emitted = [], mc_listening = False\<rparr>"
  note pass = test_passes [where bind = bind and addr = addr and c = ?c and X = X and random = random, OF assms refl]
  have h: "block_json (gen_header X 18) = JObject [(''block_hash'', JString (hash (gen_header X 18))),
      (''block_number'', JString ''0x12''), (''state_root'', JString ''0x''),
      (''parent_root'', JString (hash (gen_header X 17))), (''transactions'', JArray [])]"
    using gen_header_number [of X 18] gen_header_parent [of X 17] gen_header_root [of X 17]
    by (simp add: block_json_def format_tests del: gen_header.simps)
  show "test_eth_get_block_by_number X T J bind random (hash (gen_header X 18)) (hash (gen_header X 17)) = Ret ()"
    unfolding test_eth_get_block_by_number_def h [symmetric]
    by (rule pass [where f = "eth_getBlockByNumber (js_one J) (mock_tree X) ?c"])
      (simp_all add: rpc_module_def number_answers [OF radix_tests(1,2) refl] del: gen_header.simps)
  show "test_block_not_found X T J bind random = Ret ()"
    unfolding test_block_not_found_def
    by (rule pass [where f = "eth_getBlockByNumber (js_one J) (mock_tree X) ?c"])
      (simp_all add: rpc_module_def number_answers [OF radix_tests(3,4) refl] INTERNAL_ERROR_CODE_def)
  show "test_eth_get_block_by_hash X T J bind random = Ret ()"
    unfolding test_eth_get_block_by_hash_def
    by (rule pass [where f = "eth_getBlockByHash (js_one J) (mock_tree X) ?c"])
      (simp_all add: rpc_module_def eth_getBlockByHash_def one_param mock_tree_def
        mock_get_header_by_hash_def block_json_def header_default_def format_tests)
  show "test_eth_get_balance X T J bind random = Ret ()"
    unfolding test_eth_get_balance_def
    by (rule pass [where f = "eth_getBalance (js_one J) random"])
      (simp_all add: rpc_module_def eth_getBalance_def one_param get_balance_def format_tests)
qed

end

text \<open>
  The tests of the server pass if no request takes too long and the address can be bound,
  whatever the hash function: with the hashes it yields, block 18 is served; a number above
  the tip is reported with the internal error code and its text; the block tree of the tests
  serves a default header for every hash; the balance of the one known address is \<open>0xdead\<close>.
\<close>

lemma rpc_tests_pass:
  assumes "tower_laws T elapsed" and "json_rpc J params not_found"
    and "\<And>s r. tw_timeout T 2 s r = s r" and "bind ''127.0.0.1:0'' = Inr addr"
  shows "test_eth_get_block_by_number X T J bind random
      (hash (gen_header X 18)) (hash (gen_header X 17)) = Ret () \<and>
    test_block_not_found X T J bind random = Ret () \<and>
    test_eth_get_block_by_hash X T J bind random = Ret () \<and>
    test_eth_get_balance X T J bind random = Ret ()"
  using rpc_stack.tests_pass [of T elapsed J params not_found] assms by (simp add: rpc_stack_def)

end
