(* ===== verification/Mock_Provider.thy ===== *)
theory Mock_Provider
  imports Generated Provider
begin

text \<open>
  \<open>MockProvider\<close>, the provider that the tests of the chain manager run with
  (\<^verbatim>\<open>src/src/net/chain.rs\<close>, module \<open>tests\<close>): it records broadcasts and requests on
  two channels that the test reads. It satisfies the contract \<open>working_provider\<close> of the
  manager, and a synchronisation with it that fits into one request is computed step by step.
\<close>

section \<open>The provider\<close>

text \<open>
  The world: the messages on the two channels, whether the test still reads the broadcasts,
  and the oneshot channels. The tests that request headers keep the receiver of the requests.
\<close>

record mock_world =
  mw_broadcasts :: "network_provider_message list"
  mw_listening :: bool
  mw_requests :: "get_headers_request list"
  mw_channels :: chans

datatype mock_fut =
    MockHeaders handle
  | MockPeers peer_id
  | MockDone

text \<open>The arguments \<open>random\<close> are the random peers that are drawn.\<close>

definition mp_get_headers ::
  "peer_id \<Rightarrow> mock_world \<Rightarrow> peer_id \<Rightarrow> headers_request \<Rightarrow> mock_fut \<times> mock_world" where
  "mp_get_headers random w p r =
     (let (tx, cs) = oneshot_channel (Some r) (mw_channels w) in
      (MockHeaders tx, w\<lparr>mw_channels := cs,
         mw_requests := mw_requests w @ [\<lparr>ghr_peer = random, ghr_request = r, ghr_sender = tx\<rparr>]\<rparr>))"

text \<open>The receiver of the answer to a broadcast is dropped at once.\<close>

definition mp_broadcast ::
  "mock_world \<Rightarrow> (handle \<Rightarrow> network_provider_message) \<Rightarrow> (mock_fut \<times> mock_world) outcome" where
  "mp_broadcast w message =
     (let (tx, cs) = oneshot_channel None (mw_channels w) in
      if mw_listening w then Ret (MockDone, w\<lparr>mw_channels := drop_receiver tx cs,
        mw_broadcasts := mw_broadcasts w @ [message tx]\<rparr>)
      else Panic ''Receiver should be alive'')"

fun mp_poll_fut :: "chans \<Rightarrow> mock_fut \<Rightarrow> headers_response request_response poll" where
  "mp_poll_fut cs (MockHeaders c) =
     (case poll_receiver c cs of
        Ready (Inr (HeadersReply v)) \<Rightarrow> Ready v
      | Ready (Inl e) \<Rightarrow> Ready (Inl e)
      | _ \<Rightarrow> Pending)"
| "mp_poll_fut cs _ = Pending"

definition mp_poll_headers ::
  "(mock_world \<Rightarrow> nat list \<Rightarrow> nat) \<Rightarrow> mock_world \<Rightarrow> mock_fut list \<Rightarrow>
     (nat \<times> headers_response request_response) option \<times> mock_world" where
  "mp_poll_headers pick w fs =
     (case pick_ready pick w
         (filter (\<lambda>i. mp_poll_fut (mw_channels w) (fs ! i) \<noteq> Pending) [0..<length fs]) of
        None \<Rightarrow> (None, w)
      | Some i \<Rightarrow> (case mp_poll_fut (mw_channels w) (fs ! i) of
            Ready r \<Rightarrow> (Some (i, r), w) | Pending \<Rightarrow> (None, w)))"

fun mp_drop :: "mock_world \<Rightarrow> mock_fut list \<Rightarrow> mock_world" where
  "mp_drop w [] = w"
| "mp_drop w (MockHeaders c # fs) = mp_drop (w\<lparr>mw_channels := drop_receiver c (mw_channels w)\<rparr>) fs"
| "mp_drop w (f # fs) = mp_drop w fs"

definition mock_provider ::
  "(mock_world \<Rightarrow> nat list \<Rightarrow> nat) \<Rightarrow> peer_id \<Rightarrow> (mock_world, mock_fut) provider" where
  "mock_provider pick random = \<lparr>hp_get_headers = mp_get_headers random,
     hp_poll_next = mp_poll_headers pick, hp_drop = mp_drop,
     pp_get_closest_peers = (\<lambda>w. (MockPeers random, w)),
     pp_poll = (\<lambda>w f. (case f of MockPeers p \<Rightarrow> Ready (Inr [p]) | _ \<Rightarrow> Pending, w)),
     bp_broadcast_block_header = (\<lambda>w h. mp_broadcast w (BroadcastBlockHeader h)),
     bp_broadcast_transactions = (\<lambda>w txs. mp_broadcast w (\<lambda>tx. BroadcastTransactions tx txs)),
     bp_poll_next = (\<lambda>w fs. Ret (map_option (\<lambda>i. (i, Inr ()))
       (pick_ready pick w [0..<length fs]), w))\<rparr>"

lemma mock_provider_simps [simp]:
  "hp_get_headers (mock_provider pick random) = mp_get_headers random"
  "hp_poll_next (mock_provider pick random) = mp_poll_headers pick"
  "hp_drop (mock_provider pick random) = mp_drop"
  "pp_get_closest_peers (mock_provider pick random) w = (MockPeers random, w)"
  "pp_poll (mock_provider pick random) w (MockPeers p) = (Ready (Inr [p]), w)"
  "bp_broadcast_block_header (mock_provider pick random) w h = mp_broadcast w (BroadcastBlockHeader h)"
  "bp_broadcast_transactions (mock_provider pick random) w txs =
    mp_broadcast w (\<lambda>tx. BroadcastTransactions tx txs)"
  "bp_poll_next (mock_provider pick random) w fs =
    Ret (map_option (\<lambda>i. (i, Inr ())) (pick_ready pick w [0..<length fs]), w)"
  by (simp_all add: mock_provider_def)

lemma mp_drop_listening [simp]: "mw_listening (mp_drop w fs) = mw_listening w"
  by (induction w fs rule: mp_drop.induct) simp_all

interpretation mockp: working_provider "mock_provider pick random" "\<lambda>w fs. mw_listening w"
  for pick random
  by unfold_locales
    (auto simp: mp_broadcast_def mp_get_headers_def oneshot_channel_def mp_poll_headers_def
      mock_provider_def split: option.splits poll.splits)

text \<open>Broadcasts complete at the first poll.\<close>

lemma mock_broadcasts_done: "poll_broadcasts (mock_provider pick random) q w = Ret ([], w)"
proof (induction "length q" arbitrary: q rule: less_induct)
  case less
  show ?case
  proof (cases "q = []")
    case True
    then show ?thesis by (subst poll_broadcasts.simps) (simp add: pick_ready_def)
  next
    case False
    then obtain i where i: "pick_ready pick w [0..<length q] = Some i" "i < length q"
      using pick_ready_Some [of pick w "[0..<length q]"]
      by (cases "pick_ready pick w [0..<length q]") auto
    from less [OF length_remove_nth [OF i(2)]] i show ?thesis
      by (subst poll_broadcasts.simps) simp
  qed
qed

definition mp_respond ::
  "handle \<Rightarrow> get_block_headers_response request_response \<Rightarrow> mock_world \<Rightarrow> mock_world" where
  "mp_respond c v w = (case oneshot_send c (BlockHeadersReply v) (mw_channels w) of
     Inl _ \<Rightarrow> w | Inr cs \<Rightarrow> w\<lparr>mw_channels := cs\<rparr>)"

definition mock_deps ::
  "ext \<Rightarrow> (mock_world \<Rightarrow> nat list \<Rightarrow> nat) \<Rightarrow> peer_id \<Rightarrow> (mock_chain, mock_world, mock_fut) net_deps" where
  "mock_deps X pick random = \<lparr>nd_checks = overflow_checks X, nd_tree = mock_tree X,
     nd_provider = mock_provider pick random, nd_respond = mp_respond,
     nd_woken = (\<lambda>w n. [0..<n])\<rparr>"

lemma mock_deps_simps [simp]:
  "nd_checks (mock_deps X pick random) = overflow_checks X"
  "nd_tree (mock_deps X pick random) = mock_tree X"
  "nd_provider (mock_deps X pick random) = mock_provider pick random"
  "nd_woken (mock_deps X pick random) w n = [0..<n]"
  by (simp_all add: mock_deps_def)

section \<open>A synchronisation that fits into one request\<close>

lemma mock_nothing_ready:
  "mp_poll_headers pick w [] = (None, w)"
  "sent (mw_channels w ! c) = None \<Longrightarrow> tx_alive (mw_channels w ! c) \<Longrightarrow> c < length (mw_channels w) \<Longrightarrow>
    mp_poll_headers pick w [MockHeaders c] = (None, w)"
  by (simp_all add: mp_poll_headers_def pick_ready_def poll_receiver_def)

definition requested_world :: "peer_id \<Rightarrow> headers_request \<Rightarrow> mock_world \<Rightarrow> mock_world" where
  "requested_world random r w = w\<lparr>mw_channels := mw_channels w @
      [\<lparr>sent = None, tx_alive = True, rx_alive = True, asked = Some r\<rparr>],
    mw_requests := mw_requests w @
      [\<lparr>ghr_peer = random, ghr_request = r, ghr_sender = length (mw_channels w)\<rparr>]\<rparr>"

text \<open>The first poll sends the request.\<close>

lemma mock_first_poll:
  assumes "in_progress_queue s = []" and "max_concurrent_limit s = 10" and "request_limit s = 1000"
    and lt: "local_head_block s < target_head s" and le: "target_head s - local_head_block s \<le> 1000"
  defines "r \<equiv> \<lparr>limit = target_head s - local_head_block s, start_block = local_head_block s + 1\<rparr>"
  shows "sync_poll checks (mock_provider pick random) s w = Ret (Pending,
    s\<lparr>local_head_block := target_head s, in_progress_queue := [MockHeaders (length (mw_channels w))]\<rparr>,
    requested_world random r w)"
proof -
  let ?P = "mock_provider pick random" and ?w = "requested_world random r w"
  let ?s = "s\<lparr>local_head_block := target_head s,
    in_progress_queue := [MockHeaders (length (mw_channels w))]\<rparr>"
  have d: "drain_responses ?P w s = (Inr (), s, w)"
    using assms(1) by (subst drain_responses.simps) (simp add: mock_nothing_ready)
  have lim: "min (target_head s - local_head_block s) (request_limit s) =
      target_head s - local_head_block s" using le assms(3) by simp
  have "issue_requests checks ?P w s False = issue_requests checks ?P ?w ?s True"
    using lim lt assms(1-3)
    by (subst issue_step) (simp_all add: mp_get_headers_def oneshot_channel_def requested_world_def r_def Let_def)
  then have i: "issue_requests checks ?P w s False = Ret (True, ?s, ?w)"
    by (simp add: issue_stop)
  have "in_progress_queue ?s = [MockHeaders (length (mw_channels w))]" by simp
  then have d1: "drain_responses ?P ?w ?s = (Inr (), ?s, ?w)"
    by (subst drain_responses.simps) (simp add: mock_nothing_ready requested_world_def)
  have i1: "issue_requests checks ?P ?w ?s False = Ret (False, ?s, ?w)"
    by (rule issue_stop) simp
  from sync_loop_round [OF d i] sync_loop_round [OF d1 i1] show ?thesis
    by (simp add: sync_poll_def)
qed

text \<open>The poll after the answer takes it and completes.\<close>

lemma mock_second_poll:
  assumes "in_progress_queue s = [MockHeaders c]" and "local_head_block s = target_head s"
    and "queued_headers s = []" and "c < length (mw_channels w)"
    and "sent (mw_channels w ! c) = Some (HeadersReply (Inr hs))" and "hs \<noteq> []"
  shows "sync_poll checks (mock_provider pick random) s w = Ret (Ready (Inr hs),
    s\<lparr>in_progress_queue := [], queued_headers := hs\<rparr>, w)"
proof -
  let ?P = "mock_provider pick random" and ?s = "s\<lparr>in_progress_queue := [], queued_headers := hs\<rparr>"
  have "drain_responses ?P w s = drain_responses ?P w ?s"
    using assms by (subst drain_responses.simps) (simp add: mp_poll_headers_def pick_ready_def
        poll_receiver_def on_header_response_def remove_nth_def)
  also have "\<dots> = (Inr (), ?s, w)"
    by (subst drain_responses.simps) (simp add: mock_nothing_ready)
  finally have d: "drain_responses ?P w s = (Inr (), ?s, w)" .
  have i: "issue_requests checks ?P w ?s False = Ret (False, ?s, w)"
    by (rule issue_stop) (simp add: assms(2))
  from sync_loop_round [OF d i] show ?thesis by (simp add: sync_poll_def)
qed

section \<open>The manager during such a synchronisation\<close>

text \<open>The chain tells the test of every header of a synchronisation that extends it.\<close>

lemma mock_add_headers:
  "mock_inv c \<Longrightarrow> extends (tip_header (map_of (mc_headers c))) hs \<Longrightarrow>
    \<exists>b. add_headers (mock_tree X) c hs = Ret b \<and> mock_inv b \<and>
      map_of (mc_headers b) = store_all (map_of (mc_headers c)) hs \<and>
      mc_emitted b = mc_emitted c @ hs"
proof (induction hs arbitrary: c)
  case (Cons h hs)
  let ?m = "map_of (mc_headers c)"
  let ?c = "c\<lparr>mc_headers := btm_put (number h) h (mc_headers c), mc_emitted := mc_emitted c @ [h]\<rparr>"
  note wf = mock.inv_wf [OF Cons.prems(1)]
  have bwf: "btm_wf (mc_headers c)" using Cons.prems(1) by (simp add: mock_inv_def)
  have h: "tip_number ?m < number h" "number h = tip_number ?m + 1" "parent_hash h = hash (tip_header ?m)"
    using Cons.prems(2) unfolding extends.simps tip_header_number [OF wf] by blast+
  have "add_spec (overflow_checks X) mock_genesis ?m h = Ret (Inr ExtendTip, ?m(number h \<mapsto> h))"
    by (rule add_spec_child [OF wf _ h]) (simp add: mock_genesis_def)
  with mock_add_result [OF Cons.prems(1), of X h]
  have add: "bt_try_add_block_header (mock_tree X) c h = Ret (Inr ExtendTip, ?c)"
    by (simp add: mock_tree_def)
  have i: "mock_inv ?c" using mock.add_inv [OF Cons.prems(1) add] .
  have m: "map_of (mc_headers ?c) = ?m(number h \<mapsto> h)" using bwf by (simp add: btm_get_put)
  have t: "tip_header (map_of (mc_headers ?c)) = h"
    unfolding m by (rule tip_header_upd [OF wf h(1)])
  from Cons.prems(2) have "extends (tip_header (map_of (mc_headers ?c))) hs" unfolding t by simp
  from Cons.IH [OF i this] obtain b where "add_headers (mock_tree X) ?c hs = Ret b" "mock_inv b"
    "map_of (mc_headers b) = store_all (map_of (mc_headers ?c)) hs" "mc_emitted b = mc_emitted ?c @ hs"
    by blast
  then show ?case
    unfolding m by (intro exI [of _ b]) (simp add: add del: fun_upd_apply)
qed simp

definition waiting_sync :: "peer_id \<Rightarrow> handle \<Rightarrow> u64 \<Rightarrow> mock_fut sync_header" where
  "waiting_sync random c hi = \<lparr>in_progress_queue = [MockHeaders c], queued_headers = [],
     max_concurrent_limit = 10, local_head_block = hi, request_limit = 1000, target_head = hi,
     sync_peer_id = random\<rparr>"

lemma manager_requests:
  assumes ev: "poll_events (mock_deps X pick random) (event_recv st) st w = Ret (st1, w1)"
    and "closest_peers_request_for_sync st1 = Some \<lparr>pr_header = h, pr_fut = MockPeers random\<rparr>"
    and "sync_requests st1 = []" and inv: "mock_inv (cn_chain st1)"
    and tip: "tip_number (map_of (mc_headers (cn_chain st1))) = lo"
    and "lo < number h" and "number h - lo \<le> 1000"
  shows "chain_net_poll (mock_deps X pick random) st w = Ret (Pending,
    st1\<lparr>closest_peers_request_for_sync := None, broadcast_requests := [],
      sync_requests := [waiting_sync random (length (mw_channels w1)) (number h)]\<rparr>,
    requested_world random \<lparr>limit = number h - lo, start_block = lo + 1\<rparr> w1)"
proof -
  let ?D = "mock_deps X pick random" and ?c = "length (mw_channels w1)"
  let ?st = "st1\<lparr>closest_peers_request_for_sync := None\<rparr>"
  let ?s = "\<lparr>in_progress_queue = [], queued_headers = [], max_concurrent_limit = 10,
    local_head_block = lo, request_limit = 1000, target_head = number h, sync_peer_id = random\<rparr>"
  let ?w = "requested_world random \<lparr>limit = number h - lo, start_block = lo + 1\<rparr> w1"
  have t: "tip_or_panic (mock_tree X) (cn_chain st1) =
      Ret (tip_header (map_of (mc_headers (cn_chain st1))))"
    using mock.tip_eq [OF inv] by (simp add: tip_or_panic_def)
  have n: "number (tip_header (map_of (mc_headers (cn_chain st1)))) = lo"
    using tip_header_number [OF mock.inv_wf [OF inv]] tip by simp
  have peers: "poll_closest_peers ?D st1 w1 = Ret (?st\<lparr>sync_requests := [?s]\<rparr>, w1)"
    by (simp add: poll_closest_peers_def assms(2,3) peers_request_poll_def send_sync_requests_def t n
        sync_build_def with_provider_def with_peer_id_def with_target_head_def
        with_local_head_block_def builder_default_def)
  have "sync_poll (overflow_checks X) (mock_provider pick random) ?s w1 =
      Ret (Pending, waiting_sync random ?c (number h), ?w)"
    using mock_first_poll [of ?s "overflow_checks X" pick random w1] assms(6,7)
    by (simp add: waiting_sync_def)
  then have "poll_sync_requests ?D (?st\<lparr>sync_requests := [?s]\<rparr>) w1 =
      Ret (?st\<lparr>sync_requests := [waiting_sync random ?c (number h)]\<rparr>, ?w)"
    by (subst poll_sync_requests.simps) simp
  then show ?thesis
    by (simp add: chain_net_poll_def ev peers mock_broadcasts_done)
qed

lemma manager_syncs:
  assumes "event_recv st = []" and "closest_peers_request_for_sync st = None"
    and "sync_requests st = [waiting_sync random c hi]" and "c < length (mw_channels w)"
    and "sent (mw_channels w ! c) = Some (HeadersReply (Inr hs))" and "hs \<noteq> []"
    and inv: "mock_inv (cn_chain st)"
    and ext: "extends (tip_header (map_of (mc_headers (cn_chain st)))) hs"
  shows "\<exists>b. chain_net_poll (mock_deps X pick random) st w = Ret (Pending,
      st\<lparr>sync_requests := [], cn_chain := b, pending_sync_request := False,
        broadcast_requests := []\<rparr>, w) \<and>
    mock_inv b \<and> map_of (mc_headers b) = store_all (map_of (mc_headers (cn_chain st))) hs \<and>
    mc_emitted b = mc_emitted (cn_chain st) @ hs"
proof -
  let ?D = "mock_deps X pick random" and ?s = "waiting_sync random c hi"
  obtain b where b: "add_headers (mock_tree X) (cn_chain st) hs = Ret b" "mock_inv b"
    "map_of (mc_headers b) = store_all (map_of (mc_headers (cn_chain st))) hs"
    "mc_emitted b = mc_emitted (cn_chain st) @ hs"
    using mock_add_headers [OF inv ext, of X] by blast
  have out: "on_sync_output ?D (st\<lparr>sync_requests := []\<rparr>) (Inr hs) =
      Ret (st\<lparr>sync_requests := [], cn_chain := b, pending_sync_request := False\<rparr>)"
    using mock.tip_eq [OF b(2)] by (simp add: on_sync_output_def b(1) tip_or_panic_def)
  have "sync_poll (overflow_checks X) (mock_provider pick random) ?s w =
      Ret (Ready (Inr hs), ?s\<lparr>in_progress_queue := [], queued_headers := hs\<rparr>, w)"
    by (rule mock_second_poll) (use assms(4-6) in \<open>simp_all add: waiting_sync_def\<close>)
  then have "poll_sync_requests ?D st w =
      Ret (st\<lparr>sync_requests := [], cn_chain := b, pending_sync_request := False\<rparr>, w)"
    using out by (subst poll_sync_requests.simps) (simp add: assms(3) remove_nth_def
        poll_sync_requests.simps [of ?D "st\<lparr>sync_requests := [], cn_chain := b,
          pending_sync_request := False\<rparr>"])
  with b(2-4) show ?thesis
    using assms(1,2)
    by (intro exI [of _ b]) (simp add: chain_net_poll_def poll_closest_peers_def mock_broadcasts_done)
qed

end
