(* ===== verification/Manager_Tests.thy ===== *)
theory Manager_Tests
  imports Mock_Provider
begin

text \<open>
  The tests of the chain manager (\<^verbatim>\<open>src/src/net/chain.rs\<close>, module \<open>tests\<close>) as
  functions that return or panic: the events a test sends, the polls of the manager, the task
  that answers its requests for headers, and the assertions. They are shown to pass whatever
  the hash functions and the build profile are and whichever future is polled first. The
  manager is polled when events were sent and when its requests were answered, which is when
  it is woken up.
\<close>

section \<open>What the tests do\<close>

definition mock_world_new :: mock_world where
  "mock_world_new = \<lparr>mw_broadcasts = [], mw_listening = True, mw_requests = [], mw_channels = []\<rparr>"

text \<open>The task or loop that answers the requests for headers with generated ones.\<close>

fun serve_loop :: "ext \<Rightarrow> get_headers_request list \<Rightarrow> mock_world \<Rightarrow> mock_world outcome" where
  "serve_loop X [] w = Ret w"
| "serve_loop X (q # qs) w =
     (let r = ghr_request q in
      obind (u64_add (overflow_checks X) (start_block r) (limit r)) (\<lambda>stop.
      obind (u64_sub (overflow_checks X) stop 1) (\<lambda>to_block.
      obind (get_header_in_interval X (start_block r) to_block) (\<lambda>headers.
      obind (unwrap (oneshot_send (ghr_sender q) (HeadersReply (Inr headers)) (mw_channels w))) (\<lambda>cs.
      serve_loop X qs (w\<lparr>mw_channels := cs\<rparr>))))))"

definition serve_requests :: "ext \<Rightarrow> mock_world \<Rightarrow> mock_world outcome" where
  "serve_requests X w = serve_loop X (mw_requests w) (w\<lparr>mw_requests := []\<rparr>)"

text \<open>Receiving a broadcast, which waits for ever when there is none.\<close>

definition recv_header :: "header \<Rightarrow> mock_world \<Rightarrow> mock_world outcome" where
  "recv_header h w =
     (case mw_broadcasts w of
        [] \<Rightarrow> Diverge
      | m # ms \<Rightarrow> (case m of
          BroadcastBlockHeader h' _ \<Rightarrow>
            obind (assert_that (h' = h)) (\<lambda>_. Ret (w\<lparr>mw_broadcasts := ms\<rparr>))
        | _ \<Rightarrow> Panic ''no broadcast event found.''))"

definition recv_transactions :: "transaction list \<Rightarrow> mock_world \<Rightarrow> mock_world outcome" where
  "recv_transactions txs w =
     (case mw_broadcasts w of
        [] \<Rightarrow> Diverge
      | m # ms \<Rightarrow> (case m of
          BroadcastTransactions _ txs' \<Rightarrow>
            obind (assert_that (txs' = txs)) (\<lambda>_. Ret (w\<lparr>mw_broadcasts := ms\<rparr>))
        | _ \<Rightarrow> Panic ''broadcast should be ignored''))"

text \<open>Waiting until a block was added, and reading the events of the blocks that were.\<close>

definition recv_added :: "mock_chain \<Rightarrow> mock_chain outcome" where
  "recv_added c = (if mc_emitted c = [] then Diverge else Ret (c\<lparr>mc_emitted := []\<rparr>))"

definition poll_with ::
  "(mock_chain, mock_world, mock_fut) net_deps \<Rightarrow> chain_network_event list \<Rightarrow>
     (mock_chain, mock_fut) chain_net \<times> mock_world \<Rightarrow>
     ((mock_chain, mock_fut) chain_net \<times> mock_world) outcome" where
  "poll_with D es sw =
     obind (chain_net_poll D ((fst sw)\<lparr>event_recv := event_recv (fst sw) @ es\<rparr>) (snd sw)) (\<lambda>(_, st, w).
     Ret (st, w))"

section \<open>The tests\<close>

definition test_handle_incoming_header ::
  "ext \<Rightarrow> (mock_world \<Rightarrow> nat list \<Rightarrow> nat) \<Rightarrow> peer_id \<Rightarrow> unit outcome" where
  "test_handle_incoming_header X pick random =
     (let D = mock_deps X pick random in
      obind (generate_headers_from_genesis X 10) (\<lambda>external.
      obind (mock_new X 0 True) (\<lambda>chain.
      obind (expect_some ''called `Option::unwrap()` on a `None` value'' (btm_last external)) (\<lambda>(_, h).
      obind (poll_with D [IncomingNewBlockHeader h] (chain_net_new chain pool_new, mock_world_new))
        (\<lambda>(st, w).
      obind (recv_header h w) (\<lambda>w.
      obind (serve_requests X w) (\<lambda>w.
      obind (poll_with D [] (st, w)) (\<lambda>(st, w).
      obind (recv_added (cn_chain st)) (\<lambda>chain.
      assert_that (mc_headers chain = external))))))))))"

definition test_handle_multiple_incoming_headers ::
  "ext \<Rightarrow> (mock_world \<Rightarrow> nat list \<Rightarrow> nat) \<Rightarrow> peer_id \<Rightarrow> unit outcome" where
  "test_handle_multiple_incoming_headers X pick random =
     (let D = mock_deps X pick random;
          get = (\<lambda>m n. expect_some ''called `Option::unwrap()` on a `None` value'' (map_of m n)) in
      obind (generate_headers_from_genesis X 100) (\<lambda>external.
      obind (mock_new X 0 True) (\<lambda>chain.
      obind (get external 50) (\<lambda>h50.
      obind (get external 52) (\<lambda>h52.
      obind (poll_with D [IncomingNewBlockHeader h50, IncomingNewBlockHeader h50,
        IncomingNewBlockHeader h52] (chain_net_new chain pool_new, mock_world_new)) (\<lambda>(st, w).
      obind (serve_requests X w) (\<lambda>w.
      obind (poll_with D [] (st, w)) (\<lambda>(st, w).
      obind (recv_added (cn_chain st)) (\<lambda>chain.
      obind (generate_headers_from_genesis X 50) (\<lambda>first.
      obind (assert_that (mc_headers chain = first)) (\<lambda>_.
      obind (recv_header h50 w) (\<lambda>w.
      obind (recv_header h52 w) (\<lambda>w.
      obind (assert_that (mw_broadcasts w = [])) (\<lambda>_.
      obind (expect_some ''called `Option::unwrap()` on a `None` value'' (btm_last external)) (\<lambda>(_, h).
      obind (poll_with D [IncomingNewBlockHeader h50, IncomingNewBlockHeader h]
        (st\<lparr>cn_chain := chain\<rparr>, w)) (\<lambda>(st, w).
      obind (serve_requests X w) (\<lambda>w.
      obind (poll_with D [] (st, w)) (\<lambda>(st, w).
      obind (recv_added (cn_chain st)) (\<lambda>chain.
      obind (assert_that (mc_headers chain = external)) (\<lambda>_.
      obind (recv_header h w) (\<lambda>w.
      assert_that (mw_broadcasts w = []))))))))))))))))))))))"

definition test_handle_get_headers_request :: "ext \<Rightarrow> unit outcome" where
  "test_handle_get_headers_request X =
     (let ask = (\<lambda>c lim start. handle_get_block_headers_request (overflow_checks X) (mock_tree X) c
        \<lparr>limit = lim, start_block = start\<rparr>) in
      obind (mock_new X 100 False) (\<lambda>chain.
      obind (ask chain 50 3) (\<lambda>headers.
      obind (get_header_in_interval X 3 52) (\<lambda>target.
      obind (assert_that (length headers = 50)) (\<lambda>_.
      obind (assert_that (headers = target)) (\<lambda>_.
      obind (ask chain 1000 1) (\<lambda>headers.
      obind (assert_that (length headers = 100)) (\<lambda>_.
      obind (get_header_in_interval X 1 100) (\<lambda>target.
      obind (assert_that (headers = target)) (\<lambda>_.
      obind (ask chain 100 101) (\<lambda>headers.
      assert_that (length headers = 0))))))))))))"

text \<open>The arguments are the random transactions.\<close>

definition test_incoming_transactions ::
  "ext \<Rightarrow> (mock_world \<Rightarrow> nat list \<Rightarrow> nat) \<Rightarrow> peer_id \<Rightarrow> transaction \<Rightarrow> transaction list \<Rightarrow> unit outcome" where
  "test_incoming_transactions X pick random tx txs =
     (let D = mock_deps X pick random; expected = replicate 10 tx in
      obind (mock_new X 0 True) (\<lambda>chain.
      obind (poll_with D [IncomingTransactions expected] (chain_net_new chain pool_new, mock_world_new))
        (\<lambda>(st, w).
      obind (recv_transactions expected w) (\<lambda>w.
      obind (assert_that (length (cn_pool st) = 1)) (\<lambda>_.
      obind (poll_with D [IncomingTransactions txs] (st, w)) (\<lambda>(st, w).
      obind (recv_transactions txs w) (\<lambda>w.
      assert_that (length (cn_pool st) = 11))))))))"

section \<open>Events on the generated chain\<close>

definition on_chain :: "ext \<Rightarrow> nat \<Rightarrow> (mock_chain, mock_fut) chain_net \<Rightarrow> bool" where
  "on_chain X k st \<longleftrightarrow> mc_headers (cn_chain st) = gen_map X k \<and> mc_listening (cn_chain st)"

lemma on_chain_inv: "on_chain X k st \<Longrightarrow> k < 2 ^ 64 \<Longrightarrow> mock_inv (cn_chain st)"
  using gen_map_wf [of k X] by (simp add: on_chain_def mock_inv_def)

definition sent_world :: "(handle \<Rightarrow> network_provider_message) \<Rightarrow> mock_world \<Rightarrow> mock_world" where
  "sent_world message w = w\<lparr>mw_channels := drop_receiver (length (mw_channels w)) (mw_channels w @
      [\<lparr>sent = None, tx_alive = True, rx_alive = True, asked = None\<rparr>]),
    mw_broadcasts := mw_broadcasts w @ [message (length (mw_channels w))]\<rparr>"

lemma sent_world_simps [simp]:
  "mw_broadcasts (sent_world message w) = mw_broadcasts w @ [message (length (mw_channels w))]"
  "mw_requests (sent_world message w) = mw_requests w"
  "mw_listening (sent_world message w) = mw_listening w"
  by (simp_all add: sent_world_def)

lemma mp_broadcast_result:
  "mw_listening w \<Longrightarrow> mp_broadcast w message = Ret (MockDone, sent_world message w)"
  by (simp add: mp_broadcast_def oneshot_channel_def sent_world_def)

text \<open>A header whose parent is missing: it is passed on once, and a synchronisation starts.\<close>

definition seen_missing ::
  "header \<Rightarrow> (mock_chain, mock_fut) chain_net \<Rightarrow> mock_world \<Rightarrow> (mock_chain, mock_fut) chain_net \<times> mock_world" where
  "seen_missing h st w =
     (if hash h \<in> broadcasted_headers st then (st, w)
      else (st\<lparr>broadcast_requests := broadcast_requests st @ [MockDone],
        broadcasted_headers := insert (hash h) (broadcasted_headers st)\<rparr>,
        sent_world (BroadcastBlockHeader h) w))"

lemma missing_event:
  assumes c: "on_chain X k st" and n: "Suc k < n" "n < 2 ^ 64" and w: "mw_listening w"
  defines "h \<equiv> gen_header X n"
  shows "on_event (mock_deps X pick random) st w (IncomingNewBlockHeader h) =
    Ret (let (st', w') = seen_missing h st w in start_sync (mock_deps X pick random) st' w' h)"
proof -
  let ?m = "map_of (gen_map X k)"
  have k: "k < 2 ^ 64" using n by simp
  have u: "unat (number h) = n" using n by (simp add: h_def gen_header_number unat_of_nat)
  then have nz: "number h \<noteq> 0" using n by auto
  have "unat (number h - 1) = n - 1" using nz u by (simp add: unat_minus_one)
  then have "?m (number h - 1) = None" using n by (simp add: gen_map_lookup [OF k])
  moreover have "h \<noteq> mock_genesis" using nz by (auto simp: mock_genesis_def)
  ultimately have "add_spec (overflow_checks X) mock_genesis ?m h = Ret (Inl BlockHeaderNotFound, ?m)"
    using nz by (simp add: add_spec_def parent_spec_def)
  with mock_add_result [OF on_chain_inv [OF c k], of X h] c
  have add: "mock_try_add_block_header X (cn_chain st) h = Ret (Inl BlockHeaderNotFound, cn_chain st)"
    by (simp add: on_chain_def)
  have t: "tip_or_panic (mock_tree X) (cn_chain st) = Ret (tip_header ?m)"
    using mock.tip_eq [OF on_chain_inv [OF c k], of X] c by (simp add: tip_or_panic_def on_chain_def)
  have "st\<lparr>cn_chain := cn_chain st\<rparr> = st" by simp
  with add t w show ?thesis
    by (simp add: on_new_header_def mock_tree_def push_broadcast_def seen_missing_def
        mp_broadcast_result Let_def)
qed

text \<open>A header that is in the chain changes nothing.\<close>

lemma known_event:
  assumes c: "on_chain X k st" and n: "0 < n" "n \<le> k" "k < 2 ^ 64"
  shows "on_event (mock_deps X pick random) st w (IncomingNewBlockHeader (gen_header X n)) = Ret (st, w)"
proof -
  let ?m = "map_of (gen_map X k)" and ?h = "gen_header X n" and ?c = "cn_chain st"
  have u: "unat (number ?h) = n" using n by (simp add: gen_header_number unat_of_nat)
  then have nz: "number ?h \<noteq> 0" using n by auto
  have "unat (number ?h - 1) = n - 1" using nz u by (simp add: unat_minus_one)
  then have p: "?m (number ?h - 1) = Some (gen_header X (n - 1))"
    using n by (simp add: gen_map_lookup)
  have ph: "parent_hash ?h = hash (gen_header X (n - 1))"
    using gen_header_parent [of X "n - 1"] n by simp
  have tip: "\<not> tip_number ?m < number ?h"
    using n u gen_map_wf(3) [OF n(3), of X] by (simp add: word_less_nat_alt unat_of_nat)
  have same: "?m(number ?h \<mapsto> ?h) = ?m"
    using n u by (auto simp: fun_eq_iff gen_map_lookup)
  have bwf: "btm_wf (gen_map X k)" by (rule gen_map_wf(1) [OF n(3)])
  then have put: "btm_put (number ?h) ?h (gen_map X k) = gen_map X k"
    using same by (intro btm_eqI) (simp_all add: btm_wf_put btm_get_put)
  have "?h \<noteq> mock_genesis" using nz by (auto simp: mock_genesis_def)
  then have "add_spec (overflow_checks X) mock_genesis ?m ?h = Ret (Inr AlreadyInChain, ?m)"
    using nz p ph tip same by (simp add: add_spec_def parent_spec_def)
  with mock_add_result [OF on_chain_inv [OF c n(3)], of X ?h] c put
  have "mock_try_add_block_header X ?c ?h = Ret (Inr AlreadyInChain, ?c)"
    by (simp add: on_chain_def)
  then show ?thesis by (simp add: on_new_header_def mock_tree_def)
qed

section \<open>A round of a test\<close>

lemma serve_one:
  assumes "mw_requests w = []" and "k < n" and "n < 10 ^ 17"
  defines "r \<equiv> \<lparr>limit = of_nat n - of_nat k, start_block = of_nat k + 1\<rparr>"
  shows "serve_requests X (requested_world random r w) = Ret (w\<lparr>mw_channels := mw_channels w @
    [\<lparr>sent = Some (HeadersReply (Inr (map (gen_header X) [Suc k..<Suc n]))), tx_alive = False,
      rx_alive = True, asked = Some r\<rparr>]\<rparr>)"
proof -
  have u: "unat (of_nat n :: u64) = n" "unat (of_nat k :: u64) = k"
    using assms(2,3) by (simp_all add: unat_of_nat)
  then have lt: "(of_nat k :: u64) < of_nat n" using assms(2) by (simp add: word_less_nat_alt)
  have s: "unat (of_nat k + 1 :: u64) = Suc k" using u64_succ_unat [OF lt] u by simp
  have n1: "unat (of_nat n + 1 :: u64) = Suc n"
    using u64_succ_unat [of "of_nat n" "of_nat (10 ^ 17)"] assms(3) u by (simp add: word_less_nat_alt)
  have "(of_nat k + 1 :: u64) + (of_nat n - of_nat k) = of_nat n + 1" by simp
  moreover have "\<not> (of_nat n + 1 :: u64) < of_nat k + 1" using n1 s assms(2) by (simp add: word_less_nat_alt)
  ultimately have add: "u64_add (overflow_checks X) (start_block r) (limit r) = Ret (of_nat n + 1)"
    by (simp add: u64_add_def r_def add.commute)
  have sub: "u64_sub (overflow_checks X) (of_nat n + 1) 1 = Ret (of_nat n)"
    using n1 by (simp add: u64_sub_def word_less_nat_alt)
  have get: "get_header_in_interval X (start_block r) (of_nat n) = Ret (map (gen_header X) [Suc k..<Suc n])"
    using interval_closed [of "of_nat n" "start_block r" X] assms(2,3) u s by (simp add: r_def)
  show ?thesis
    using assms(1) by (simp add: serve_requests_def requested_world_def Let_def add sub get oneshot_send_def)
qed

lemma poll_with_Nil:
  "poll_with D [] (st, w) = obind (chain_net_poll D st w) (\<lambda>(_, st, w). Ret (st, w))"
  by (simp add: poll_with_def)

lemma sync_round:
  assumes ev: "poll_events (mock_deps X pick random) es (st\<lparr>event_recv := es\<rparr>) w = Ret (st1, w1)"
    and "event_recv st = []" and "event_recv st1 = []" and "mw_requests w1 = []"
    and closest: "closest_peers_request_for_sync st1 =
      Some \<lparr>pr_header = gen_header X n, pr_fut = MockPeers random\<rparr>"
    and none: "sync_requests st1 = []" and c: "on_chain X k st1"
    and n: "k < n" "n \<le> k + 1000" "n < 10 ^ 17"
  shows "\<exists>st2 w2. poll_with (mock_deps X pick random) es (st, w) = Ret (st2, w2) \<and>
    mw_broadcasts w2 = mw_broadcasts w1 \<and>
    (\<forall>bs. \<exists>w3 b. serve_requests X (w2\<lparr>mw_broadcasts := bs\<rparr>) = Ret w3 \<and>
      mw_broadcasts w3 = bs \<and> mw_requests w3 = [] \<and> mw_listening w3 = mw_listening w1 \<and>
      poll_with (mock_deps X pick random) [] (st2, w3) = Ret (st1\<lparr>closest_peers_request_for_sync := None,
        sync_requests := [], cn_chain := b, pending_sync_request := False, broadcast_requests := []\<rparr>, w3) \<and>
      mc_headers b = gen_map X n \<and> mc_listening b \<and> mc_emitted b \<noteq> [])"
proof -
  let ?D = "mock_deps X pick random" and ?h = "gen_header X n" and ?c = "length (mw_channels w1)"
  let ?r = "\<lparr>limit = of_nat n - of_nat k :: u64, start_block = of_nat k + 1\<rparr>"
  define hs where "hs = map (gen_header X) [Suc k..<Suc n]"
  let ?st2 = "st1\<lparr>closest_peers_request_for_sync := None, broadcast_requests := [],
    sync_requests := [waiting_sync random ?c (number ?h)]\<rparr>"
  have k: "k < 2 ^ 64" "n < 2 ^ 64" using n by simp_all
  note gen = gen_map_wf [OF k(1), of X]
  have inv: "mock_inv (cn_chain st1)" by (rule on_chain_inv [OF c k(1)])
  have m: "mc_headers (cn_chain st1) = gen_map X k" using c by (simp add: on_chain_def)
  have nh: "number ?h = of_nat n" by (rule gen_header_number)
  have u: "unat (of_nat n :: u64) = n" "unat (of_nat k :: u64) = k" using k by (simp_all add: unat_of_nat)
  have lt: "(of_nat k :: u64) < number ?h" using n u by (simp add: nh word_less_nat_alt)
  have le: "number ?h - of_nat k \<le> 1000"
    using n u lt by (simp add: nh word_le_nat_alt unat_sub word_less_nat_alt)
  have p1: "poll_with ?D es (st, w) = Ret (?st2, requested_world random ?r w1)"
    using manager_requests [of X pick random "st\<lparr>event_recv := es\<rparr>" w st1 w1 ?h "of_nat k"]
      ev closest none inv gen(3) m lt le assms(2) by (simp add: poll_with_def nh)
  have "\<exists>w3 b. serve_requests X ((requested_world random ?r w1)\<lparr>mw_broadcasts := bs\<rparr>) = Ret w3 \<and>
      mw_broadcasts w3 = bs \<and> mw_requests w3 = [] \<and> mw_listening w3 = mw_listening w1 \<and>
      poll_with ?D [] (?st2, w3) = Ret (st1\<lparr>closest_peers_request_for_sync := None,
        sync_requests := [], cn_chain := b, pending_sync_request := False, broadcast_requests := []\<rparr>, w3) \<and>
      mc_headers b = gen_map X n \<and> mc_listening b \<and> mc_emitted b \<noteq> []" for bs
  proof -
    let ?w = "w1\<lparr>mw_broadcasts := bs\<rparr>"
    let ?w3 = "?w\<lparr>mw_channels := mw_channels ?w @ [\<lparr>sent = Some (HeadersReply (Inr hs)),
      tx_alive = False, rx_alive = True, asked = Some ?r\<rparr>]\<rparr>"
    have "requested_world random ?r ?w = (requested_world random ?r w1)\<lparr>mw_broadcasts := bs\<rparr>"
      by (simp add: requested_world_def)
    with serve_one [of ?w k n X random, folded hs_def] n assms(4)
    have serve: "serve_requests X ((requested_world random ?r w1)\<lparr>mw_broadcasts := bs\<rparr>) = Ret ?w3"
      by simp
    have hs: "hs \<noteq> []" using n by (simp add: hs_def)
    have ext: "extends (tip_header (map_of (mc_headers (cn_chain ?st2)))) hs"
      using gen_extends [of k n X, folded hs_def] n k gen(4) m by simp
    obtain b where poll: "chain_net_poll ?D ?st2 ?w3 = Ret (Pending, ?st2\<lparr>sync_requests := [],
        cn_chain := b, pending_sync_request := False, broadcast_requests := []\<rparr>, ?w3)"
      and b: "mock_inv b" "map_of (mc_headers b) = store_all (map_of (mc_headers (cn_chain ?st2))) hs"
        "mc_emitted b = mc_emitted (cn_chain ?st2) @ hs"
      using manager_syncs [of ?st2 random ?c "number ?h" ?w3 hs X pick] assms(3) inv hs ext by auto
    have "map_of (mc_headers b) = map_of (gen_map X n)"
      using b(2) gen_store_all [of k n X, folded hs_def] n k m by simp
    then have "mc_headers b = gen_map X n"
      using b(1) gen_map_wf(1) [OF k(2)] by (intro btm_eqI) (simp_all add: mock_inv_def)
    with b(1,3) poll serve hs assms(3,4) show ?thesis
      by (intro exI [of _ ?w3] exI [of _ b]) (simp add: poll_with_Nil mock_inv_def)
  qed
  with p1 show ?thesis
    by (intro exI [of _ ?st2] exI [of _ "requested_world random ?r w1"])
      (simp add: requested_world_def)
qed

section \<open>The tests pass\<close>

lemma recv_header_hd:
  "mw_broadcasts w = BroadcastBlockHeader h c # ms \<Longrightarrow> recv_header h w = Ret (w\<lparr>mw_broadcasts := ms\<rparr>)"
  by (simp add: recv_header_def)

lemma recv_added_some: "mc_emitted c \<noteq> [] \<Longrightarrow> recv_added c = Ret (c\<lparr>mc_emitted := []\<rparr>)"
  by (simp add: recv_added_def)

text \<open>The state of a manager on the generated chain before a round.\<close>

definition idle :: "ext \<Rightarrow> nat \<Rightarrow> string set \<Rightarrow> (mock_chain, mock_fut) chain_net \<Rightarrow> bool" where
  "idle X k seen st \<longleftrightarrow> on_chain X k st \<and> sync_requests st = [] \<and>
     closest_peers_request_for_sync st = None \<and> \<not> pending_sync_request st \<and>
     broadcasted_headers st = seen"

text \<open>After a header far ahead of the tip, the manager has asked for peers.\<close>

definition asking :: "ext \<Rightarrow> nat \<Rightarrow> nat \<Rightarrow> peer_id \<Rightarrow> string set \<Rightarrow> (mock_chain, mock_fut) chain_net \<Rightarrow> bool" where
  "asking X k n random seen st \<longleftrightarrow> on_chain X k st \<and> sync_requests st = [] \<and> pending_sync_request st \<and>
     closest_peers_request_for_sync st = Some \<lparr>pr_header = gen_header X n, pr_fut = MockPeers random\<rparr> \<and>
     broadcasted_headers st = seen"

lemma idle_missing:
  assumes "idle X k seen st" and "Suc k < n" and "n < 2 ^ 64" and "mw_listening w"
    and "hash (gen_header X n) \<notin> seen"
  shows "\<exists>st' w'. on_event (mock_deps X pick random) st w (IncomingNewBlockHeader (gen_header X n)) =
      Ret (st', w') \<and> asking X k n random (insert (hash (gen_header X n)) seen) st' \<and>
    event_recv st' = event_recv st \<and> mw_listening w' \<and> mw_requests w' = mw_requests w \<and>
    (\<exists>c. mw_broadcasts w' = mw_broadcasts w @ [BroadcastBlockHeader (gen_header X n) c])"
  using assms missing_event [of X k st n w pick random]
  by (simp add: idle_def asking_def seen_missing_def start_sync_def on_chain_def)

lemma asking_missing:
  assumes "asking X k n random seen st" and "Suc k < n'" and "n' < 2 ^ 64" and "mw_listening w"
  shows "\<exists>st' w'. on_event (mock_deps X pick random) st w (IncomingNewBlockHeader (gen_header X n')) =
      Ret (st', w') \<and> asking X k n random (insert (hash (gen_header X n')) seen) st' \<and>
    event_recv st' = event_recv st \<and> mw_listening w' \<and> mw_requests w' = mw_requests w \<and>
    (if hash (gen_header X n') \<in> seen then mw_broadcasts w' = mw_broadcasts w
     else \<exists>c. mw_broadcasts w' = mw_broadcasts w @ [BroadcastBlockHeader (gen_header X n') c])"
  using assms missing_event [of X k st n' w pick random]
  by (simp add: asking_def seen_missing_def start_sync_def on_chain_def insert_absorb)

lemma between_events [simp]:
  "idle X k seen (st\<lparr>event_recv := es\<rparr>) = idle X k seen st"
  "asking X k n random seen (st\<lparr>event_recv := es\<rparr>) = asking X k n random seen st"
  by (simp_all add: idle_def asking_def on_chain_def)

lemma idle_after:
  assumes "asking X k n random seen st" and "mc_headers b = gen_map X n'" and "mc_listening b"
  shows "idle X n' seen (st\<lparr>closest_peers_request_for_sync := None, sync_requests := [],
    cn_chain := b, pending_sync_request := False, broadcast_requests := []\<rparr>)"
  using assms by (simp add: idle_def asking_def on_chain_def)

lemma idle_new: "idle X 0 {} (chain_net_new \<lparr>mc_headers = gen_map X 0, mc_emitted = es, mc_listening = True\<rparr> pool)"
  by (simp add: idle_def on_chain_def chain_net_new_def)

lemma incoming_header_passes: "test_handle_incoming_header X pick random = Ret ()"
proof -
  let ?D = "mock_deps X pick random" and ?h = "gen_header X 10" and ?w = mock_world_new
  let ?st = "chain_net_new \<lparr>mc_headers = gen_map X 0, mc_emitted = [], mc_listening = True\<rparr> pool_new"
  have w: "mw_listening ?w" "mw_requests ?w = []" "mw_broadcasts ?w = []"
    by (simp_all add: mock_world_new_def)
  have st: "event_recv ?st = []" by (simp add: chain_net_new_def)
  obtain st1 w1 c where e: "on_event ?D (?st\<lparr>event_recv := []\<rparr>) ?w (IncomingNewBlockHeader ?h) = Ret (st1, w1)"
    and a: "asking X 0 10 random {hash ?h} st1" "event_recv st1 = []" "mw_requests w1 = []"
      "mw_broadcasts w1 = [BroadcastBlockHeader ?h c]"
    using idle_missing [of X 0 "{}" "?st\<lparr>event_recv := []\<rparr>" 10 ?w pick random] idle_new w by auto
  have ev: "poll_events ?D [IncomingNewBlockHeader ?h] (?st\<lparr>event_recv := [IncomingNewBlockHeader ?h]\<rparr>) ?w =
      Ret (st1, w1)" using e by simp
  obtain st2 w2 where p1: "poll_with ?D [IncomingNewBlockHeader ?h] (?st, ?w) = Ret (st2, w2)"
    and b2: "mw_broadcasts w2 = [BroadcastBlockHeader ?h c]"
    and rest: "\<forall>bs. \<exists>w3 b. serve_requests X (w2\<lparr>mw_broadcasts := bs\<rparr>) = Ret w3 \<and>
      mw_broadcasts w3 = bs \<and> mw_requests w3 = [] \<and> mw_listening w3 = mw_listening w1 \<and>
      poll_with ?D [] (st2, w3) = Ret (st1\<lparr>closest_peers_request_for_sync := None,
        sync_requests := [], cn_chain := b, pending_sync_request := False, broadcast_requests := []\<rparr>, w3) \<and>
      mc_headers b = gen_map X 10 \<and> mc_listening b \<and> mc_emitted b \<noteq> []"
    using sync_round [OF ev st a(2,3), of 10 0] a(1,4) by (auto simp: asking_def)
  obtain w3 b where s: "serve_requests X (w2\<lparr>mw_broadcasts := []\<rparr>) = Ret w3"
    and p2: "poll_with ?D [] (st2, w3) = Ret (st1\<lparr>closest_peers_request_for_sync := None,
        sync_requests := [], cn_chain := b, pending_sync_request := False, broadcast_requests := []\<rparr>, w3)"
    and b: "mc_headers b = gen_map X 10" "mc_emitted b \<noteq> []"
    using spec [OF rest, of "[]"] by blast
  show ?thesis
    unfolding test_handle_incoming_header_def Let_def
    by (simp add: generate_closed mock_new_closed gen_map_last p1 recv_header_hd [OF b2] s p2
        recv_added_some [OF b(2)] b(1) del: gen_header.simps)
qed

lemma idle_known:
  assumes "idle X k seen st" and "0 < n" and "n \<le> k" and "k < 2 ^ 64"
  shows "on_event (mock_deps X pick random) st w (IncomingNewBlockHeader (gen_header X n)) = Ret (st, w)"
  using assms known_event [of X k st n pick random w] by (simp add: idle_def)

text \<open>The two halves of the second test.\<close>

lemma first_three_headers:
  assumes "idle X 0 {} st" and "event_recv st = []" and "mw_listening w" and "mw_requests w = []"
    and "mw_broadcasts w = []" and ne: "hash (gen_header X 52) \<noteq> hash (gen_header X 50)"
  defines "e \<equiv> \<lambda>n. IncomingNewBlockHeader (gen_header X n)"
  shows "\<exists>st1 w1 c1 c2. poll_events (mock_deps X pick random) [e 50, e 50, e 52]
      (st\<lparr>event_recv := [e 50, e 50, e 52]\<rparr>) w = Ret (st1, w1) \<and>
    asking X 0 50 random {hash (gen_header X 52), hash (gen_header X 50)} st1 \<and> event_recv st1 = [] \<and>
    mw_listening w1 \<and> mw_requests w1 = [] \<and> mw_broadcasts w1 =
      [BroadcastBlockHeader (gen_header X 50) c1, BroadcastBlockHeader (gen_header X 52) c2]"
proof -
  let ?D = "mock_deps X pick random" and ?g = "gen_header X"
  let ?b = "\<lambda>n. BroadcastBlockHeader (?g n)"
  obtain st1 w1 c1 where e1: "on_event ?D (st\<lparr>event_recv := [e 50, e 52]\<rparr>) w (e 50) = Ret (st1, w1)"
    and a1: "asking X 0 50 random {hash (?g 50)} st1" "mw_listening w1" "mw_requests w1 = []"
      "mw_broadcasts w1 = [?b 50 c1]"
    using idle_missing [of X 0 "{}" "st\<lparr>event_recv := [e 50, e 52]\<rparr>" 50 w pick random] assms(1-5)
    by (auto simp: e_def)
  obtain st2 w2 where e2: "on_event ?D (st1\<lparr>event_recv := [e 52]\<rparr>) w1 (e 50) = Ret (st2, w2)"
    and a2: "asking X 0 50 random {hash (?g 50)} st2" "mw_listening w2" "mw_requests w2 = []"
      "mw_broadcasts w2 = [?b 50 c1]"
    using asking_missing [of X 0 50 random "{hash (?g 50)}" "st1\<lparr>event_recv := [e 52]\<rparr>" 50 w1 pick] a1
    by (auto simp: e_def)
  obtain st3 w3 c2 where e3: "on_event ?D (st2\<lparr>event_recv := []\<rparr>) w2 (e 52) = Ret (st3, w3)"
    and a3: "asking X 0 50 random {hash (?g 52), hash (?g 50)} st3" "event_recv st3 = []"
      "mw_listening w3" "mw_requests w3 = []" "mw_broadcasts w3 = [?b 50 c1, ?b 52 c2]"
    using asking_missing [of X 0 50 random "{hash (?g 50)}" "st2\<lparr>event_recv := []\<rparr>" 52 w2 pick] a2 ne
    by (auto simp: e_def)
  show ?thesis using a3 by (simp add: e1 e2 e3)
qed

lemma last_two_headers:
  assumes "idle X 50 seen st" and "event_recv st = []" and "mw_listening w" and "mw_requests w = []"
    and "mw_broadcasts w = []" and ne: "hash (gen_header X 100) \<notin> seen"
  defines "e \<equiv> \<lambda>n. IncomingNewBlockHeader (gen_header X n)"
  shows "\<exists>st1 w1 c. poll_events (mock_deps X pick random) [e 50, e 100]
      (st\<lparr>event_recv := [e 50, e 100]\<rparr>) w = Ret (st1, w1) \<and>
    asking X 50 100 random (insert (hash (gen_header X 100)) seen) st1 \<and> event_recv st1 = [] \<and>
    mw_listening w1 \<and> mw_requests w1 = [] \<and> mw_broadcasts w1 = [BroadcastBlockHeader (gen_header X 100) c]"
proof -
  let ?D = "mock_deps X pick random" and ?st = "st\<lparr>event_recv := [e 100]\<rparr>"
  have e1: "on_event ?D ?st w (e 50) = Ret (?st, w)"
    using idle_known [of X 50 seen ?st 50 pick random w] assms(1) by (simp add: e_def)
  obtain st1 w1 c where "on_event ?D (?st\<lparr>event_recv := []\<rparr>) w (e 100) = Ret (st1, w1)"
    and "asking X 50 100 random (insert (hash (gen_header X 100)) seen) st1" "event_recv st1 = []"
      "mw_listening w1" "mw_requests w1 = []" "mw_broadcasts w1 = [BroadcastBlockHeader (gen_header X 100) c]"
    using idle_missing [of X 50 seen "?st\<lparr>event_recv := []\<rparr>" 100 w pick random] assms(1-6)
    by (auto simp: e_def)
  then show ?thesis by (simp add: e1)
qed

text \<open>A round without what the test does to the broadcasts in between.\<close>

lemma asking_round:
  assumes "poll_events (mock_deps X pick random) es (st\<lparr>event_recv := es\<rparr>) w = Ret (st1, w1)"
    and "event_recv st = []" and "event_recv st1 = []" and "mw_requests w1 = []" and "mw_listening w1"
    and "asking X k n random seen st1" and "k < n" "n \<le> k + 1000" "n < 10 ^ 17"
  shows "\<exists>st2 w2 st3 w3. poll_with (mock_deps X pick random) es (st, w) = Ret (st2, w2) \<and>
    serve_requests X w2 = Ret w3 \<and> poll_with (mock_deps X pick random) [] (st2, w3) = Ret (st3, w3) \<and>
    mw_broadcasts w3 = mw_broadcasts w1 \<and> mw_requests w3 = [] \<and> mw_listening w3 \<and>
    idle X n seen st3 \<and> event_recv st3 = [] \<and> mc_emitted (cn_chain st3) \<noteq> []"
proof -
  let ?D = "mock_deps X pick random"
  have c: "on_chain X k st1" "sync_requests st1 = []" "closest_peers_request_for_sync st1 =
      Some \<lparr>pr_header = gen_header X n, pr_fut = MockPeers random\<rparr>"
    using assms(6) by (simp_all add: asking_def)
  obtain st2 w2 where p1: "poll_with ?D es (st, w) = Ret (st2, w2)" "mw_broadcasts w2 = mw_broadcasts w1"
    and rest: "\<forall>bs. \<exists>w3 b. serve_requests X (w2\<lparr>mw_broadcasts := bs\<rparr>) = Ret w3 \<and>
      mw_broadcasts w3 = bs \<and> mw_requests w3 = [] \<and> mw_listening w3 = mw_listening w1 \<and>
      poll_with ?D [] (st2, w3) = Ret (st1\<lparr>closest_peers_request_for_sync := None,
        sync_requests := [], cn_chain := b, pending_sync_request := False, broadcast_requests := []\<rparr>, w3) \<and>
      mc_headers b = gen_map X n \<and> mc_listening b \<and> mc_emitted b \<noteq> []"
    using sync_round [OF assms(1-4) c(3,2,1) assms(7-9)] by blast
  have same: "w2\<lparr>mw_broadcasts := mw_broadcasts w1\<rparr> = w2" by (simp flip: p1(2))
  from spec [OF rest, of "mw_broadcasts w1", unfolded same] obtain w3 b where
    "serve_requests X w2 = Ret w3" "mw_broadcasts w3 = mw_broadcasts w1" "mw_requests w3 = []" "mw_listening w3"
    "poll_with ?D [] (st2, w3) = Ret (st1\<lparr>closest_peers_request_for_sync := None,
        sync_requests := [], cn_chain := b, pending_sync_request := False, broadcast_requests := []\<rparr>, w3)"
    and b: "mc_headers b = gen_map X n" "mc_listening b" "mc_emitted b \<noteq> []"
    using assms(5) by auto
  with p1(1) idle_after [OF assms(6) b(1,2)] b(3) assms(3) show ?thesis
    by (intro exI [of _ st2] exI [of _ w2] exI [of _ "st1\<lparr>closest_peers_request_for_sync := None,
        sync_requests := [], cn_chain := b, pending_sync_request := False, broadcast_requests := []\<rparr>"]
        exI [of _ w3]) simp
qed

lemma multiple_headers_pass:
  assumes "distinct (map (\<lambda>n. hash (gen_header X n)) [50, 52, 100])"
  shows "test_handle_multiple_incoming_headers X pick random = Ret ()"
proof -
  let ?D = "mock_deps X pick random" and ?g = "gen_header X" and ?w = mock_world_new
  let ?e = "\<lambda>n. IncomingNewBlockHeader (?g n)"
  let ?st = "chain_net_new \<lparr>mc_headers = gen_map X 0, mc_emitted = [], mc_listening = True\<rparr> pool_new"
  have ne: "hash (?g 52) \<noteq> hash (?g 50)" "hash (?g 100) \<notin> {hash (?g 52), hash (?g 50)}"
    using assms by auto
  have w: "mw_listening ?w" "mw_requests ?w = []" "mw_broadcasts ?w = []"
    by (simp_all add: mock_world_new_def)
  have st: "event_recv ?st = []" by (simp add: chain_net_new_def)
  obtain st1 w1 c1 c2 where ev1: "poll_events ?D [?e 50, ?e 50, ?e 52]
      (?st\<lparr>event_recv := [?e 50, ?e 50, ?e 52]\<rparr>) ?w = Ret (st1, w1)"
    and a1: "asking X 0 50 random {hash (?g 52), hash (?g 50)} st1" "event_recv st1 = []"
      "mw_listening w1" "mw_requests w1 = []"
      "mw_broadcasts w1 = [BroadcastBlockHeader (?g 50) c1, BroadcastBlockHeader (?g 52) c2]"
    using first_three_headers [OF idle_new st w ne(1), of pick random] by blast
  obtain st2 w2 st3 w3 where r1: "poll_with ?D [?e 50, ?e 50, ?e 52] (?st, ?w) = Ret (st2, w2)"
      "serve_requests X w2 = Ret w3" "poll_with ?D [] (st2, w3) = Ret (st3, w3)"
    and a3: "mw_broadcasts w3 = [BroadcastBlockHeader (?g 50) c1, BroadcastBlockHeader (?g 52) c2]"
      "mw_requests w3 = []" "mw_listening w3" "idle X 50 {hash (?g 52), hash (?g 50)} st3"
      "event_recv st3 = []" "mc_emitted (cn_chain st3) \<noteq> []"
    using asking_round [OF ev1 st a1(2,4,3,1)] a1(5) by auto
  let ?c3 = "(cn_chain st3)\<lparr>mc_emitted := []\<rparr>" and ?w3 = "w3\<lparr>mw_broadcasts := []\<rparr>"
  let ?st3 = "st3\<lparr>cn_chain := ?c3\<rparr>"
  have i3: "idle X 50 {hash (?g 52), hash (?g 50)} ?st3" "event_recv ?st3 = []"
    using a3(4,5) by (simp_all add: idle_def on_chain_def)
  have w3: "mw_listening ?w3" "mw_requests ?w3 = []" "mw_broadcasts ?w3 = []" using a3(2,3) by simp_all
  obtain st4 w4 c where ev2: "poll_events ?D [?e 50, ?e 100] (?st3\<lparr>event_recv := [?e 50, ?e 100]\<rparr>) ?w3 =
      Ret (st4, w4)"
    and a4: "asking X 50 100 random (insert (hash (?g 100)) {hash (?g 52), hash (?g 50)}) st4"
      "event_recv st4 = []" "mw_listening w4" "mw_requests w4 = []"
      "mw_broadcasts w4 = [BroadcastBlockHeader (?g 100) c]"
    using last_two_headers [OF i3 w3 ne(2), of pick random] by blast
  obtain st5 w5 st6 w6 where r2: "poll_with ?D [?e 50, ?e 100] (?st3, ?w3) = Ret (st5, w5)"
      "serve_requests X w5 = Ret w6" "poll_with ?D [] (st5, w6) = Ret (st6, w6)"
    and a6: "mw_broadcasts w6 = [BroadcastBlockHeader (?g 100) c]" "mc_emitted (cn_chain st6) \<noteq> []"
      "idle X 100 (insert (hash (?g 100)) {hash (?g 52), hash (?g 50)}) st6"
    using asking_round [OF ev2 i3(2) a4(2,4,3,1)] a4(5) by auto
  have c: "mc_headers (cn_chain st3) = gen_map X 50" "mc_headers (cn_chain st6) = gen_map X 100"
    using a3(4) a6(3) by (simp_all add: idle_def on_chain_def)
  have h52: "recv_header (?g 52) (w3\<lparr>mw_broadcasts := [BroadcastBlockHeader (?g 52) c2]\<rparr>) = Ret ?w3"
    by (simp add: recv_header_def del: gen_header.simps)
  show ?thesis
    unfolding test_handle_multiple_incoming_headers_def Let_def
    by (simp add: generate_closed mock_new_closed gen_map_lookup gen_map_last r1 r2 c h52
        recv_added_some [OF a3(6)] recv_added_some [OF a6(2)] recv_header_hd [OF a3(1)]
        recv_header_hd [OF a6(1)] del: gen_header.simps)
qed

lemma headers_request_passes: "test_handle_get_headers_request X = Ret ()"
  unfolding test_handle_get_headers_request_def Let_def
  by (simp add: mock_new_closed gen_answers_request interval_closed del: gen_header.simps upt_Suc)

lemma transactions_poll:
  assumes "event_recv st = []" and "sync_requests st = []" and "closest_peers_request_for_sync st = None"
    and "mw_listening w"
  shows "poll_with (mock_deps X pick random) [IncomingTransactions txs] (st, w) =
    Ret (st\<lparr>event_recv := [], cn_pool := snd (add_transactions (cn_pool st) txs), broadcast_requests := []\<rparr>,
      sent_world (\<lambda>tx. BroadcastTransactions tx txs) w)"
proof -
  obtain added pool where "add_transactions (cn_pool st) txs = (added, pool)" by fastforce
  then show ?thesis
    using assms by (simp add: poll_with_def chain_net_poll_def mp_broadcast_result poll_closest_peers_def
        poll_sync_idle mock_broadcasts_done)
qed

lemma incoming_transactions_pass:
  assumes "distinct (map tx_hash (tx # txs))" and "length txs = 10"
  shows "test_incoming_transactions X pick random tx txs = Ret ()"
proof -
  let ?expected = "replicate 10 tx" and ?p1 = "snd (add_transactions pool_new (replicate 10 tx))"
  have p1: "pool_inv ?p1" "dom (map_of ?p1) = {tx_hash tx}"
    using add_transactions_inv [OF pool_inv_new, of ?expected] by (simp_all add: pool_new_def)
  have "length ?p1 = 1" using add_transactions_size [OF pool_inv_new] by (simp add: pool_new_def)
  moreover have "length (snd (add_transactions ?p1 txs)) = 11"
  proof -
    have "card (tx_hash ` set txs) = 10"
      using assms by (metis distinct_card distinct.simps(2) length_map list.simps(9) set_map)
    with assms(1) show ?thesis using add_transactions_size [OF p1(1), of txs] by (simp add: p1(2))
  qed
  ultimately show ?thesis
    unfolding test_incoming_transactions_def Let_def
    by (simp add: mock_new_closed transactions_poll chain_net_new_def mock_world_new_def recv_transactions_def)
qed

section \<open>Properties\<close>

text \<open>
  C29: The tests of the chain manager pass, for every hash function that tells the headers of
  the test apart, with and without overflow checks, and in whatever order futures complete: a
  header far ahead of the tip is passed on and the chain is synchronised up to it; of several
  such headers the first is synchronised and each is passed on once per hash, while a header
  that is in the chain is not; a request for headers is answered with those there are; and
  transactions are stored once per hash and passed on.
\<close>

theorem manager_tests_pass:
  assumes "distinct (map (\<lambda>n. hash (gen_header X n)) [50, 52, 100])"
    and "distinct (map tx_hash (tx # txs))" and "length txs = 10"
  shows "test_handle_incoming_header X pick random = Ret () \<and>
    test_handle_multiple_incoming_headers X pick random = Ret () \<and>
    test_handle_get_headers_request X = Ret () \<and>
    test_incoming_transactions X pick random tx txs = Ret ()"
  using incoming_header_passes multiple_headers_pass [OF assms(1)] headers_request_passes
    incoming_transactions_pass [OF assms(2,3)] by blast

lemma length_put_u64: "length (put_u64 n) = 8"
  by (simp add: put_u64_def del: nat_bytes.simps)

lemma demo_gen_hash: "hash (gen_header (demo_ext c) (Suc k)) = put_u64 (of_nat (Suc k))"
  by (simp add: Let_def demo_ext_def calculate_hash_def length_put_u64 del: of_nat_Suc)

lemma put_u64_inject: "put_u64 a = put_u64 b \<Longrightarrow> a = b"
  by (metis option.inject prod.inject take_put_u64 append_Nil2)

theorem manager_tests_pass_witness:
  "test_handle_incoming_header (demo_ext True) (\<lambda>w rs. hd rs) ''peer'' = Ret () \<and>
   test_handle_multiple_incoming_headers (demo_ext True) (\<lambda>w rs. hd rs) ''peer'' = Ret () \<and>
   test_incoming_transactions (demo_ext True) (\<lambda>w rs. hd rs) ''peer'' (demo_tx ''tx'' 0)
     (map (\<lambda>n. demo_tx (replicate n CHR ''x'') 0) [0..<10]) = Ret ()"
proof -
  let ?txs = "map (\<lambda>n. demo_tx (replicate n CHR ''x'') 0) [0..<10]"
  have "distinct (map (\<lambda>n. hash (gen_header (demo_ext True) n)) [50, 52, 100])"
    using demo_gen_hash [of True 49] demo_gen_hash [of True 51] demo_gen_hash [of True 99]
    by (auto simp del: gen_header.simps dest!: put_u64_inject)
  moreover have "''tx'' \<noteq> replicate n CHR ''x''" for n
    by (cases n) simp_all
  then have "''tx'' \<notin> set (map tx_hash ?txs)" by (auto simp: comp_def)
  then have "distinct (map tx_hash (demo_tx ''tx'' 0 # ?txs))"
    by (simp add: distinct_map comp_def inj_on_def del: set_map)
  ultimately show ?thesis
    using manager_tests_pass [of "demo_ext True" "demo_tx ''tx'' 0" ?txs "\<lambda>w rs. hd rs" "''peer''"]
    by simp
qed

end
