(* ===== verification/Chain_Tests.thy ===== *)
theory Chain_Tests
  imports Miner_Properties
begin

text \<open>
  The tests of the chain (\<^verbatim>\<open>src/src/blocktree.rs\<close>, module \<open>tests\<close>) as functions that
  return or panic, with the provider they use. The path of a fresh temporary directory, the
  clock and the random numbers are arguments. They are shown to pass on every database that
  works, whatever the build profile, as long as no hash of the genesis is the empty string
  or \<open>0x\<close>.
\<close>

section \<open>The provider of the tests\<close>

text \<open>
  \<open>Provider\<close> implements \<open>BroadcastProvider\<close> only, with futures that are ready at once; the
  operations of the other traits are those of any provider.
\<close>

definition instant_poll :: "'w \<Rightarrow> 'fut list \<Rightarrow> ((nat \<times> unit request_response) option \<times> 'w) outcome" where
  "instant_poll w fs = Ret (if fs = [] then None else Some (0, Inr ()), w)"

definition instant_provider :: "('w, unit) provider \<Rightarrow> ('w, unit) provider" where
  "instant_provider P0 = P0\<lparr>
     bp_broadcast_block_header := (\<lambda>w hdr. Ret ((), w)),
     bp_broadcast_transactions := (\<lambda>w txs. Ret ((), w)),
     bp_poll_next := instant_poll,
     hp_drop := (\<lambda>w fs. w)\<rparr>"

interpretation instant: working_provider "instant_provider P0" "\<lambda>w fs. True" for P0
  by unfold_locales (auto simp: instant_provider_def instant_poll_def)

section \<open>What the tests do\<close>

text \<open>
  Without an interval \<open>Chain::new\<close> is \<open>chain_open\<close>. The seven seconds of the first test are
  the polls of the miner in them.
\<close>

lemma chain_new_None: "chain_new X R I path None = obind (chain_open X R path) (\<lambda>chain. Ret (chain, None))"
  by (simp add: chain_new_def)

definition test_auto_mine ::
  "ext \<Rightarrow> ('db, 'txn) redb \<Rightarrow> 'i timer \<Rightarrow> ('w, unit) provider \<Rightarrow> ('i, 'w) schedule \<Rightarrow> string \<Rightarrow> 'w \<Rightarrow>
     unit outcome" where
  "test_auto_mine X R I P0 seven_seconds file_path w =
     obind (chain_new X R I file_path (Some 3)) (\<lambda>(chain, task).
     obind (case task of
         None \<Rightarrow> Ret chain
       | Some miner \<Rightarrow>
           obind (run_miner X (chain_tree X R) (instant_provider P0) I seven_seconds miner w)
             (\<lambda>(_, miner, _). Ret (mi_chain miner))) (\<lambda>chain.
     obind (chain_tip X R chain) (\<lambda>t.
     obind (unwrap t) (\<lambda>t. assert_that (2 < number t)))))"

definition test_non_auto_mine ::
  "ext \<Rightarrow> ('db, 'txn) redb \<Rightarrow> 'i timer \<Rightarrow> string \<Rightarrow> unit outcome" where
  "test_non_auto_mine X R I file_path =
     obind (chain_new X R I file_path None :: ('db \<times> ('db, 'i, unit) miner option) outcome)
       (\<lambda>(chain, task).
     obind (chain_tip X R chain) (\<lambda>t.
     obind (unwrap t) (\<lambda>t. assert_that (number t = 0))))"

definition test_add_block ::
  "ext \<Rightarrow> ('db, 'txn) redb \<Rightarrow> u64 \<Rightarrow> u64 \<Rightarrow> string \<Rightarrow> unit outcome" where
  "test_add_block X R time random file_path =
     obind (chain_open X R file_path) (\<lambda>chain.
     obind (chain_try_add_block_header X R chain (header_default\<lparr>number := 1\<rparr>)) (\<lambda>(res, chain).
     obind (assert_that (res = Inl Invalid)) (\<lambda>_.
     let h = \<lparr>number = 1, parent_hash = hash (chain_genesis X), state_root = ''0x'',
              timestamp = time, nonce = 0, hash = ''0x''\<rparr>;
         (nce, hsh) = mine_block X random 1 (timestamp h) (parent_hash h) (state_root h) ''0x'';
         h = h\<lparr>nonce := nce, hash := hex_encode X hsh\<rparr> in
     obind (chain_try_add_block_header X R chain h) (\<lambda>(res, chain).
     obind (assert_that (res = Inr ExtendTip)) (\<lambda>_.
     obind (chain_try_add_block_header X R chain h) (\<lambda>(res, chain).
     assert_that (res = Inr AlreadyInChain)))))))"

definition test_add_block_ahead_of_tip :: "ext \<Rightarrow> ('db, 'txn) redb \<Rightarrow> string \<Rightarrow> unit outcome" where
  "test_add_block_ahead_of_tip X R file_path =
     obind (chain_open X R file_path) (\<lambda>chain.
     obind (chain_try_add_block_header X R chain (header_default\<lparr>number := 100\<rparr>)) (\<lambda>(res, chain).
     assert_that (res = Inl BlockHeaderNotFound)))"

definition test_add_genesis_block :: "ext \<Rightarrow> ('db, 'txn) redb \<Rightarrow> string \<Rightarrow> unit outcome" where
  "test_add_genesis_block X R file_path =
     obind (chain_open X R file_path) (\<lambda>chain.
     obind (chain_try_add_block_header X R chain (chain_genesis X)) (\<lambda>(res, chain).
     assert_that (res = Inr AlreadyInChain)))"

definition test_validation_logic :: "ext \<Rightarrow> ('db, 'txn) redb \<Rightarrow> string \<Rightarrow> unit outcome" where
  "test_validation_logic X R file_path =
     obind (chain_open X R file_path) (\<lambda>chain.
     obind (validate_adjacent_block_header X R chain (chain_genesis X)) (\<lambda>r.
     obind (unwrap r) (\<lambda>_.
     obind (validate_adjacent_block_header X R chain (header_default\<lparr>number := 10\<rparr>)) (\<lambda>r.
     obind (unwrap_err r) (\<lambda>err.
     obind (assert_that (err = BlockHeaderNotFound)) (\<lambda>_.
     obind (validate_adjacent_block_header X R chain
       (header_default\<lparr>number := 1, parent_hash := hash (chain_genesis X)\<rparr>)) (\<lambda>r.
     obind (unwrap r) (\<lambda>_.
     obind (validate_adjacent_block_header X R chain
       (header_default\<lparr>number := 1, parent_hash := ''0x''\<rparr>)) (\<lambda>r.
     obind (unwrap_err r) (\<lambda>err.
     assert_that (err = Invalid)))))))))))"

section \<open>The tests pass\<close>

lemma default_not_genesis:
  "header_default\<lparr>number := n\<rparr> \<noteq> chain_genesis X"
  "header_default\<lparr>number := n, parent_hash := p\<rparr> \<noteq> chain_genesis X"
  by (simp_all add: header_default_def chain_genesis_def)

text \<open>Every test starts with a new chain, which holds the genesis.\<close>

context reliable_chain_store
begin

lemma fresh_chain:
  assumes "redb_create R path = Inr db0" and "stored db0 = (Map.empty, Map.empty)"
  obtains db where "chain_open X R path = Ret db" and "db_ok db" and "wf_tables X (stored db)"
    and "headers_of X (stored db) = [0 \<mapsto> chain_genesis X]"
proof -
  have "headers_of X (stored db0) = Map.empty" by (simp add: assms(2) headers_of_def fun_eq_iff)
  with open_total [OF assms(1) disjI1 [OF assms(2)]] that show ?thesis by auto
qed

lemma validate_total:
  assumes "db_ok db" and "wf_tables X (stored db)"
  shows "validate_adjacent_block_header X R db h =
    parent_spec (overflow_checks X) (chain_genesis X) (headers_of X (stored db)) h"
proof -
  have "\<not> (\<exists>e. validate_adjacent_block_header X R db h = Ret (Inl (DatabaseError e)))"
    by (auto simp: validate_adjacent_block_header_def get_total [OF assms] found_def
        elim!: obind_RetE split: if_splits option.splits)
  with validate_result [OF assms, of h] show ?thesis by blast
qed

lemma add_total:
  assumes "db_ok db" and "wf_tables X (stored db)"
    and "add_spec (overflow_checks X) (chain_genesis X) (headers_of X (stored db)) h = Ret (r, m)"
  obtains db' where "chain_try_add_block_header X R db h = Ret (r, db')" and "db_ok db'"
    and "wf_tables X (stored db')" and "headers_of X (stored db') = m"
  using rbt.add_eq [of db h r m] assms by auto

lemma non_auto_mine_passes:
  assumes "redb_create R path = Inr db0" and "stored db0 = (Map.empty, Map.empty)"
  shows "test_non_auto_mine X R I path = Ret ()"
proof -
  obtain db where db: "chain_open X R path = Ret db" "db_ok db" "wf_tables X (stored db)"
    "headers_of X (stored db) = [0 \<mapsto> chain_genesis X]" by (rule fresh_chain [OF assms])
  show ?thesis
    by (simp add: test_non_auto_mine_def chain_new_None db tip_total tip_header_def)
qed

lemma add_block_passes:
  assumes "redb_create R path = Inr db0" and "stored db0 = (Map.empty, Map.empty)"
    and "hash (chain_genesis X) \<noteq> ''''"
  shows "test_add_block X R time random path = Ret ()"
proof -
  let ?g = "chain_genesis X" and ?d = "header_default\<lparr>number := 1\<rparr>"
  obtain db where db: "chain_open X R path = Ret db" "db_ok db" "wf_tables X (stored db)"
    "headers_of X (stored db) = [0 \<mapsto> ?g]" by (rule fresh_chain [OF assms(1,2)])
  obtain nce hsh where mine: "mine_block X random 1 time (hash ?g) ''0x'' ''0x'' = (nce, hsh)"
    by fastforce
  define h where "h = \<lparr>number = 1, parent_hash = hash ?g, state_root = ''0x'', timestamp = time,
    nonce = nce, hash = hex_encode X hsh\<rparr>"
  have h: "h \<noteq> ?g" "number h = 1" "parent_hash h = hash ?g"
    by (auto simp: h_def chain_genesis_def)
  obtain db1 where db1: "chain_try_add_block_header X R db ?d = Ret (Inl Invalid, db1)"
    "db_ok db1" "wf_tables X (stored db1)" "headers_of X (stored db1) = [0 \<mapsto> ?g]"
    by (rule add_total [OF db(2,3), of ?d])
      (use assms(3) default_not_genesis(1) [of 1 X] in
        \<open>auto simp: db(4) add_spec_def parent_spec_def header_default_def\<close>)
  obtain db2 where db2: "chain_try_add_block_header X R db1 h = Ret (Inr ExtendTip, db2)"
    "db_ok db2" "wf_tables X (stored db2)" "headers_of X (stored db2) = [0 \<mapsto> ?g, 1 \<mapsto> h]"
    by (rule add_total [OF db1(2,3), of h])
      (use h in \<open>auto simp: db1(4) add_spec_def parent_spec_def\<close>)
  have tip: "tip_number [0 \<mapsto> ?g, 1 \<mapsto> h] = 1" by (auto intro!: tip_number_unique split: if_splits)
  obtain db3 where db3: "chain_try_add_block_header X R db2 h = Ret (Inr AlreadyInChain, db3)"
    by (rule add_total [OF db2(2,3), of h])
      (use h tip in \<open>auto simp: db2(4) add_spec_def parent_spec_def\<close>)
  show ?thesis
    by (simp add: test_add_block_def db db1 mine db2 [unfolded h_def] db3 [unfolded h_def])
qed

lemma ahead_of_tip_passes:
  assumes "redb_create R path = Inr db0" and "stored db0 = (Map.empty, Map.empty)"
  shows "test_add_block_ahead_of_tip X R path = Ret ()"
proof -
  let ?g = "chain_genesis X" and ?d = "header_default\<lparr>number := 100\<rparr>"
  obtain db where db: "chain_open X R path = Ret db" "db_ok db" "wf_tables X (stored db)"
    "headers_of X (stored db) = [0 \<mapsto> ?g]" by (rule fresh_chain [OF assms(1,2)])
  obtain db1 where "chain_try_add_block_header X R db ?d = Ret (Inl BlockHeaderNotFound, db1)"
    by (rule add_total [OF db(2,3), of ?d])
      (use default_not_genesis(1) [of 100 X] in
        \<open>auto simp: db(4) add_spec_def parent_spec_def\<close>)
  then show ?thesis by (simp add: test_add_block_ahead_of_tip_def db)
qed

lemma add_genesis_passes:
  assumes "redb_create R path = Inr db0" and "stored db0 = (Map.empty, Map.empty)"
  shows "test_add_genesis_block X R path = Ret ()"
proof -
  let ?g = "chain_genesis X"
  obtain db where db: "chain_open X R path = Ret db" "db_ok db" "wf_tables X (stored db)"
    "headers_of X (stored db) = [0 \<mapsto> ?g]" by (rule fresh_chain [OF assms(1,2)])
  obtain db1 where "chain_try_add_block_header X R db ?g = Ret (Inr AlreadyInChain, db1)"
    by (rule add_total [OF db(2,3), of ?g]) (auto simp: db(4) add_spec_def parent_spec_def)
  then show ?thesis by (simp add: test_add_genesis_block_def db)
qed

lemma validation_logic_passes:
  assumes "redb_create R path = Inr db0" and "stored db0 = (Map.empty, Map.empty)"
    and "hash (chain_genesis X) \<noteq> ''0x''"
  shows "test_validation_logic X R path = Ret ()"
proof -
  obtain db where db: "chain_open X R path = Ret db" "db_ok db" "wf_tables X (stored db)"
    "headers_of X (stored db) = [0 \<mapsto> chain_genesis X]" by (rule fresh_chain [OF assms(1,2)])
  show ?thesis
    using assms(3) default_not_genesis [where X = X]
    by (simp add: test_validation_logic_def db validate_total parent_spec_def)
qed

lemma auto_mine_passes:
  assumes "redb_create R path = Inr db0" and "stored db0 = (Map.empty, Map.empty)"
    and "tm_interval I 3 = Ret i" and "3 \<le> ticks_found I sched i" and "length sched < 2 ^ 64"
  shows "test_auto_mine X R I P0 sched path w = Ret ()"
proof -
  obtain db where db: "chain_open X R path = Ret db" "db_ok db" "wf_tables X (stored db)"
    "headers_of X (stored db) = [0 \<mapsto> chain_genesis X]" by (rule fresh_chain [OF assms(1,2)])
  let ?m = "\<lparr>interval = i, mi_chain = db, pending_broadcast = None\<rparr>"
  have rm: "running_miner (chain_tree X R) (overflow_checks X)
    (\<lambda>db. db_ok db \<and> wf_tables X (stored db)) (\<lambda>db. headers_of X (stored db))
    (instant_provider P0) (\<lambda>w fs. True)"
    using as_block_tree instant.working_provider_axioms by (simp add: running_miner_def)
  obtain n m' w' hs where r: "run_miner X (chain_tree X R) (instant_provider P0) I sched ?m w = Ret (n, m', w')"
    and m': "db_ok (mi_chain m')" "wf_tables X (stored (mi_chain m'))"
      "extends (tip_header (headers_of X (stored db))) hs"
      "headers_of X (stored (mi_chain m')) = store_all (headers_of X (stored db)) hs" "length hs = n"
    using running_miner.run_total [OF rm, where m = ?m and w = w and sched = sched and X = X and I = I] db assms(5) by auto
  have "n = ticks_found I sched i" using run_miner_ticks [OF r] by simp
  then have "3 \<le> unat (tip_number (headers_of X (stored (mi_chain m'))))"
    using running_miner.extended_tip(2) [OF rm, of db "mi_chain m'" hs] db(2-4) m' assms(4) by auto
  then have "2 < tip_number (headers_of X (stored (mi_chain m')))"
    by (simp add: word_less_nat_alt)
  then show ?thesis
    using wf_tables_headers [OF m'(2)]
    by (simp add: test_auto_mine_def chain_new_def miner_new_def db(1) assms(3) r tip_total [OF m'(1,2)])
qed

end

section \<open>Properties\<close>

text \<open>
  C30: The tests of the chain pass on every database that works and is empty at first, with and
  without overflow checks and whatever clock and random numbers yield, provided that the hash
  of the genesis is neither the empty string nor \<open>0x\<close>: the default header is refused, a
  child of the genesis extends the tip and is already there the second time, a header ahead of
  the tip is not added, the genesis is in the chain. The chain without a miner stays at the
  genesis, and a miner with an interval of three seconds has mined more than two blocks after
  seven seconds if it found three ticks in them.
\<close>

theorem chain_tests_pass:
  assumes "reliable_chain_store R db_ok txn_ok stored view X"
    and "redb_create R file_path = Inr db0" and "stored db0 = (Map.empty, Map.empty)"
    and "hash (chain_genesis X) \<noteq> ''''" and "hash (chain_genesis X) \<noteq> ''0x''"
    and "tm_interval I 3 = Ret i" and "3 \<le> ticks_found I seven_seconds i"
    and "length seven_seconds < 2 ^ 64"
  shows "test_auto_mine X R I P0 seven_seconds file_path w = Ret () \<and>
    test_non_auto_mine X R I file_path = Ret () \<and>
    test_add_block X R time random file_path = Ret () \<and>
    test_add_block_ahead_of_tip X R file_path = Ret () \<and>
    test_add_genesis_block X R file_path = Ret () \<and>
    test_validation_logic X R file_path = Ret ()"
proof -
  note fresh = assms(1-3)
  show ?thesis
    using reliable_chain_store.auto_mine_passes [OF fresh assms(6-8)]
      reliable_chain_store.non_auto_mine_passes [OF fresh]
      reliable_chain_store.add_block_passes [OF fresh assms(4)]
      reliable_chain_store.ahead_of_tip_passes [OF fresh]
      reliable_chain_store.add_genesis_passes [OF fresh]
      reliable_chain_store.validation_logic_passes [OF fresh assms(5)] by blast
qed

definition demo_seven_seconds :: "(nat, unit) schedule" where
  "demo_seven_seconds = [(\<lambda>due. due, \<lambda>w. w, demo_inputs), (\<lambda>due. due + 1, \<lambda>w. w, demo_inputs),
     (\<lambda>due. due + 1, \<lambda>w. w, demo_inputs)]"

lemma demo_genesis_hash: "hash (chain_genesis (demo_ext c)) = put_u64 0"
  by (simp add: chain_genesis_def calculate_hash_def demo_ext_def put_u64_def)

theorem chain_tests_pass_witness:
  "(\<forall>P0. test_auto_mine (demo_ext True) (mem_redb mem_empty) due_timer P0 demo_seven_seconds
     ''db.redb'' () = Ret ()) \<and>
   test_add_block (demo_ext True) (mem_redb mem_empty) 7 3 ''db.redb'' = Ret () \<and>
   test_validation_logic (demo_ext True) (mem_redb mem_empty) ''db.redb'' = Ret ()"
proof -
  have "length (put_u64 0) = 8" by (simp add: put_u64_def del: nat_bytes.simps)
  then have "put_u64 0 \<noteq> ''''" "put_u64 0 \<noteq> ''0x''" by auto
  then show ?thesis
    using chain_tests_pass [OF mem_chain.reliable_chain_store_axioms, of "''db.redb''" mem_empty True
      due_timer 1 demo_seven_seconds _ "()" 7 3]
    by (simp add: demo_genesis_hash mem_redb_def mem_view_def mem_empty_def due_timer_def
        demo_seven_seconds_def)
qed

end
