(* ===== verification/Unit_Tests.thy ===== *)
theory Unit_Tests
  imports Sync_Properties Pool
begin

text \<open>
  The tests of the synchroniser (\<^verbatim>\<open>src/src/tasks/sync_header.rs\<close>) and of the pool
  (\<^verbatim>\<open>src/src/pool.rs\<close>) as functions that return or panic, and that they pass.
\<close>

section \<open>The synchroniser\<close>

text \<open>
  Awaiting the future: the futures of the test providers are ready at once, so that none
  of them would wake up a task that was left pending.
\<close>

definition await_sync ::
  "bool \<Rightarrow> ('w, 'fut, 'z) headers_provider_scheme \<Rightarrow> 'fut sync_header \<Rightarrow> 'w \<Rightarrow> sync_header_output outcome" where
  "await_sync checks P s w =
     obind (sync_poll checks P s w) (\<lambda>(p, _, _). case p of Ready r \<Rightarrow> Ret r | Pending \<Rightarrow> Diverge)"

definition test_builder :: "'p \<Rightarrow> peer_id \<Rightarrow> 'p sync_header_builder" where
  "test_builder provider random_peer =
     with_request_limit 7 (with_peer_id random_peer (with_target_head 1000
       (with_local_head_block 0 (with_provider provider builder_default))))"

text \<open>The loop over the numbers, which indexes the result with the number less one.\<close>

fun assert_numbers :: "header list \<Rightarrow> u64 list \<Rightarrow> unit outcome" where
  "assert_numbers result [] = Ret ()"
| "assert_numbers result (i # is) =
     (let k = unat i - 1 in
      if k < length result then
        obind (assert_that (number (result ! k) = i)) (\<lambda>_. assert_numbers result is)
      else Panic ''index out of bounds'')"

definition test_calculation_correct :: "bool \<Rightarrow> peer_id \<Rightarrow> unit outcome" where
  "test_calculation_correct checks random_peer =
     obind (sync_build (test_builder mock_headers_provider random_peer)) (\<lambda>(provider, sync_header).
     obind (await_sync checks provider sync_header []) (\<lambda>r.
     obind (unwrap r) (\<lambda>result.
     obind (assert_that (length result = 1000)) (\<lambda>_.
     assert_numbers result (map of_nat [1..<1001])))))"

definition test_empty_response :: "bool \<Rightarrow> peer_id \<Rightarrow> unit outcome" where
  "test_empty_response checks random_peer =
     obind (sync_build (test_builder empty_provider random_peer)) (\<lambda>(provider, sync_header).
     obind (await_sync checks provider sync_header []) (\<lambda>r.
     obind (unwrap_err r) (\<lambda>err. case err of
       EmptyResponse \<Rightarrow> Ret () | _ \<Rightarrow> Panic ''Expect empty response error'')))"

section \<open>The pool\<close>

text \<open>The two random transactions are arguments; no test of the pool uses the provider.\<close>

definition test_pool :: "transaction \<Rightarrow> transaction \<Rightarrow> unit outcome" where
  "test_pool tx1 tx2 =
     (let (res, pool) = add_transaction pool_new tx1 in
      obind (expect_some ''called `Option::unwrap()` on a `None` value'' res) (\<lambda>h.
      obind (assert_that (tx_hash tx1 = h)) (\<lambda>_.
      let (res, pool) = add_transaction pool tx1 in
      obind (assert_that (res = None)) (\<lambda>_.
      let (next1, pool) = pool_next pool in
      obind (assert_that (next1 = Some tx1)) (\<lambda>_.
      let (next2, pool) = pool_next pool in
      obind (assert_that (next2 = None)) (\<lambda>_.
      let (_, pool) = add_transaction pool tx2; (next3, pool) = pool_next pool in
      obind (assert_that (next3 = Some tx2)) (\<lambda>_.
      let (next4, pool) = pool_next pool in
      assert_that (next4 = None))))))))"

section \<open>They pass\<close>

lemma assert_numbers_ok:
  "(\<And>i. i \<in> set is \<Longrightarrow> unat i - 1 < length result \<and> number (result ! (unat i - 1)) = i) \<Longrightarrow>
    assert_numbers result is = Ret ()"
  by (induction "is") simp_all

lemma test_builder_built:
  "sync_build (test_builder p peer) = Ret (p, test_sync\<lparr>sync_peer_id := peer\<rparr>)"
  by (simp add: sync_build_def test_builder_def builder_default_def with_provider_def
      with_local_head_block_def with_target_head_def with_peer_id_def with_request_limit_def
      test_sync_def demo_sync_def)

lemma test_sync_fresh: "sync_fresh (test_sync\<lparr>sync_peer_id := peer\<rparr>)"
  by (simp add: test_sync_def demo_sync_def sync_fresh_def)

lemma calculation_passes: "test_calculation_correct checks peer = Ret ()"
proof -
  let ?hs = "map (\<lambda>n. header_default\<lparr>number := n\<rparr>) (numbers_after 0 1000)"
  have "await_sync checks mock_headers_provider (test_sync\<lparr>sync_peer_id := peer\<rparr>) [] = Ret (Inr ?hs)"
    using mock_poll [OF test_sync_fresh [of peer], of checks "[]"]
    by (auto simp: await_sync_def test_sync_def demo_sync_def)
  moreover have "assert_numbers ?hs (map of_nat [1..<1001]) = Ret ()"
    by (rule assert_numbers_ok) (auto simp: nth_numbers_after unat_of_nat of_nat_diff)
  ultimately show ?thesis
    by (simp add: test_calculation_correct_def test_builder_built)
qed

lemma empty_response_passes: "test_empty_response checks peer = Ret ()"
proof -
  have "await_sync checks empty_provider (test_sync\<lparr>sync_peer_id := peer\<rparr>) [] = Ret (Inl EmptyResponse)"
    using empty_sync_fails [OF test_sync_fresh [of peer], of checks "[]"]
    by (auto simp: await_sync_def test_sync_def demo_sync_def)
  then show ?thesis by (simp add: test_empty_response_def test_builder_built)
qed

lemma pool_passes: "test_pool tx1 tx2 = Ret ()"
  by (simp add: test_pool_def add_transaction_def pool_next_def pool_new_def btm_insert_def
      Let_def)

text \<open>
  The tests of the synchroniser and of the pool pass, in both build profiles, for every
  peer and for all transactions: synchronising from 0 to 1000 in batches of 7 yields the
  headers 1 to 1000 in order; a peer that answers with no headers makes it fail with
  \<open>EmptyResponse\<close>; a transaction is added once, comes out of the pool once, and leaves it empty.
\<close>

lemma unit_tests_pass:
  "test_calculation_correct checks random_peer = Ret () \<and>
   test_empty_response checks random_peer = Ret () \<and> test_pool tx1 tx2 = Ret ()"
  using calculation_passes empty_response_passes pool_passes by blast

end
