(* ===== verification/Spec2Isabelle.thy ===== *)
theory Spec2Isabelle
  imports Convergence Chain_Race Chain_Lock Client_Sync Rpc_Http Manager_Tests Chain_Tests Unit_Tests
begin

text \<open>
  Verification of \<^verbatim>\<open>simb\<close>, a peer-to-peer node that keeps, mines and synchronises a chain of
  block headers. The sources are under \<^verbatim>\<open>src/\<close>; the paths below are relative to it.

  \<^bold>\<open>The program.\<close> A node runs three tasks. The network task owns the libp2p swarm; it carries out
  commands that arrive on a queue, answers them on oneshot channels, and passes headers,
  transactions and requests of peers on as events. The chain manager takes the events: it adds
  headers to the store, passes on what it has not seen, answers peers, and, when the parent of
  a header is missing, asks for peers and runs header synchronisers. The miner adds a block at
  every tick of a timer and broadcasts it. An RPC server reads the store. All share one
  database and one transaction pool.

  \<^bold>\<open>Theories and sources.\<close>
  \<^item> \<open>Prelude\<close>: results of a Rust call (\<open>outcome\<close>: returned, panicked, never returns), the
    \<open>?\<close> operator, \<open>expect\<close>, 64-bit arithmetic with and without overflow checks.
    \<open>BTree_Map\<close>: the standard library's ordered map and its interface.
  \<^item> \<open>Interface\<close> (\<^verbatim>\<open>src/interface.rs\<close>): headers, transactions, requests, errors; the provider
    traits as records of operations on a world.
  \<^item> \<open>External\<close>: code that is not in the repository, as parameters: redb, the RLP codec,
    SHA-256, hex, JSON text; locales with the documented laws, and instances in memory.
  \<^item> \<open>Block_Tree\<close>, \<open>Chain_Db\<close>, \<open>Chain_Properties\<close> (\<^verbatim>\<open>src/blocktree.rs\<close>): the trait with its
    default methods and the contract \<open>block_tree_contract\<close>; the chain on redb, which
    satisfies it; \<open>add_spec\<close> is the abstract addition to a map from numbers to headers.
  \<^item> \<open>Chain_Race\<close>, \<open>Chain_Lock\<close> (\<^verbatim>\<open>src/blocktree.rs\<close>): additions of several tasks that
    interleave at the points where they release the lock, and the guards of the lock.
  \<^item> \<open>Miner\<close>, \<open>Miner_Properties\<close> (\<^verbatim>\<open>src/blocktree.rs\<close>): the mining task, its start, and
    \<open>mine_and_broadcast_block\<close>.
  \<^item> \<open>Pool\<close> (\<^verbatim>\<open>src/pool.rs\<close>): the transaction pool.
  \<^item> \<open>Sync_Header\<close>, \<open>Sync_Properties\<close> (\<^verbatim>\<open>src/tasks/sync_header.rs\<close>): the synchroniser, for
    every provider that satisfies \<open>headers_source\<close>, and the providers of its tests.
  \<^item> \<open>Messages\<close>, \<open>Provider\<close> (\<^verbatim>\<open>src/net/mod.rs\<close>, \<^verbatim>\<open>src/net/provider.rs\<close>): messages, oneshot
    channels, and the provider, whose operations send a command and return a future.
  \<^item> \<open>Chain_Net\<close>, \<open>Net_Properties\<close>, \<open>Sync_Order\<close> (\<^verbatim>\<open>src/net/chain.rs\<close>): the chain manager,
    for every block tree and every provider that satisfies \<open>working_provider\<close>.
  \<^item> \<open>Mock_Chain\<close>, \<open>Mock_Provider\<close>, \<open>Generated\<close> (\<^verbatim>\<open>src/net/chain.rs\<close>, tests): the block tree in
    memory and the provider of the tests, further instances of the two contracts, and the
    headers that the tests generate, in closed form.
  \<^item> \<open>Manager_Tests\<close>, \<open>Chain_Tests\<close>, \<open>Unit_Tests\<close>: the tests of the chain manager, of the chain
    with its miner, of the synchroniser and of the pool, as functions that return or panic.
  \<^item> \<open>Behaviour\<close> (\<^verbatim>\<open>src/net/network.rs\<close>): the configuration of the swarm, \<open>AppBehaviour::new\<close>,
    and the identifiers of gossip messages.
  \<^item> \<open>Network\<close>, \<open>Network_Properties\<close> (\<^verbatim>\<open>src/net/network.rs\<close>): the network task, its maps of
    pending answers, every handler, and one round of its loop; \<open>net_run\<close> interleaves it with
    the tasks that use it.
  \<^item> \<open>Rpc\<close>, \<open>Rpc_Properties\<close> (\<^verbatim>\<open>src/rpc.rs\<close>): the builder and the methods, with the
    hexadecimal numbers they read and write. \<open>Rpc_Http\<close> (also \<^verbatim>\<open>examples/rpc_client.rs\<close>): the
    HTTP layers around them, clients, and the tests of the server.
  \<^item> \<open>Client\<close>, \<open>Node\<close> (\<^verbatim>\<open>src/client.rs\<close>, \<^verbatim>\<open>src/main.rs\<close>): options, builder, wiring and
    start-up; \<open>node_run\<close> interleaves the tasks of a node.
  \<^item> \<open>Convergence\<close>, \<open>Propagation\<close> and this theory: two nodes, one synchronising from the
    other, and a mined block and transactions on their way from one node to the other.
  \<^item> \<open>Cluster\<close>, \<open>Client_Tests\<close> (\<^verbatim>\<open>src/client.rs\<close>, tests): any number of nodes whose swarms exchange
    packets; the test node, the retrying assertions and the four tests that connect nodes.
    \<open>Cluster_Phases\<close>, \<open>Cluster_Connect\<close>, \<open>Cluster_Flood\<close> say what the turns of a cluster do: one
    turn, listening and dialling, and a message that floods the nodes it can reach.
    \<open>Client_Runs\<close> has the operations of the test nodes, \<open>Client_Pass\<close> the tests, for every
    network with the laws \<open>test_network\<close>, and \<open>Client_Sync\<close> a network in memory that has them.

  \<^bold>\<open>How the code is modelled.\<close> Every function is a definition on explicit state; a panic, an
  error and an early return are values. A future is a handle that is polled in a world, and a
  task is what one poll of it does. What a call draws from clock or random numbers is an
  argument. Strings are the sequences of their bytes. A build has or has not overflow checks
  (field \<open>overflow_checks\<close>), and theorems hold for both unless they say otherwise. Logging is
  left out; the arguments of the \<open>debug\<close> and \<open>info\<close> macros are taken to have no effect.
  Loops over lists are structural; the inner loops of the synchroniser and of the chain manager
  have a termination proof. The outer loop of the synchroniser is a \<open>partial_function\<close>, since
  it runs for ever with a batch size of 0: not returning is the value \<open>Diverge\<close>, and that
  polling does return is proved (\<open>sync_poll_total\<close>, \<open>manager_poll_total\<close>). The loop that answers a request for headers
  has the limit of the request as its bound, as in the code. No other bound is introduced.

  \<^bold>\<open>What is shown.\<close> The store refines its specification and keeps its invariant on every path,
  including failing database calls, interleaved additions and the whole node
  (\<open>chain_add_refines\<close>, \<open>chain_add_keeps_invariant\<close>, \<open>concurrent_adds_safe\<close>,
  \<open>node_chain_safe\<close>). The chain manager does not crash while storage and network task work
  (\<open>manager_poll_total\<close>), and its handlers do what they should. A synchronisation asks
  for the range exactly once in whatever order responses come, and brings the chain up to the
  target when they come in order. The network task owes every request one answer, and delivers
  it. The miner makes progress, and its blocks reach the chains of the peers
  (\<open>miner_makes_progress\<close>, \<open>mined_block_propagates\<close>); so do submitted transactions, and their flood
  ends (\<open>transactions_propagate\<close>). The RPC methods serve what was added, in answers of fixed
  types, and only to clients with the token. The tests of the crate pass for every hash
  function, clock and order of completion, not only the ones of one run; those that connect
  nodes over libp2p pass on every network that does what libp2p documents
  (\<open>integration_tests_pass\<close>). Where the code does not do what it means to, a theorem says so: headers that arrive out of order are lost, a failed
  request for peers ends all synchronisation, a replaced header leaves links and index stale,
  racing additions are both told that they extended the tip, a lookup by hash can deadlock,
  and a dropped future, a malformed message or a slow network task crashes the network task.

  \<^bold>\<open>Not modelled.\<close> What tower, jsonrpsee and libp2p do inside; they are arguments, with what they
  document as hypotheses where a theorem needs it. The parsing of the command line and the
  set-up of tracing: calls into libraries without logic of the crate. \<open>BodyProvider\<close> and
  \<open>get_bodies\<close>, which the crate leaves unimplemented. The end of the network task when all
  providers are gone. Time: a wait of a test that connects nodes lets the tasks of all nodes take
  turns in any order, and \<open>tireless\<close> says that it lasts until none of them has anything left to
  do, if that can be reached; whether 200 milliseconds are enough for that is not a question
  about the code. The laws of the swarms in these tests (\<open>connected_swarms\<close>) are those of small
  networks, in which every peer is in the mesh of a topic. Tasks take turns at whole polls in \<open>node_run\<close>; finer interleaving is
  modelled for the additions to the store only.
\<close>

section \<open>Synchronising two nodes\<close>



section \<open>A block travels from one node to another\<close>

text \<open>
  C3: A block that one node mines becomes the tip of another node with the same chain. The
  miner's poll at a tick stores the block and queues its broadcast; the network task publishes
  its encoding and answers the miner; the other node's network task, when the swarm delivers
  these bytes, hands the header to its chain manager, and the next poll of the manager, with
  no synchronisation going on, adds it: both chains are equal again, one block longer.
\<close>

theorem mined_block_propagates:
  assumes "reliable_chain_store R db_ok txn_ok stored view X"
    and "db_ok (mi_chain m)" and "wf_tables X (stored (mi_chain m))"
    and "tip_number (headers_of X (stored (mi_chain m))) < n"
    and "tm_poll_tick I (interval m) = (True, i)" and "pending_broadcast m = None"
    and "command_open w" and "commands w = []"
    and "\<And>buf. fst (sw_publish S (nm_swarm nm) BLOCK_HEADER buf) = Inr ()"
    and "reliable_chain_store R' db_ok' txn_ok' stored' view' X"
    and "db_ok' (cn_chain st)" and "wf_tables X (stored' (cn_chain st))"
    and "headers_of X (stored' (cn_chain st)) = headers_of X (stored (mi_chain m))"
    and "net_up w' (broadcast_requests st)" and "sync_requests st = []"
    and "closest_peers_request_for_sync st = None"
    and "event_open nm'" and "event_sender nm' = []"
  shows "\<exists>m1 w1 wakes buf nm1 w2 nm2 st' w3.
    execute_poll X (chain_tree X R) (network_provider pick) I inp m w = Ret (m1, w1, wakes) \<and>
    network_step X S NextCommand nm w1 = Ret (nm1, w2) \<and>
    nm_swarm nm1 = snd (sw_publish S (nm_swarm nm) BLOCK_HEADER buf) \<and>
    poll_unit_fut (channels w2) (br_fut (the (pending_broadcast m1))) = Ret (Ready (Inr ())) \<and>
    network_step X S' (SwarmEvent s (GossipMessage BLOCK_HEADER buf)) nm' w' = Ret (nm2, w') \<and>
    chain_net_poll (node_deps X R' pick' woken) (st\<lparr>event_recv := event_sender nm2\<rparr>) w' =
      Ret (Pending, st', w3) \<and>
    headers_of X (stored' (cn_chain st')) = headers_of X (stored (mi_chain m1)) \<and>
    number (tip_header (headers_of X (stored' (cn_chain st')))) =
      tip_number (headers_of X (stored (mi_chain m))) + 1"
proof -
  let ?m = "headers_of X (stored (mi_chain m))" and ?c = "length (channels w)"
  let ?h = "mined_next X inp ?m" and ?P = "network_provider pick"
  let ?buf = "header_encode X ?h"
  note wf = wf_tables_headers [OF assms(3)]
  obtain again i' where t: "tm_poll_tick I i = (again, i')" by fastforce
  from miner_tick_result [OF assms(1-4,7,5) t refl, of pick inp] obtain db w1 wakes where
    mined: "execute_poll X (chain_tree X R) ?P I inp m w = Ret (m\<lparr>mi_chain := db, interval := i',
      pending_broadcast := Some \<lparr>br_header = ?h, br_fut = BroadcastFut ?c\<rparr>\<rparr>, w1, wakes)"
    and db: "headers_of X (stored db) = ?m(number ?h \<mapsto> ?h)"
      "tip_header (headers_of X (stored db)) = ?h"
    and w1: "commands w1 = [BroadcastBlockHeader ?h ?c]" "channels w1 = channels w @
      [\<lparr>sent = None, tx_alive = True, rx_alive = True, asked = None\<rparr>]"
    using assms(6,8) by auto
  obtain s1 where "sw_publish S (nm_swarm nm) BLOCK_HEADER ?buf = (Inr (), s1)"
    using assms(9) [of ?buf] by (cases "sw_publish S (nm_swarm nm) BLOCK_HEADER ?buf") auto
  note pub = this broadcast_published [OF w1(1) _ _ this]
  from pub(2) obtain w2 where step: "network_step X S NextCommand nm w1 = Ret (nm\<lparr>nm_swarm := s1\<rparr>, w2)"
    and answer: "poll_unit_fut (channels w2) (BroadcastFut ?c) = Ret (Ready (Inr ()))"
    using w1(2) by auto
  have codec: "header_decode X ?buf = Inr ?h"
    using header_codec.decode_encode assms(1) by (simp add: reliable_chain_store_def)
  have gossip: "network_step X S' (SwarmEvent s (GossipMessage BLOCK_HEADER ?buf)) nm' w' =
      Ret (nm'\<lparr>nm_swarm := s, event_sender := [IncomingNewBlockHeader ?h]\<rparr>, w')"
    using assms(17,18) codec by (simp add: handle_gossipsub_message_def)
  have add: "add_spec (overflow_checks X) (chain_genesis X)
      (headers_of X (stored' (cn_chain st))) ?h = Ret (Inr ExtendTip, ?m(number ?h \<mapsto> ?h))"
    using add_mined [OF wf assms(4) chain_genesis_number refl] by (simp add: assms(13))
  obtain st' w3 where poll: "chain_net_poll (node_deps X R' pick' woken)
      (st\<lparr>event_recv := [IncomingNewBlockHeader ?h]\<rparr>) w' = Ret (Pending, st', w3)"
    and st': "headers_of X (stored' (cn_chain st')) = ?m(number ?h \<mapsto> ?h)"
    using manager_adds_child [OF assms(10),
        where st = "st\<lparr>event_recv := [IncomingNewBlockHeader ?h]\<rparr>" and h = ?h and w = w'
          and m = "?m(number ?h \<mapsto> ?h)" and pick = pick' and woken = woken]
      assms(11,12,14-16) add by auto
  have "number ?h = tip_number ?m + 1" by (simp add: mined_header_def mine_block_def Let_def)
  with mined db step answer gossip poll st' pub(1) show ?thesis
    by (intro exI [of _ "m\<lparr>mi_chain := db, interval := i', pending_broadcast :=
          Some \<lparr>br_header = ?h, br_fut = BroadcastFut ?c\<rparr>\<rparr>"] exI [of _ w1] exI [of _ wakes]
        exI [of _ ?buf] exI [of _ "nm\<lparr>nm_swarm := s1\<rparr>"] exI [of _ w2]
        exI [of _ "nm'\<lparr>nm_swarm := s, event_sender := [IncomingNewBlockHeader ?h]\<rparr>"]
        exI [of _ st'] exI [of _ w3]) simp
qed

theorem mined_block_propagates_witness:
  "\<exists>m1 w1 wakes buf nm1 w2 nm2 st' w3.
    execute_poll (demo_ext True) demo_chain_tree (network_provider first_ready) due_timer
      demo_inputs (demo_miner 1 None) demo_world = Ret (m1, w1, wakes) \<and>
    network_step (demo_ext True) demo_swarm NextCommand (network_manager_new 0) w1 =
      Ret (nm1, w2) \<and>
    network_step (demo_ext True) demo_swarm (SwarmEvent 0 (GossipMessage BLOCK_HEADER buf))
      (network_manager_new 0) demo_world = Ret (nm2, demo_world) \<and>
    chain_net_poll (demo_deps True)
      ((chain_net_new (demo_chain True) pool_new)\<lparr>event_recv := event_sender nm2\<rparr>) demo_world =
      Ret (Pending, st', w3) \<and>
    headers_of (demo_ext True) (mem_view (cn_chain st')) =
      headers_of (demo_ext True) (mem_view (mi_chain m1)) \<and>
    number (tip_header (headers_of (demo_ext True) (mem_view (cn_chain st')))) = 1"
proof -
  have p: "demo_deps True = node_deps (demo_ext True) (mem_redb mem_empty) (\<lambda>w rs. hd rs)
      (\<lambda>w n. [0..<n])" by (simp add: demo_deps_def)
  let ?m = "demo_miner 1 None" and ?st = "chain_net_new (demo_chain True) pool_new"
    and ?nm = "network_manager_new 0"
  note facts = demo_chain_facts [of True]
  have m: "mi_chain ?m = demo_chain True" "tm_poll_tick due_timer (interval ?m) = (True, 0)"
    "pending_broadcast ?m = None" by (simp_all add: demo_miner_def)
  have w: "command_open demo_world" "commands demo_world = []" by (simp_all add: demo_world_def)
  have st: "cn_chain ?st = demo_chain True" "sync_requests ?st = []"
    "closest_peers_request_for_sync ?st = None" "net_up demo_world (broadcast_requests ?st)"
    by (simp_all add: chain_net_new_def net_up_def demo_world_def)
  have nm: "fst (sw_publish demo_swarm (nm_swarm ?nm) BLOCK_HEADER buf) = Inr ()"
    "event_open ?nm" "event_sender ?nm = []" for buf
    by (simp_all add: network_manager_new_def demo_swarm_def)
  have tip: "tip_number (headers_of (demo_ext True) (mem_view (demo_chain True))) = 0"
    by (simp add: demo_chain_headers)
  note travels = mined_block_propagates [where m = ?m and w = demo_world and I = due_timer
      and i = 0 and n = 1 and pick = first_ready and inp = demo_inputs and S = demo_swarm
      and nm = ?nm and S' = demo_swarm and nm' = ?nm and s = 0 and w' = demo_world and st = ?st
      and pick' = "\<lambda>w rs. hd rs" and woken = "\<lambda>w n. [0..<n]",
      unfolded m(1) st(1), OF facts _ m(2,3) w nm(1) facts refl st(4,2,3) nm(2,3)]
  have "tip_number (headers_of (demo_ext True) (mem_view (demo_chain True))) < 1"
    by (simp add: tip)
  from travels [OF this] show ?thesis unfolding p tip add_0_left by blast
qed

section \<open>Transactions travel from one node to another\<close>

text \<open>
  C4: Transactions submitted at one node reach the pool of another, and the flood ends there.
  The submission broadcasts what is new, and succeeds once the network task has published it;
  the other node's network task, when the swarm delivers the message, hands the transactions
  to its chain manager, and the next poll adds them: a pool that was equal to the submitter's
  is equal to it again. The manager broadcasts them once more, but as the identifier of a
  message is computed from its contents, gossipsub, which has seen it, refuses it as a
  duplicate: nothing is published, and the manager drops the error at its next poll. Known
  transactions of the batch have to be the ones that are stored, since they are overwritten
  and not broadcast.
\<close>

theorem transactions_propagate:
  assumes "pool_inv pool"
    and "\<forall>tx \<in> set txs. map_of pool (tx_hash tx) \<in> {None, Some tx}"
    and "command_open w" and "commands w = []"
    and "txs' = filter (\<lambda>tx. map_of pool (tx_hash tx) = None) txs"
    and "sw_publish S (nm_swarm nm) TRANSACTIONS (sw_txs_encode S txs') = (Inr (), s1)"
    and "sw_txs_encode S' = sw_txs_encode S"
    and "sw_txs_decode S' (sw_txs_encode S' txs') = Inr txs'"
    and "\<forall>s' t d. message_id H d \<in> seen s' \<longrightarrow> sw_publish S' s' t d = (Inl ''Duplicate'', s')"
    and "message_id H (sw_txs_encode S txs') \<in> seen s"
    and "event_open nm'" and "event_sender nm' = []"
    and "command_open w'" and "commands w' = []" and "cn_pool st = pool"
    and "broadcast_requests st = []" and "sync_requests st = []"
    and "closest_peers_request_for_sync st = None"
  shows "\<exists>added pool' w1 nm2 st1 w2 nm3 w3 st2.
    add_transactions_and_broadcast fst set_pool send_transactions (await_round X S)
      (pool, nm, w) txs = Ret (Inr added, pool', nm\<lparr>nm_swarm := s1\<rparr>, w1) \<and>
    network_step X S' (SwarmEvent s (GossipMessage TRANSACTIONS (sw_txs_encode S txs'))) nm' w' =
      Ret (nm2, w') \<and>
    chain_net_poll (node_deps X R pick woken) (st\<lparr>event_recv := event_sender nm2\<rparr>) w' =
      Ret (Pending, st1, w2) \<and>
    get_all (cn_pool st1) = get_all pool' \<and> pool_inv (cn_pool st1) \<and>
    set added = {h \<in> tx_hash ` set txs. map_of pool h = None} \<and>
    network_step X S' NextCommand (nm2\<lparr>event_sender := []\<rparr>) w2 = Ret (nm3, w3) \<and>
    nm_swarm nm3 = s \<and>
    chain_net_poll (node_deps X R pick woken) st1 w3 = Ret (Pending, st2, w3) \<and>
    broadcast_requests st2 = [] \<and> commands w3 = []"
proof -
  let ?D = "node_deps X R pick woken" and ?c = "length (channels w')"
  let ?nm2 = "nm'\<lparr>nm_swarm := s, event_sender := [IncomingTransactions txs']\<rparr>"
  let ?pool = "snd (add_transactions pool txs)"
  let ?st1 = "st\<lparr>event_recv := [], cn_pool := ?pool, broadcast_requests := [BroadcastFut ?c]\<rparr>"
  obtain w1 where submitted: "add_transactions_and_broadcast fst set_pool send_transactions
      (await_round X S) (pool, nm, w) txs = Ret (Inr (fst (add_transactions pool txs)), ?pool, nm\<lparr>nm_swarm := s1\<rparr>, w1)"
    using transactions_submitted [OF assms(1,3-6)] by blast
  have gossip: "network_step X S' (SwarmEvent s (GossipMessage TRANSACTIONS (sw_txs_encode S txs')))
      nm' w' = Ret (?nm2, w')"
    using assms(7,8,11,12) by (simp add: handle_gossipsub_message_def)
  have poll: "chain_net_poll ?D (st\<lparr>event_recv := event_sender ?nm2\<rparr>) w' =
      Ret (Pending, ?st1, with_broadcast w' txs')"
    using manager_adds_transactions [where st = "st\<lparr>event_recv := event_sender ?nm2\<rparr>" and w = w'
        and txs = txs' and X = X and R = R and pick = pick and woken = woken] assms(13-18)
      add_new_only [OF assms(1), of txs] assms(2) by (fastforce simp: assms(5))
  have "sw_publish S' (nm_swarm (?nm2\<lparr>event_sender := []\<rparr>)) TRANSACTIONS (sw_txs_encode S' txs') =
      (Inl ''Duplicate'', s)"
    using assms(7,9,10) by simp
  from transactions_published [OF assms(14) this, of X] obtain w3 where
    refused: "network_step X S' NextCommand (?nm2\<lparr>event_sender := []\<rparr>) (with_broadcast w' txs') =
      Ret (?nm2\<lparr>event_sender := []\<rparr>, w3)"
    and answer: "poll_unit_fut (channels w3) (BroadcastFut ?c) =
      Ret (Ready (Inl (PublishError ''Duplicate'')))" and "commands w3 = []" by auto
  have again: "chain_net_poll ?D ?st1 w3 = Ret (Pending, ?st1\<lparr>broadcast_requests := []\<rparr>, w3)"
    by (rule idle_poll [where es = "[]" and ?st1.0 = ?st1 and ?w1.0 = w3])
      (use assms(17,18) ready_broadcast [OF answer] in \<open>simp_all add: poll_events.simps(1)\<close>)
  have pool: "pool_inv ?pool" "set (fst (add_transactions pool txs)) =
      {h \<in> tx_hash ` set txs. map_of pool h = None}"
    using add_loop_inv [OF assms(1)] add_loop_added [of pool txs "[]"] assms(1)
      fresh_hashes_set [of "dom (map_of pool)" txs]
    by (auto simp: add_transactions_def pool_inv_def dom_def)
  show ?thesis
    by (rule exI [of _ "fst (add_transactions pool txs)"], rule exI [of _ ?pool], rule exI [of _ w1],
        rule exI [of _ ?nm2], rule exI [of _ ?st1], rule exI [of _ "with_broadcast w' txs'"],
        rule exI [of _ "?nm2\<lparr>event_sender := []\<rparr>"], rule exI [of _ w3],
        rule exI [of _ "?st1\<lparr>broadcast_requests := []\<rparr>"])
      (use submitted gossip poll pool refused again \<open>commands w3 = []\<close> in simp)
qed

text \<open>A swarm that has seen nothing in state 0, and the message of the example afterwards.\<close>

definition demo_hash :: "bytes \<Rightarrow> u64" where
  "demo_hash b = of_nat (length b)"

definition demo_seen :: "nat \<Rightarrow> string set" where
  "demo_seen s = (if s = 0 then {} else {message_id demo_hash (put_txs [demo_tx ''a'' 1])})"

definition gossip_swarm :: "nat swarm" where
  "gossip_swarm = demo_swarm\<lparr>sw_publish := (\<lambda>s t d.
     if message_id demo_hash d \<in> demo_seen s then (Inl ''Duplicate'', s) else (Inr (), 1))\<rparr>"

theorem transactions_propagate_witness:
  "\<exists>added pool' w1 nm2 st1 w2 nm3 w3.
    add_transactions_and_broadcast fst set_pool send_transactions
      (await_round (demo_ext True) gossip_swarm) (pool_new, network_manager_new 0, demo_world)
      [demo_tx ''a'' 1] =
      Ret (Inr added, pool', (network_manager_new 0)\<lparr>nm_swarm := 1\<rparr>, w1) \<and>
    network_step (demo_ext True) gossip_swarm (SwarmEvent 1 (GossipMessage TRANSACTIONS
      (put_txs [demo_tx ''a'' 1]))) (network_manager_new 0) demo_world = Ret (nm2, demo_world) \<and>
    chain_net_poll (demo_deps True)
      ((chain_net_new (demo_chain True) pool_new)\<lparr>event_recv := event_sender nm2\<rparr>) demo_world =
      Ret (Pending, st1, w2) \<and>
    get_all (cn_pool st1) = get_all pool' \<and> set added = {''a''} \<and>
    network_step (demo_ext True) gossip_swarm NextCommand (nm2\<lparr>event_sender := []\<rparr>) w2 =
      Ret (nm3, w3) \<and> nm_swarm nm3 = 1"
proof -
  let ?txs = "[demo_tx ''a'' 1]" and ?nm = "network_manager_new (0::nat)"
    and ?st = "chain_net_new (demo_chain True) pool_new"
  have deps: "demo_deps True = node_deps (demo_ext True) (mem_redb mem_empty) (\<lambda>w rs. hd rs)
      (\<lambda>w n. [0..<n])" by (simp add: demo_deps_def)
  have enc: "sw_txs_encode gossip_swarm = put_txs"
    and dec: "sw_txs_decode gossip_swarm (sw_txs_encode gossip_swarm ?txs) = Inr ?txs"
    using take_put_txs [of ?txs] length_put_txs [of ?txs]
    by (simp_all add: gossip_swarm_def demo_swarm_def del: put_txs.simps)
  have old: "\<forall>tx \<in> set ?txs. map_of pool_new (tx_hash tx) \<in> {None, Some tx}"
    by (simp add: pool_new_def)
  have pub: "sw_publish gossip_swarm (nm_swarm ?nm) TRANSACTIONS (sw_txs_encode gossip_swarm ?txs) =
      (Inr (), 1)"
    by (simp add: gossip_swarm_def demo_seen_def network_manager_new_def)
  have dup: "\<forall>s' t d. message_id demo_hash d \<in> demo_seen s' \<longrightarrow>
      sw_publish gossip_swarm s' t d = (Inl ''Duplicate'', s')"
    by (simp add: gossip_swarm_def)
  have seen: "message_id demo_hash (sw_txs_encode gossip_swarm ?txs) \<in> demo_seen 1"
    by (simp add: enc demo_seen_def)
  have w: "command_open demo_world" "commands demo_world = []" by (simp_all add: demo_world_def)
  have nm: "event_open ?nm" "event_sender ?nm = []" by (simp_all add: network_manager_new_def)
  have st: "cn_pool ?st = pool_new" "broadcast_requests ?st = []" "sync_requests ?st = []"
    "closest_peers_request_for_sync ?st = None" by (simp_all add: chain_net_new_def)
  have new: "?txs = filter (\<lambda>tx. map_of pool_new (tx_hash tx) = None) ?txs" by (simp add: pool_new_def)
  have hashes: "{h \<in> tx_hash ` set ?txs. map_of pool_new h = None} = {''a''}"
    by (auto simp: pool_new_def)
  show ?thesis
    using transactions_propagate [where pool = pool_new and txs = ?txs and txs' = ?txs
        and S = gossip_swarm and S' = gossip_swarm and nm = ?nm and nm' = ?nm and s = 1 and ?s1.0 = 1
        and H = demo_hash and seen = demo_seen and w = demo_world and w' = demo_world and st = ?st
        and X = "demo_ext True" and R = "mem_redb mem_empty" and pick = "\<lambda>w rs. hd rs"
        and woken = "\<lambda>w n. [0..<n]", OF pool_inv_new old w new pub refl dec dup seen nm w st]
    unfolding deps hashes enc by - (elim exE conjE, intro exI conjI, assumption+)
qed

section \<open>The tests of the components\<close>



end
